(* ===== verification/Prelude.thy ===== *)
theory Prelude
  imports Main "HOL-Library.Word"
begin

text \<open>
  What every component of the development shares: the names of the machine types, results that
  are an error or a value, byte-addressed memory with little-endian loads and stores, and the
  generic lemmas on words and ranges of addresses that the component theories use.
\<close>

unbundle bit_operations_syntax

named_theorems res_simps \<open>rewriting a sequence of fallible operations\<close>
named_theorems mem_simps \<open>loads from a memory that was stored to\<close>
named_theorems frame_simps \<open>what an operation leaves unchanged\<close>

section \<open>Machine types\<close>

type_synonym u8 = "8 word"
type_synonym u16 = "16 word"
type_synonym u32 = "32 word"
type_synonym u64 = "64 word"

text \<open>A byte-addressed memory; \<open>'a\<close> is the width of an address (64 in Lobo, 32 in AWD).\<close>

type_synonym 'a bytes = "'a word \<Rightarrow> u8"

section \<open>Results: an error or a value\<close>

primrec bind_r :: "'e + 'a \<Rightarrow> ('a \<Rightarrow> 'e + 'b) \<Rightarrow> 'e + 'b" where
  "bind_r (Inl e) f = Inl e"
| "bind_r (Inr a) f = f a"

lemma bind_r_eq_Inr [res_simps]:
  "bind_r x f = Inr y \<longleftrightarrow> (\<exists>a. x = Inr a \<and> f a = Inr y)"
  by (cases x) auto

lemma bind_r_eq_Inl [res_simps]:
  "bind_r x f = Inl e \<longleftrightarrow> x = Inl e \<or> (\<exists>a. x = Inr a \<and> f a = Inl e)"
  by (cases x) auto

lemma bind_r_cong [fundef_cong]:
  "x = x' \<Longrightarrow> (\<And>a. x' = Inr a \<Longrightarrow> f a = f' a) \<Longrightarrow> bind_r x f = bind_r x' f'"
  by (cases x') auto

lemma bind_r_assoc [res_simps]: "bind_r (bind_r x f) g = bind_r x (\<lambda>a. bind_r (f a) g)"
  by (cases x) auto

text \<open>The result of a check: \<open>assert(c)\<close> and the guarded panics of the source.\<close>

definition guard :: "'e \<Rightarrow> bool \<Rightarrow> 'e + unit" where
  "guard e c = (if c then Inr () else Inl e)"

lemma guard_simps [simp]:
  "guard e c = Inr u \<longleftrightarrow> c"
  "guard e c = Inl e' \<longleftrightarrow> \<not> c \<and> e' = e"
  "guard e True = Inr ()"
  "guard e False = Inl e"
  by (auto simp: guard_def)

text \<open>A loop over a list that stops at the first failure.\<close>

primrec fold_r :: "('s \<Rightarrow> 'a \<Rightarrow> 'e + 's) \<Rightarrow> 'a list \<Rightarrow> 's \<Rightarrow> 'e + 's" where
  "fold_r f [] s = Inr s"
| "fold_r f (x # xs) s = bind_r (f s x) (fold_r f xs)"

lemma fold_r_append: "fold_r f (xs @ ys) s = bind_r (fold_r f xs s) (fold_r f ys)"
  by (induction xs arbitrary: s) (auto simp: bind_r_assoc intro: bind_r_cong)

lemma fold_r_invariant:
  "fold_r f xs s = Inr s' \<Longrightarrow> P s \<Longrightarrow>
     (\<And>s x s'. x \<in> set xs \<Longrightarrow> f s x = Inr s' \<Longrightarrow> P s \<Longrightarrow> P s') \<Longrightarrow> P s'"
  by (induction xs arbitrary: s) (auto simp: bind_r_eq_Inr)

lemma fold_r_total: "fold_r (\<lambda>s x. Inr (f s x)) xs s = Inr (foldl f s xs)"
  by (induction xs arbitrary: s) auto

lemma find_append: "find P (xs @ ys) = (case find P xs of None \<Rightarrow> find P ys | Some x \<Rightarrow> Some x)"
  by (induction xs) auto

section \<open>Words\<close>

lemma unat_lt_power: "unat (w :: 'a::len word) < 2 ^ LENGTH('a)"
  by (rule unsigned_less)

lemma unat_Suc_less:
  fixes i n :: "'a::len word"
  assumes "i < n"
  shows "unat (i + 1) = Suc (unat i)"
proof -
  have "Suc (unat i) < 2 ^ LENGTH('a)"
    using assms unat_lt_power [of n] unfolding word_less_nat_alt by linarith
  then show ?thesis by (simp add: unat_word_ariths)
qed

lemma unat_diff_Suc:
  fixes x p :: "'a::len word"
  assumes "x \<noteq> p"
  shows "unat (x - p) = Suc (unat (x - (p + 1)))"
proof -
  have "x - p \<noteq> 0" using assms by simp
  then have "unat (x - p - 1) = unat (x - p) - 1" and "0 < unat (x - p)"
    by (simp_all add: unat_minus_one unat_gt_0)
  then show ?thesis by (simp add: diff_diff_eq)
qed

lemma unat_add_lt:
  fixes a b :: "'a::len word"
  assumes "unat a + unat b < 2 ^ LENGTH('a)"
  shows "unat (a + b) = unat a + unat b"
  using assms by (simp add: unat_word_ariths)

lemma unat_sub_le:
  fixes a b :: "'a::len word"
  assumes "unat b \<le> unat a"
  shows "unat (a - b) = unat a - unat b"
  using assms by (simp add: unat_sub word_le_nat_alt)

lemma unat_sub_gt:
  fixes a b :: "'a::len word"
  assumes "unat a < unat b"
  shows "unat (a - b) = 2 ^ LENGTH('a) + unat a - unat b"
  using assms by (simp add: unat_sub_if')

lemma unat_ucast_mod: "unat (ucast (w :: 'a::len word) :: 'b::len word) = unat w mod 2 ^ LENGTH('b)"
  by (simp add: unsigned_ucast_eq take_bit_eq_mod)

lemma unat_ucast_up:
  assumes "LENGTH('a) \<le> LENGTH('b)"
  shows "unat (ucast (w :: 'a::len word) :: 'b::len word) = unat w"
proof -
  have "unat w < 2 ^ LENGTH('b)"
    using unat_lt_power [of w] assms by (rule less_le_trans [OF _ power_increasing]) simp
  then show ?thesis by (simp add: unat_ucast_mod)
qed

section \<open>Ranges of addresses\<close>

text \<open>\<open>x\<close> is one of the \<open>n\<close> bytes from \<open>a\<close> on (addresses wrap at the top, as the words do).\<close>

definition in_range :: "'a::len word \<Rightarrow> 'a word \<Rightarrow> nat \<Rightarrow> bool" where
  "in_range x a n \<longleftrightarrow> unat (x - a) < n"

text \<open>The ranges \<open>[a, a+n)\<close> and \<open>[b, b+k)\<close> share no byte.\<close>

definition disjoint_ranges :: "'a::len word \<Rightarrow> nat \<Rightarrow> 'a word \<Rightarrow> nat \<Rightarrow> bool" where
  "disjoint_ranges a n b k \<longleftrightarrow> (\<forall>x. \<not> (in_range x a n \<and> in_range x b k))"

lemma in_range_0 [simp]: "\<not> in_range x a 0"
  by (simp add: in_range_def)

lemma in_range_self [simp]: "in_range a a n \<longleftrightarrow> 0 < n"
  by (simp add: in_range_def)

lemma in_range_Suc: "in_range x a (Suc n) \<longleftrightarrow> x = a \<or> in_range x (a + 1) n"
  by (cases "x = a") (simp_all add: in_range_def unat_diff_Suc)

lemma in_range_mono: "in_range x a n \<Longrightarrow> n \<le> k \<Longrightarrow> in_range x a k"
  by (simp add: in_range_def)

lemma in_range_offset:
  "i < n \<Longrightarrow> i < 2 ^ LENGTH('a) \<Longrightarrow> in_range (a + of_nat i) (a :: 'a::len word) n"
  by (simp add: in_range_def unat_of_nat)

lemma in_range_inside:
  fixes a :: "'a::len word"
  assumes "in_range x (a + of_nat off) k" and "off + k \<le> n" and "n \<le> 2 ^ LENGTH('a)"
  shows "in_range x a n"
proof -
  let ?d = "x - a - of_nat off"
  have "unat ?d < k" using assms(1) by (simp add: in_range_def diff_diff_eq)
  moreover have "unat (of_nat off :: 'a word) \<le> off"
    by (simp add: unat_of_nat)
  ultimately have "unat (?d + of_nat off) < n"
    using assms(2,3) by (subst unat_add_lt) linarith+
  then show ?thesis by (simp add: in_range_def)
qed

lemma disjoint_rangesD:
  "disjoint_ranges a n b k \<Longrightarrow> in_range x a n \<Longrightarrow> \<not> in_range x b k"
  by (auto simp: disjoint_ranges_def)

lemma disjoint_ranges_sym: "disjoint_ranges a n b k \<longleftrightarrow> disjoint_ranges b k a n"
  by (auto simp: disjoint_ranges_def)

text \<open>A range that does not wrap is an interval of numbers.\<close>

lemma in_range_unat:
  fixes a :: "'a::len word"
  assumes "unat a + n \<le> 2 ^ LENGTH('a)"
  shows "in_range x a n \<longleftrightarrow> unat a \<le> unat x \<and> unat x < unat a + n"
proof (cases "unat a \<le> unat x")
  case True
  then show ?thesis by (auto simp: in_range_def unat_sub_le)
next
  case False
  then show ?thesis using assms by (auto simp: in_range_def unat_sub_gt)
qed

lemma disjoint_ranges_below:
  fixes a b :: "'a::len word"
  assumes "unat a + n \<le> unat b" and "unat b + k \<le> 2 ^ LENGTH('a)"
  shows "disjoint_ranges a n b k"
  using assms by (auto simp: disjoint_ranges_def in_range_unat)

section \<open>Little-endian loads and stores\<close>

text \<open>
  \<open>load_le n m a\<close> reads \<open>n\<close> bytes at \<open>a\<close>, the least significant first, as the code's processors
  do; \<open>store_le n m a v\<close> writes the low \<open>n\<close> bytes of \<open>v\<close>.
\<close>

fun load_le :: "nat \<Rightarrow> ('a::len word \<Rightarrow> u8) \<Rightarrow> 'a word \<Rightarrow> 'b::len word" where
  "load_le 0 m a = 0"
| "load_le (Suc n) m a = ucast (m a) OR push_bit 8 (load_le n m (a + 1))"

definition store_le :: "nat \<Rightarrow> ('a::len word \<Rightarrow> u8) \<Rightarrow> 'a word \<Rightarrow> 'b::len word \<Rightarrow> ('a word \<Rightarrow> u8)" where
  "store_le n m a v = (\<lambda>x. if in_range x a n then ucast (drop_bit (8 * unat (x - a)) v) else m x)"

abbreviation load16 :: "('a::len word \<Rightarrow> u8) \<Rightarrow> 'a word \<Rightarrow> u16" where "load16 \<equiv> load_le 2"
abbreviation load32 :: "('a::len word \<Rightarrow> u8) \<Rightarrow> 'a word \<Rightarrow> u32" where "load32 \<equiv> load_le 4"
abbreviation load64 :: "('a::len word \<Rightarrow> u8) \<Rightarrow> 'a word \<Rightarrow> u64" where "load64 \<equiv> load_le 8"
abbreviation store64 :: "('a::len word \<Rightarrow> u8) \<Rightarrow> 'a word \<Rightarrow> u64 \<Rightarrow> ('a word \<Rightarrow> u8)" where
  "store64 \<equiv> store_le 8"

lemma bit_load_le:
  "bit (load_le n m a :: 'b::len word) i \<longleftrightarrow>
     i < LENGTH('b) \<and> i < 8 * n \<and> bit (m (a + of_nat (i div 8))) (i mod 8)"
proof (induction n arbitrary: a i)
  case 0
  then show ?case by simp
next
  case (Suc n)
  show ?case
  proof (cases "i < 8")
    case True
    then show ?thesis by (auto simp: bit_simps bit_imp_le_length)
  next
    case False
    then obtain j where j: "i = j + 8" by (metis add.commute le_add_diff_inverse not_less)
    have "(j + 8) div 8 = Suc (j div 8)" and "(j + 8) mod 8 = j mod 8" by simp_all
    moreover have "\<not> bit (m a) (j + 8)" by (auto dest: bit_imp_le_length)
    ultimately show ?thesis
      using Suc.IH [of "a + 1" j] by (auto simp: j bit_simps algebra_simps)
  qed
qed

lemma load_le_cong:
  assumes "\<And>x. in_range x a n \<Longrightarrow> m x = m' x" and "n \<le> 2 ^ LENGTH('a)"
  shows "(load_le n m (a :: 'a::len word) :: 'b::len word) = load_le n m' a"
proof (rule bit_word_eqI)
  fix i
  show "bit (load_le n m a :: 'b word) i \<longleftrightarrow> bit (load_le n m' a :: 'b word) i"
  proof (cases "i < 8 * n")
    case True
    then have "i div 8 < n" by auto
    then have "in_range (a + of_nat (i div 8)) a n"
      using assms(2) by (intro in_range_offset) auto
    then show ?thesis by (simp add: bit_load_le assms(1))
  qed (simp add: bit_load_le)
qed

lemma load_le_same:
  assumes "\<And>x. in_range x a n \<Longrightarrow> m' x = m x" and "off + k \<le> n" and "n \<le> 2 ^ LENGTH('a)"
  shows "(load_le k m' (a + of_nat off) :: 'b::len word) = load_le k m (a + of_nat off :: 'a::len word)"
proof (rule load_le_cong)
  show "m' x = m x" if "in_range x (a + of_nat off) k" for x
    using assms(1) in_range_inside [OF that assms(2,3)] by simp
  show "k \<le> 2 ^ LENGTH('a)" using assms(2,3) by linarith
qed

lemma load_store_same [mem_simps]:
  fixes v :: "'b::len word" and a :: "'a::len word"
  assumes "LENGTH('b) = 8 * n" and "n \<le> 2 ^ LENGTH('a)"
  shows "load_le n (store_le n m a v) a = v"
proof (rule bit_word_eqI)
  fix i assume i: "i < LENGTH('b)"
  then have lt: "i div 8 < n" using assms(1) by auto
  then have "i div 8 < 2 ^ LENGTH('a)" using assms(2) by linarith
  with lt have "in_range (a + of_nat (i div 8)) a n" and "unat (of_nat (i div 8) :: 'a word) = i div 8"
    by (simp_all add: in_range_offset unat_of_nat)
  then show "bit (load_le n (store_le n m a v) a :: 'b word) i \<longleftrightarrow> bit v i"
    using i assms(1) by (simp add: bit_load_le store_le_def bit_simps)
qed

lemma load_store_disjoint:
  fixes v :: "'c::len word" and b :: "'a::len word"
  assumes "disjoint_ranges a k b n" and "n \<le> 2 ^ LENGTH('a)"
  shows "load_le n (store_le k m a v) b = load_le n m b"
  using assms by (intro load_le_cong) (auto simp: store_le_def disjoint_ranges_def)

lemma load64_store64 [simp, mem_simps]: "load64 (store64 m (a :: u64) v) a = v"
  by (rule load_store_same) simp_all

lemma load_le_zero:
  assumes "\<And>x. in_range x a n \<Longrightarrow> m x = 0" and "n \<le> 2 ^ LENGTH('a)"
  shows "load_le n m (a :: 'a::len word) = 0"
proof -
  have "load_le n m a = load_le n (\<lambda>_. 0) a" using assms by (intro load_le_cong)
  also have "load_le n (\<lambda>_. 0) a = 0" by (rule bit_word_eqI) (simp add: bit_load_le)
  finally show ?thesis .
qed

end
