(* ===== verification/Libc_Stdlib.thy ===== *)
theory Libc_Stdlib
  imports Prelude
begin

text \<open>
  Number conversion: \<open>itoa\<close> (src/libc/stdlib/itoa.c for the kernel, src/awd/libc/stdlib/itoa.c with
  its 64-bit twin for the loader) and \<open>atoi\<close>.  The conversion buffer is the functions' static
  array, passed in and returned; a write below its first element, a digit outside the look-up
  table and a division by zero are errors.  A signed overflow in \<open>atoi\<close>, and a missing
  terminator, is \<open>None\<close>.
\<close>

abbreviation NUL :: char where "NUL \<equiv> CHR 0x00"

text \<open>A \<open>char\<close> promoted to \<open>int\<close>: the processors' plain \<open>char\<close> is signed.\<close>

definition char_int :: "char \<Rightarrow> int" where
  "char_int c = (let v = of_char c in if 128 \<le> v then v - 256 else v)"

text \<open>The string that starts at an index of an array: up to the terminator.\<close>

definition c_str :: "char list \<Rightarrow> nat \<Rightarrow> string" where
  "c_str buf i = takeWhile (\<lambda>c. c \<noteq> NUL) (drop i buf)"

section \<open>itoa\<close>

datatype itoa_error = DivideError | LutOverrun | BufferUnderrun

definition lut :: string where
  "lut = ''0123456789ABCDEF'' @ [NUL]"

fun itoa_loop :: "char list \<Rightarrow> nat \<Rightarrow> 'a::len word \<Rightarrow> 'a word \<Rightarrow> itoa_error + (char list \<times> nat)" where
  "itoa_loop buf buf_index n base =
     (if base = 0 then Inl DivideError
      else if length lut \<le> unat (n mod base) then Inl LutOverrun
      else case buf_index of
        0 \<Rightarrow> Inl BufferUnderrun
      | Suc i \<Rightarrow>
          let buf' = buf[i := lut ! unat (n mod base)]; n' = n div base
          in if n' > 0 then itoa_loop buf' i n' base else Inr (buf', i))"

declare itoa_loop.simps [simp del]

definition itoa :: "char list \<Rightarrow> u64 \<Rightarrow> u32 \<Rightarrow> itoa_error + (char list \<times> nat)" where
  "itoa buffer n base = itoa_loop (buffer[49 := NUL]) 49 n (scast base)"

definition awd_itoa :: "char list \<Rightarrow> u32 \<Rightarrow> u32 \<Rightarrow> itoa_error + (char list \<times> nat)" where
  "awd_itoa buffer n base = itoa_loop (buffer[length buffer - 1 := NUL]) (length buffer - 1) n base"

definition awd_itoa64 :: "char list \<Rightarrow> u64 \<Rightarrow> u32 \<Rightarrow> itoa_error + (char list \<times> nat)" where
  "awd_itoa64 buffer n base =
     itoa_loop (buffer[length buffer - 1 := NUL]) (length buffer - 1) n (scast base)"

text \<open>The three static arrays, of \<open>sizeof(type) * 8 + 1\<close> bytes, as the loader finds them: zeroed.\<close>

definition itoa_buffer :: "char list" where "itoa_buffer = replicate (8 * 8 + 1) NUL"
definition awd_itoa_buffer :: "char list" where "awd_itoa_buffer = replicate (4 * 8 + 1) NUL"
definition awd_itoa64_buffer :: "char list" where "awd_itoa64_buffer = replicate (8 * 8 + 1) NUL"

subsection \<open>The digits of a number\<close>

fun digits :: "nat \<Rightarrow> nat \<Rightarrow> nat list" where
  "digits b n = (if n < b \<or> b < 2 then [n] else digits b (n div b) @ [n mod b])"

declare digits.simps [simp del]

definition digit_value :: "nat \<Rightarrow> nat list \<Rightarrow> nat" where
  "digit_value b ds = foldl (\<lambda>v d. v * b + d) 0 ds"

definition numeral_string :: "nat \<Rightarrow> nat \<Rightarrow> string" where
  "numeral_string b n = map (\<lambda>d. lut ! d) (digits b n)"

lemma digits_value: "digit_value b (digits b n) = n"
  by (induction b n rule: digits.induct)
     (subst digits.simps, auto simp: digit_value_def)

lemma digits_less: "2 \<le> b \<Longrightarrow> d \<in> set (digits b n) \<Longrightarrow> d < b"
proof (induction b n rule: digits.induct)
  case (1 b n)
  then show ?case
    by (cases "n < b") (auto simp: digits.simps [of b n])
qed

lemma digits_not_Nil [simp]: "digits b n \<noteq> []"
  by (subst digits.simps) simp

lemma digits_length: "n < b ^ Suc k \<Longrightarrow> 2 \<le> b \<Longrightarrow> length (digits b n) \<le> Suc k"
proof (induction k arbitrary: n)
  case 0
  then show ?case by (subst digits.simps) simp
next
  case (Suc k)
  show ?case
  proof (cases "n < b")
    case True
    then show ?thesis by (subst digits.simps) simp
  next
    case False
    from Suc.prems have "n div b < b ^ Suc k"
      by (simp add: less_mult_imp_div_less mult.commute)
    with Suc.IH [of "n div b"] Suc.prems False show ?thesis
      by (subst digits.simps) auto
  qed
qed

lemma lut_nth_nonzero: "d < 16 \<Longrightarrow> lut ! d \<noteq> NUL"
  by (simp add: lut_def less_Suc_eq numeral_eq_Suc) auto

subsection \<open>The loop\<close>

lemma itoa_loop_digits:
  fixes n base :: "'a::len word"
  assumes "2 \<le> unat base" and "unat base \<le> 16" and "buf_index \<le> length buf"
  shows "itoa_loop buf buf_index n base =
    (let ds = digits (unat base) (unat n); k = length ds
     in if k \<le> buf_index
        then Inr (take (buf_index - k) buf @ numeral_string (unat base) (unat n) @ drop buf_index buf,
                  buf_index - k)
        else Inl BufferUnderrun)"
  using assms
proof (induction buf_index arbitrary: buf n)
  case 0
  have "unat n mod unat base < unat base" using assms(1) by (intro mod_less_divisor) linarith
  then have "unat (n mod base) < 16" using assms(2) by (simp add: unat_mod)
  moreover have "base \<noteq> 0" using assms(1) by auto
  ultimately show ?case by (simp add: itoa_loop.simps lut_def Let_def)
next
  case (Suc i)
  have b0: "base \<noteq> 0" and md: "unat (n mod base) = unat n mod unat base"
    and dv: "unat (n div base) = unat n div unat base"
    using assms(1) by (auto simp: unat_mod unat_div)
  have "unat n mod unat base < unat base" using assms(1) by (intro mod_less_divisor) linarith
  then have small: "unat (n mod base) < 16" using assms(2) by (simp add: md)
  let ?buf = "buf[i := lut ! unat (n mod base)]"
  have step: "itoa_loop buf (Suc i) n base =
      (if n div base > 0 then itoa_loop ?buf i (n div base) base else Inr (?buf, i))"
    using b0 small by (simp add: itoa_loop.simps [of buf] lut_def Let_def)
  have upd: "drop i ?buf = lut ! unat (n mod base) # drop (Suc i) buf"
    using Suc.prems(3) by (simp add: upd_conv_take_nth_drop)
  show ?case
  proof (cases "unat n < unat base")
    case True
    then have "n div base = 0" by (simp add: unat_eq_zero [symmetric] dv)
    then show ?thesis
      using True Suc.prems(3) assms(1)
      by (simp add: step digits.simps [of "unat base" "unat n"] numeral_string_def Let_def md
          upd_conv_take_nth_drop)
  next
    case False
    then have "n div base > 0" using assms(1) by (simp add: word_greater_zero_iff unat_eq_zero [symmetric] dv div_eq_0_iff)
    then show ?thesis
      using False Suc.IH [of ?buf "n div base"] Suc.prems(3) assms
      by (auto simp: step digits.simps [of "unat base" "unat n"] numeral_string_def Let_def md dv upd [unfolded md])
  qed
qed

subsection \<open>What the three conversions return\<close>

lemma numeral_string_no_NUL:
  "2 \<le> b \<Longrightarrow> b \<le> 16 \<Longrightarrow> NUL \<notin> set (numeral_string b n)"
  using digits_less [of b] lut_nth_nonzero
  by (fastforce simp: numeral_string_def dest!: sym [of NUL])

lemma c_str_append:
  assumes "NUL \<notin> set xs"
  shows "c_str (ys @ xs @ NUL # zs) (length ys) = xs"
proof -
  have "takeWhile (\<lambda>c. c \<noteq> NUL) xs = xs" using assms by (auto simp: takeWhile_eq_all_conv)
  with assms show ?thesis by (auto simp: c_str_def takeWhile_append)
qed

lemma itoa_loop_string:
  fixes n base :: "'a::len word"
  assumes base: "2 \<le> unat base" "unat base \<le> 16" and len: "start < length buffer"
    and fits: "length (digits (unat base) (unat n)) \<le> start"
  shows "\<exists>buf' i. itoa_loop (buffer[start := NUL]) start n base = Inr (buf', i) \<and>
    i < start \<and> length buf' = length buffer \<and> c_str buf' i = numeral_string (unat base) (unat n)"
proof -
  let ?s = "numeral_string (unat base) (unat n)" and ?b = "buffer[start := NUL]"
  let ?i = "start - length (digits (unat base) (unat n))"
  have dr: "drop start ?b = NUL # drop (Suc start) buffer"
    using len by (simp add: upd_conv_take_nth_drop)
  have "0 < length (digits (unat base) (unat n))" by simp
  with fits have "?i < start" by linarith
  moreover
  have "length (take ?i ?b) = ?i" using len by simp
  then have "c_str (take ?i ?b @ ?s @ NUL # drop (Suc start) buffer) ?i = ?s"
    using c_str_append [of ?s "take ?i ?b"] numeral_string_no_NUL [OF base] by metis
  moreover have "itoa_loop ?b start n base = Inr (take ?i ?b @ ?s @ drop start ?b, ?i)"
    using base len fits by (simp add: itoa_loop_digits Let_def)
  moreover have "length (take ?i ?b @ ?s @ drop start ?b) = length buffer"
    using len fits by (simp add: numeral_string_def)
  ultimately show ?thesis using dr by auto
qed

lemma scast_base: "unat b < 2 ^ 31 \<Longrightarrow> unat (scast (b :: u32) :: u64) = unat b"
proof -
  assume b: "unat b < 2 ^ 31"
  have "\<not> bit b 31"
    using b bit_unsigned_iff [of b 31, where 'a = nat] by (simp add: bit_iff_odd [of "unat b"])
  then have low: "n < 31" if "bit b n" for n
    using that bit_imp_le_length [of b n] by (cases "n = 31") auto
  have "(scast b :: u64) = ucast b"
    using low by (intro bit_word_eqI) (auto simp: bit_simps min_def not_le dest: less_imp_le, fastforce)
  then show ?thesis using b by (simp add: unsigned_ucast_eq take_bit_nat_eq_self)
qed

section \<open>atoi\<close>

definition checked_int :: "int \<Rightarrow> int option" where
  "checked_int i = (if - (2 ^ 31) \<le> i \<and> i < 2 ^ 31 then Some i else None)"

fun atoi_loop :: "char list \<Rightarrow> int \<Rightarrow> int option" where
  "atoi_loop [] result = None"
| "atoi_loop (c # str) result =
     (if c = NUL then Some result
      else case checked_int (result * 10) of
        None \<Rightarrow> None
      | Some r10 \<Rightarrow>
          (case checked_int (r10 + (char_int c - char_int (CHR ''0''))) of
             None \<Rightarrow> None
           | Some r \<Rightarrow> atoi_loop str r))"

definition atoi :: "char list \<Rightarrow> int option" where
  "atoi str = atoi_loop str 0"

definition awd_atoi :: "char list \<Rightarrow> int option" where
  "awd_atoi str = atoi str"

text \<open>The decimal digits as characters, and what the loop makes of a run of them.\<close>

lemma char_int_digit: "d < 10 \<Longrightarrow> char_int (lut ! d) - char_int (CHR ''0'') = int d"
  by (simp add: lut_def char_int_def less_Suc_eq numeral_eq_Suc) auto

lemma foldl_digits_mono: "(v :: nat) \<le> foldl (\<lambda>v d. v * 10 + d) v ds"
proof (induction ds arbitrary: v)
  case (Cons d ds)
  have "v \<le> v * 10 + d" by simp
  also have "\<dots> \<le> foldl (\<lambda>v d. v * 10 + d) (v * 10 + d) ds" by (rule Cons.IH)
  finally show ?case by simp
qed simp

lemma atoi_loop_digits:
  assumes "\<forall>d \<in> set ds. d < 10" and "foldl (\<lambda>v d. v * 10 + d) v ds < 2 ^ 31"
  shows "atoi_loop (map (\<lambda>d. lut ! d) ds @ NUL # rest) (int v) =
    Some (int (foldl (\<lambda>v d. v * 10 + d) v ds))"
  using assms
proof (induction ds arbitrary: v)
  case Nil
  then show ?case by simp
next
  case (Cons d ds)
  have "v * 10 + d < 2 ^ 31"
    using foldl_digits_mono [of "v * 10 + d" ds] Cons.prems(2) by simp
  then have "checked_int (int v * 10) = Some (int (v * 10))"
    and "checked_int (int (v * 10) + int d) = Some (int (v * 10 + d))"
    by (auto simp: checked_int_def)
  then show ?case
    using Cons.IH [of "v * 10 + d"] Cons.prems lut_nth_nonzero [of d]
    by (simp add: char_int_digit)
qed

lemma atoi_numeral:
  assumes "n < 2 ^ 31"
  shows "atoi (numeral_string 10 n @ NUL # rest) = Some (int n)"
  using atoi_loop_digits [of "digits 10 n" 0 rest] digits_less [of 10] digits_value [of 10 n] assms
  by (simp add: atoi_def numeral_string_def digit_value_def)

section \<open>Properties\<close>

text \<open>What a conversion returns: its buffer, of the same length, and the index of the string in it,
  whose characters are the digits of the number in the base.\<close>

definition converts :: "itoa_error + (char list \<times> nat) \<Rightarrow> nat \<Rightarrow> nat \<Rightarrow> nat \<Rightarrow> bool" where
  "converts r len n b \<longleftrightarrow> (\<exists>buf i ds. r = Inr (buf, i) \<and> length buf = len \<and>
     c_str buf i = map (\<lambda>d. lut ! d) ds \<and> ds \<noteq> [] \<and> (\<forall>d \<in> set ds. d < b) \<and> digit_value b ds = n)"

lemma itoa_loop_converts:
  fixes n base :: "'a::len word"
  assumes "2 \<le> unat base" "unat base \<le> 16" and "start < length buffer"
    and "length (digits (unat base) (unat n)) \<le> start"
  shows "converts (itoa_loop (buffer[start := NUL]) start n base) (length buffer) (unat n) (unat base)"
  using itoa_loop_string [OF assms] digits_less [OF assms(1)] digits_value [of "unat base" "unat n"]
  by (auto simp: converts_def numeral_string_def) (metis digits_not_Nil)

lemma digits_length_base:
  assumes "2 \<le> b" and "c ^ Suc k \<le> b ^ Suc k" and "n < c ^ Suc k"
  shows "length (digits b n) \<le> Suc k"
  using digits_length [of n b k] assms by simp

lemma digits_length_lower: "b ^ k \<le> n \<Longrightarrow> 2 \<le> b \<Longrightarrow> k < length (digits b n)"
proof (induction k arbitrary: n)
  case (Suc k)
  then have "b ^ k \<le> n div b" by (simp add: less_eq_div_iff_mult_less_eq mult.commute)
  moreover have "b \<le> b ^ Suc k" using Suc.prems(2) self_le_power [of b "Suc k"] by simp
  with Suc.prems(1) have "b \<le> n" by linarith
  ultimately show ?case using Suc by (subst digits.simps) auto
qed simp

text \<open>C15. The kernel's \<open>itoa\<close> converts every 64-bit number in every base from 3 to 16: the string it
  returns lies in its static buffer, is terminated, and its digits have the number as their value.\<close>

theorem itoa_converts:
  assumes "3 \<le> unat base" and "unat base \<le> 16" and "length buffer = 65"
  shows "converts (itoa buffer n base) 65 (unat n) (unat base)"
proof -
  have "(3 :: nat) ^ Suc 40 \<le> unat base ^ Suc 40" using assms(1) by (intro power_mono) simp_all
  moreover have "unat n < 3 ^ Suc 40" using unat_lt_power [of n] by simp
  ultimately have "length (digits (unat base) (unat n)) \<le> Suc 40"
    using assms(1) digits_length_base [of "unat base" 3 40 "unat n"] by linarith
  then show ?thesis
    using itoa_loop_converts [of "scast base :: u64" 49 buffer n] assms scast_base [of base]
    by (simp add: itoa_def)
qed

theorem itoa_converts_witness:
  "converts (itoa itoa_buffer 0xDEADBEEF 16) 65 0xDEADBEEF 16"
  using itoa_converts [of 16 itoa_buffer 3735928559] by (simp add: itoa_buffer_def)

text \<open>In base 2 the kernel's \<open>itoa\<close> is not safe: it starts at index 49 of its 65 bytes, so a
  number of 50 or more binary digits makes it write below the buffer; smaller ones convert.\<close>

theorem itoa_binary:
  assumes "length buffer = 65"
  shows "if unat n < 2 ^ 49 then converts (itoa buffer n 2) 65 (unat n) 2
    else itoa buffer n 2 = Inl BufferUnderrun"
proof (cases "unat n < 2 ^ 49")
  case True
  then have "length (digits 2 (unat n)) \<le> Suc 48" by (intro digits_length) simp_all
  then show ?thesis
    using True itoa_loop_converts [of "2 :: u64" 49 buffer n] assms scast_base [of 2]
    by (simp add: itoa_def)
next
  case False
  then have "49 < length (digits 2 (unat n))" by (intro digits_length_lower) simp_all
  then show ?thesis
    using False assms itoa_loop_digits [of "2 :: u64" 49 "buffer[49 := NUL]" n] scast_base [of 2]
    by (simp add: itoa_def Let_def)
qed

theorem itoa_binary_witness: "itoa itoa_buffer 0x8000000000000000 2 = Inl BufferUnderrun"
  using itoa_binary [of itoa_buffer 9223372036854775808] by (simp add: itoa_buffer_def)

text \<open>The loader's two conversions, with buffers of a digit per bit and a terminator, are right
  for every number in every base from 2 to 16.\<close>

theorem awd_itoa_converts:
  assumes "2 \<le> unat base" and "unat base \<le> 16" and "length buffer = 33" and "length buffer64 = 65"
  shows "converts (awd_itoa buffer n base) 33 (unat n) (unat base) \<and>
    converts (awd_itoa64 buffer64 n64 base) 65 (unat n64) (unat base)"
proof -
  have le: "(2 :: nat) ^ Suc k \<le> unat base ^ Suc k" for k using assms(1) by (intro power_mono) simp_all
  have "unat n < 2 ^ Suc 31" and "unat n64 < 2 ^ Suc 63"
    using unat_lt_power [of n] unat_lt_power [of n64] by simp_all
  then have "length (digits (unat base) (unat n)) \<le> Suc 31"
    and "length (digits (unat base) (unat n64)) \<le> Suc 63"
    using assms(1) le by (meson digits_length_base)+
  then show ?thesis
    using itoa_loop_converts [of base 32 buffer n]
      itoa_loop_converts [of "scast base :: u64" 64 buffer64 n64] assms scast_base [of base]
    by (simp add: awd_itoa_def awd_itoa64_def)
qed

theorem awd_itoa_converts_witness:
  "converts (awd_itoa awd_itoa_buffer 0xFFFFFFFF 2) 33 0xFFFFFFFF 2 \<and>
   converts (awd_itoa64 awd_itoa64_buffer 0xFFFFFFFFFFFFFFFF 2) 65 0xFFFFFFFFFFFFFFFF 2"
  using awd_itoa_converts [of 2 awd_itoa_buffer awd_itoa64_buffer "0xFFFFFFFF" "0xFFFFFFFFFFFFFFFF"]
  by (simp add: awd_itoa_buffer_def awd_itoa64_buffer_def)

text \<open>C16. Reading back a printed number: \<open>atoi\<close> of the string that \<open>itoa\<close> makes of a number in base
  10 is the number, for every number that an \<open>int\<close> holds.\<close>

theorem atoi_itoa:
  assumes "unat n < 2 ^ 31" and "length buffer = 65"
  shows "\<exists>buf i. itoa buffer n 10 = Inr (buf, i) \<and> atoi (drop i buf) = Some (int (unat n))"
proof -
  let ?ds = "digits 10 (unat n)"
  have "length ?ds \<le> Suc 9" using assms(1) by (intro digits_length) simp_all
  then have run: "itoa buffer n 10 = Inr (take (49 - length ?ds) (buffer[49 := NUL]) @
      numeral_string 10 (unat n) @ drop 49 (buffer[49 := NUL]), 49 - length ?ds)" (is "_ = Inr (?b, ?i)")
    using itoa_loop_digits [of "10 :: u64" 49 "buffer[49 := NUL]" n] assms(2) scast_base [of 10]
    by (simp add: itoa_def Let_def)
  have "drop 49 (buffer[49 := NUL]) = NUL # drop 50 buffer"
    using assms(2) by (simp add: upd_conv_take_nth_drop)
  then have "drop ?i ?b = numeral_string 10 (unat n) @ NUL # drop 50 buffer"
    using assms(2) by simp
  then show ?thesis using run atoi_numeral [OF assms(1), of "drop 50 buffer"] by auto
qed

theorem atoi_itoa_witness:
  "\<exists>buf i. itoa itoa_buffer 2147483647 10 = Inr (buf, i) \<and> atoi (drop i buf) = Some 2147483647"
  using atoi_itoa [of 2147483647 itoa_buffer] by (simp add: itoa_buffer_def)

end
