(* ===== verification/Libc_String.thy ===== *)
theory Libc_String
  imports Prelude
begin

text \<open>
  The freestanding string library: \<open>memset\<close>, \<open>memcpy\<close>, \<open>memmove\<close>, \<open>strlen\<close> and \<open>strcmp\<close> over
  byte-addressed memory.  The repository carries the same files twice, under src/libc/string for
  the 64-bit kernel and under src/awd/libc/string for the 32-bit loader, where \<open>size_t\<close> and the
  pointers have the width of an address; the definitions take that width as the type variable
  \<open>'a\<close>, and the \<open>awd_\<close> constants are the loader's copies.  A function that returns its pointer
  argument returns it beside the memory.  The searches for a terminator need not stop, so
  \<open>strlen\<close> and \<open>strcmp\<close> are partial functions.
\<close>

section \<open>memset\<close>

function memset_loop :: "'a::len bytes \<Rightarrow> 'a word \<Rightarrow> 'a word \<Rightarrow> 'a word \<Rightarrow> u8 \<Rightarrow> 'a bytes" where
  "memset_loop m ptr_index i num value =
     (if i < num then memset_loop (m(ptr_index := value)) (ptr_index + 1) (i + 1) num value else m)"
  by pat_completeness auto
termination
  by (relation "measure (\<lambda>(m, p, i, num, v). unat num - unat i)")
     (auto simp: unat_Suc_less word_less_nat_alt)

declare memset_loop.simps [simp del]

definition memset :: "'a::len bytes \<Rightarrow> 'a word \<Rightarrow> u32 \<Rightarrow> 'a word \<Rightarrow> 'a bytes \<times> 'a word" where
  "memset m ptr value num = (memset_loop m ptr 0 num (ucast value), ptr)"

definition awd_memset :: "32 bytes \<Rightarrow> u32 \<Rightarrow> u32 \<Rightarrow> u32 \<Rightarrow> 32 bytes \<times> u32" where
  "awd_memset m ptr value num = memset m ptr value num"

lemma memset_loop_apply:
  "memset_loop m p i num v x = (if in_range x p (unat num - unat i) then v else m x)"
proof (induction m p i num v rule: memset_loop.induct)
  case (1 m p i num v)
  show ?case
  proof (cases "i < num")
    case True
    then have len: "unat num - unat i = Suc (unat num - unat (i + 1))"
      by (simp add: unat_Suc_less word_less_nat_alt)
    have "memset_loop m p i num v x = memset_loop (m(p := v)) (p + 1) (i + 1) num v x"
      using True by (simp add: memset_loop.simps [of m p i])
    also have "\<dots> = (if in_range x (p + 1) (unat num - unat (i + 1)) then v else (m(p := v)) x)"
      using True by (rule "1.IH")
    finally show ?thesis using len by (auto simp: in_range_Suc)
  next
    case False
    then show ?thesis by (simp add: memset_loop.simps [of m p i] word_less_nat_alt)
  qed
qed

lemma memset_apply:
  "fst (memset m p v n) x = (if in_range x p (unat n) then ucast v else m x)"
  by (simp add: memset_def memset_loop_apply)

lemma memset_return [simp]: "snd (memset m p v n) = p"
  by (simp add: memset_def)

section \<open>memcpy\<close>

function memcpy_loop :: "'a::len bytes \<Rightarrow> 'a word \<Rightarrow> 'a word \<Rightarrow> 'a word \<Rightarrow> 'a word \<Rightarrow> 'a bytes" where
  "memcpy_loop m destPtr srcPtr i n =
     (if i < n then memcpy_loop (m(destPtr := m srcPtr)) (destPtr + 1) (srcPtr + 1) (i + 1) n else m)"
  by pat_completeness auto
termination
  by (relation "measure (\<lambda>(m, d, s, i, n). unat n - unat i)")
     (auto simp: unat_Suc_less word_less_nat_alt)

declare memcpy_loop.simps [simp del]

definition memcpy :: "'a::len bytes \<Rightarrow> 'a word \<Rightarrow> 'a word \<Rightarrow> 'a word \<Rightarrow> 'a bytes \<times> 'a word" where
  "memcpy m dest src n = (memcpy_loop m dest src 0 n, dest)"

definition awd_memcpy :: "32 bytes \<Rightarrow> u32 \<Rightarrow> u32 \<Rightarrow> u32 \<Rightarrow> 32 bytes \<times> u32" where
  "awd_memcpy m dest src n = memcpy m dest src n"

text \<open>
  A forward copy reads every source byte before it is overwritten, as long as the destination
  does not start inside the source.
\<close>

lemma memcpy_loop_apply:
  assumes "\<not> (in_range d s (unat n - unat i) \<and> d \<noteq> s)"
  shows "memcpy_loop m d s i n x =
    (if in_range x d (unat n - unat i) then m (s + (x - d)) else m x)"
  using assms
proof (induction m d s i n rule: memcpy_loop.induct)
  case (1 m d s i n)
  show ?case
  proof (cases "i < n")
    case True
    then have len: "unat n - unat i = Suc (unat n - unat (i + 1))"
      by (simp add: unat_Suc_less word_less_nat_alt)
    let ?k = "unat n - unat (i + 1)"
    have pre: "\<not> (in_range (d + 1) (s + 1) ?k \<and> d + 1 \<noteq> s + 1)"
      using "1.prems" len by (auto simp: in_range_def)
    have off: "s + 1 + (x - (d + 1)) = s + (x - d)" by (simp add: algebra_simps)
    have "memcpy_loop m d s i n x = memcpy_loop (m(d := m s)) (d + 1) (s + 1) (i + 1) n x"
      using True by (simp add: memcpy_loop.simps [of m d s i])
    also have "\<dots> = (if in_range x (d + 1) ?k
        then (m(d := m s)) (s + 1 + (x - (d + 1))) else (m(d := m s)) x)"
      using True pre by (rule "1.IH")
    finally have IH: "memcpy_loop m d s i n x =
        (if in_range x (d + 1) ?k then (m(d := m s)) (s + (x - d)) else (m(d := m s)) x)"
      by (simp only: off)
    have "s + (x - d) \<noteq> d \<or> d = s" if "in_range x (d + 1) ?k"
    proof (rule ccontr)
      assume "\<not> ?thesis"
      then have eq: "s + (x - d) = d" and ne: "d \<noteq> s" by auto
      from eq have "x - d = d - s" by (simp add: eq_diff_eq add.commute)
      then have "in_range d s (Suc ?k)"
        using that in_range_Suc [of x d ?k] by (simp add: in_range_def)
      with "1.prems" ne show False by (simp add: len)
    qed
    then show ?thesis
      by (auto simp: IH len in_range_Suc)
  next
    case False
    then show ?thesis by (simp add: memcpy_loop.simps [of m d s i] word_less_nat_alt)
  qed
qed

lemma memcpy_apply:
  assumes "\<not> (in_range d s (unat n) \<and> d \<noteq> s)"
  shows "fst (memcpy m d s n) x = (if in_range x d (unat n) then m (s + (x - d)) else m x)"
  using assms by (simp add: memcpy_def memcpy_loop_apply)

section \<open>memmove\<close>

function memmove_up :: "'a::len bytes \<Rightarrow> 'a word \<Rightarrow> 'a word \<Rightarrow> 'a word \<Rightarrow> 'a word \<Rightarrow> 'a bytes" where
  "memmove_up m dst src i sz =
     (if i < sz then memmove_up (m(dst + i := m (src + i))) dst src (i + 1) sz else m)"
  by pat_completeness auto
termination
  by (relation "measure (\<lambda>(m, d, s, i, n). unat n - unat i)")
     (auto simp: unat_Suc_less word_less_nat_alt)

function memmove_down :: "'a::len bytes \<Rightarrow> 'a word \<Rightarrow> 'a word \<Rightarrow> 'a word \<Rightarrow> 'a bytes" where
  "memmove_down m dst src i =
     (if i \<noteq> 0 then memmove_down (m(dst + (i - 1) := m (src + (i - 1)))) dst src (i - 1) else m)"
  by pat_completeness auto
termination
  by (relation "measure (\<lambda>(m, d, s, i). unat i)") (auto simp: measure_unat)

declare memmove_up.simps [simp del] memmove_down.simps [simp del]

definition memmove :: "'a::len bytes \<Rightarrow> 'a word \<Rightarrow> 'a word \<Rightarrow> 'a word \<Rightarrow> 'a bytes \<times> 'a word" where
  "memmove m dstptr srcptr sz =
     (if dstptr < srcptr then (memmove_up m dstptr srcptr 0 sz, dstptr)
      else (memmove_down m dstptr srcptr sz, dstptr))"

definition awd_memmove :: "32 bytes \<Rightarrow> u32 \<Rightarrow> u32 \<Rightarrow> u32 \<Rightarrow> 32 bytes \<times> u32" where
  "awd_memmove m dstptr srcptr sz = memmove m dstptr srcptr sz"

text \<open>The upward loop is \<open>memcpy\<close>'s loop with its two moving pointers written as indices.\<close>

lemma memmove_up_memcpy:
  "memmove_up m d s i n = memcpy_loop m (d + i) (s + i) i n"
proof (induction m d s i n rule: memmove_up.induct)
  case (1 m d s i n)
  show ?case
  proof (cases "i < n")
    case True
    then have "memmove_up m d s i n = memmove_up (m(d + i := m (s + i))) d s (i + 1) n"
      by (simp add: memmove_up.simps [of m d s i])
    also have "\<dots> = memcpy_loop (m(d + i := m (s + i))) (d + (i + 1)) (s + (i + 1)) (i + 1) n"
      using True by (rule "1.IH")
    finally show ?thesis
      using True by (simp add: memcpy_loop.simps [of m "d + i"] add.assoc)
  next
    case False
    then show ?thesis
      by (simp add: memmove_up.simps [of m d s i] memcpy_loop.simps [of m "d + i"])
  qed
qed

text \<open>
  A downward copy reads every source byte before it is overwritten, as long as the source does
  not start inside the destination.
\<close>

lemma memmove_down_apply:
  assumes "\<not> (in_range s d (unat i) \<and> d \<noteq> s)"
  shows "memmove_down m d s i x = (if in_range x d (unat i) then m (s + (x - d)) else m x)"
  using assms
proof (induction m d s i rule: memmove_down.induct)
  case (1 m d s i)
  show ?case
  proof (cases "i = 0")
    case True
    then show ?thesis by (simp add: memmove_down.simps [of m d s 0])
  next
    case False
    let ?j = "i - 1" and ?m = "m(d + (i - 1) := m (s + (i - 1)))"
    from False have len: "unat i = Suc (unat ?j)"
      using unat_gt_0 [of i] by (simp add: unat_minus_one)
    have pre: "\<not> (in_range s d (unat ?j) \<and> d \<noteq> s)"
      using "1.prems" len by (auto simp: in_range_def)
    have "memmove_down m d s i x = memmove_down ?m d s ?j x"
      using False by (simp add: memmove_down.simps [of m d s i])
    also have "\<dots> = (if in_range x d (unat ?j) then ?m (s + (x - d)) else ?m x)"
      using False pre by (rule "1.IH")
    finally have IH: "memmove_down m d s i x =
        (if in_range x d (unat ?j) then ?m (s + (x - d)) else ?m x)" .
    have "unat (x - d) = unat ?j \<longleftrightarrow> x = d + ?j"
      unfolding word_unat_eq_iff [symmetric] by (simp add: diff_eq_eq add.commute)
    then have split: "in_range x d (unat i) \<longleftrightarrow> x = d + ?j \<or> in_range x d (unat ?j)"
      by (auto simp: in_range_def len less_Suc_eq)
    have "s + (x - d) \<noteq> d + ?j \<or> d = s" if "in_range x d (unat ?j)"
    proof (rule ccontr)
      assume "\<not> ?thesis"
      then have eq: "s + (x - d) = d + ?j" and ne: "d \<noteq> s" by auto
      from eq have "s - d = ?j - (x - d)" by (simp add: algebra_simps)
      moreover have "unat (?j - (x - d)) \<le> unat ?j"
        using that by (simp add: in_range_def unat_sub_le)
      ultimately have "in_range s d (unat i)" unfolding in_range_def len by (metis le_imp_less_Suc)
      with "1.prems" ne show False by simp
    qed
    moreover have "\<not> in_range (d + ?j) d (unat ?j)" by (simp add: in_range_def)
    ultimately show ?thesis by (auto simp: IH split)
  qed
qed

text \<open>The two directions together: any overlap of two ranges that do not wrap is handled.\<close>

lemma memmove_apply:
  fixes d s :: "'a::len word"
  assumes "unat d + unat n \<le> 2 ^ LENGTH('a)" and "unat s + unat n \<le> 2 ^ LENGTH('a)"
  shows "fst (memmove m d s n) x = (if in_range x d (unat n) then m (s + (x - d)) else m x)"
proof (cases "d < s")
  case True
  then have "\<not> in_range d s (unat n)"
    using assms(2) by (auto simp: in_range_unat word_less_nat_alt)
  then show ?thesis
    using True by (simp add: memmove_def memmove_up_memcpy memcpy_loop_apply)
next
  case False
  then have "\<not> (in_range s d (unat n) \<and> d \<noteq> s)"
    using assms(1) by (auto simp: in_range_unat word_less_nat_alt word_unat_eq_iff)
  then show ?thesis
    using False by (simp add: memmove_def memmove_down_apply)
qed

section \<open>C strings: strlen and strcmp\<close>

text \<open>The bytes \<open>cs\<close>, none of them zero, stand at \<open>p\<close> and a zero byte follows them.\<close>

primrec c_string :: "'a::len bytes \<Rightarrow> 'a word \<Rightarrow> u8 list \<Rightarrow> bool" where
  "c_string m p [] \<longleftrightarrow> m p = 0"
| "c_string m p (c # cs) \<longleftrightarrow> m p = c \<and> c \<noteq> 0 \<and> c_string m (p + 1) cs"

partial_function (option) strlen_loop :: "'a::len bytes \<Rightarrow> 'a word \<Rightarrow> 'a word \<Rightarrow> 'a word option" where
  "strlen_loop m idx len =
     (if m idx \<noteq> 0 then strlen_loop m (idx + 1) (len + 1) else Some len)"

definition strlen :: "'a::len bytes \<Rightarrow> 'a word \<Rightarrow> 'a word option" where
  "strlen m str = strlen_loop m str 0"

definition awd_strlen :: "32 bytes \<Rightarrow> u32 \<Rightarrow> u32 option" where
  "awd_strlen m str = strlen m str"

lemma strlen_loop_c_string:
  "c_string m p cs \<Longrightarrow> strlen_loop m p n = Some (n + of_nat (length cs))"
  by (induction cs arbitrary: p n) (simp_all add: strlen_loop.simps algebra_simps)

lemma strlen_c_string: "c_string m p cs \<Longrightarrow> strlen m p = Some (of_nat (length cs))"
  by (simp add: strlen_def strlen_loop_c_string)

partial_function (option) strcmp :: "'a::len bytes \<Rightarrow> 'a word \<Rightarrow> 'a word \<Rightarrow> int option" where
  "strcmp m str1 str2 =
     (if m str1 \<noteq> 0 \<and> m str1 = m str2 then strcmp m (str1 + 1) (str2 + 1)
      else Some (uint (m str1) - uint (m str2)))"

definition awd_strcmp :: "32 bytes \<Rightarrow> u32 \<Rightarrow> u32 \<Rightarrow> int option" where
  "awd_strcmp m str1 str2 = strcmp m str1 str2"

text \<open>What \<open>strcmp\<close> returns on the contents of its arguments.\<close>

fun byte_difference :: "u8 list \<Rightarrow> u8 list \<Rightarrow> int" where
  "byte_difference [] [] = 0"
| "byte_difference [] (d # ds) = - uint d"
| "byte_difference (c # cs) [] = uint c"
| "byte_difference (c # cs) (d # ds) = (if c = d then byte_difference cs ds else uint c - uint d)"

lemma strcmp_c_string:
  "c_string m p cs \<Longrightarrow> c_string m q ds \<Longrightarrow> strcmp m p q = Some (byte_difference cs ds)"
proof (induction cs ds arbitrary: p q rule: byte_difference.induct)
  case (4 c cs d ds)
  then show ?case by (simp add: strcmp.simps [of m p])
qed (simp_all add: strcmp.simps)

lemma byte_difference_0:
  "0 \<notin> set cs \<Longrightarrow> 0 \<notin> set ds \<Longrightarrow> byte_difference cs ds = 0 \<longleftrightarrow> cs = ds"
  by (induction cs ds rule: byte_difference.induct) (auto simp: word_uint_eq_iff)

lemma byte_difference_neg:
  "0 \<notin> set cs \<Longrightarrow> 0 \<notin> set ds \<Longrightarrow>
     byte_difference cs ds < 0 \<longleftrightarrow> (cs, ds) \<in> lexord {(a, b). a < b}"
proof (induction cs ds rule: byte_difference.induct)
  case (2 d ds)
  then show ?case by (simp add: word_neq_0_conv [symmetric] uint_0_iff less_le)
next
  case (4 c cs d ds)
  then show ?case by (auto simp: word_less_def)
qed auto

lemma c_string_nonzero: "c_string m p cs \<Longrightarrow> 0 \<notin> set cs"
  by (induction cs arbitrary: p) auto

section \<open>Properties\<close>

text \<open>C13. \<open>memmove\<close> moves: whether the two ranges overlap or not and in whichever order they lie,
  the destination afterwards holds the bytes the source held before, and no other byte changes.
  The loader's copy does the same on its 32-bit addresses.\<close>

theorem memmove_moves:
  fixes d s n :: u64 and d' s' n' :: u32
  assumes "unat d + unat n \<le> 2 ^ 64" and "unat s + unat n \<le> 2 ^ 64"
    and "unat d' + unat n' \<le> 2 ^ 32" and "unat s' + unat n' \<le> 2 ^ 32"
  shows "(\<forall>x. fst (memmove m d s n) x = (if in_range x d (unat n) then m (s + (x - d)) else m x)) \<and>
    (\<forall>x. fst (awd_memmove m' d' s' n') x =
       (if in_range x d' (unat n') then m' (s' + (x - d')) else m' x))"
  using assms by (simp add: memmove_apply awd_memmove_def)

theorem memmove_moves_witness:
  "\<forall>m m'. fst (memmove m (0x1004 :: u64) 0x1000 8) 0x1009 = m 0x1005 \<and>
     fst (awd_memmove m' 0x1000 0x1004 8) 0x1001 = m' 0x1005"
  using memmove_moves [of "0x1004" 8 "0x1000" "0x1000" 8 "0x1004"]
  by (simp add: in_range_def)

text \<open>C14. \<open>strlen\<close> and \<open>strcmp\<close> return on any terminated strings, \<open>strlen\<close> the length; the result of
  \<open>strcmp\<close> is zero exactly for equal strings and negative exactly when the first comes before the
  second in the order of unsigned bytes.\<close>

theorem strcmp_orders:
  fixes p q :: u64
  assumes "c_string m p cs" and "c_string m q ds"
  shows "strlen m p = Some (of_nat (length cs)) \<and>
    (\<exists>r. strcmp m p q = Some r \<and> (r = 0 \<longleftrightarrow> cs = ds) \<and>
       (r < 0 \<longleftrightarrow> (cs, ds) \<in> lexord {(a, b). a < b}))"
  using strlen_c_string [OF assms(1)] strcmp_c_string [OF assms] c_string_nonzero [OF assms(1)]
    c_string_nonzero [OF assms(2)] byte_difference_0 [of cs ds] byte_difference_neg [of cs ds]
  by simp

theorem strcmp_orders_witness:
  "strlen (\<lambda>x :: u64. if x = 0x10 then 0x61 else if x = 0x20 then 0xE9 else 0) 0x10 = Some 1"
  using strcmp_orders [of "\<lambda>x. if x = 0x10 then 0x61 else if x = 0x20 then 0xE9 else 0" "0x10" "[0x61]"
      "0x20" "[0xE9]", THEN conjunct1] by simp

end
