(* ===== verification/Kernel_Base.thy ===== *)
theory Kernel_Base
  imports Libc_String
begin

text \<open>
  What the components of the Lobo kernel have in common: the ways a kernel routine stops
  (\<open>panic\<close>, a failed \<open>assert\<close> of the DEBUG build, a processor exception, code that is not mapped, a loop
  that never ends),
  the calls to the kernel log, which are kept as a trace, and the address arithmetic of
  src/lobo/include/kernel/kernel.h.  \<open>panic\<close> halts the processor with interrupts disabled, so
  nothing runs after it: a routine that panics returns \<open>Inl\<close>.
\<close>

section \<open>How a routine stops\<close>

datatype kpanic =
    Panic string
  | Assertion_failed
  | Divide_error
  | Out_of_bounds
  | Null_dereference
  | Unmapped_fetch
  | Diverges

text \<open>
  The macro \<open>assert\<close> of include/assert.h with DEBUG defined, as src/lobo/Makefile defines it:
  \<open>_assert\<close> logs the expression and calls \<open>panic("Assertion failed")\<close>.
\<close>

definition assert :: "bool \<Rightarrow> kpanic + unit" where
  "assert cond = guard Assertion_failed cond"

lemma assert_simps [simp]:
  "assert c = Inr u \<longleftrightarrow> c"
  "assert c = Inl e \<longleftrightarrow> \<not> c \<and> e = Assertion_failed"
  "assert True = Inr ()"
  "assert False = Inl Assertion_failed"
  by (auto simp: assert_def)

section \<open>Calls to the kernel log\<close>

text \<open>
  An argument of a format: an integer or pointer takes one 64-bit slot of the argument list, a
  string is given by its characters.
\<close>

datatype varg = IntArg u64 | StrArg string

datatype log_call =
    Log string string "varg list"
  | LogRaw string "varg list"
  | WriteChar char

section \<open>Addresses\<close>

text \<open>The linker symbols of src/lobo/arch/x86_64/link.ld.\<close>

definition KERNEL_VMB :: u64 where "KERNEL_VMB = 0xffffffff80000000"
definition KERNEL_VMA :: u64 where "KERNEL_VMA = KERNEL_VMB + 0x200000"

definition MEM_VIRT_TO_PHYS :: "u64 \<Rightarrow> u64" where
  "MEM_VIRT_TO_PHYS a = a - KERNEL_VMB"

definition MEM_PHYS_TO_VIRT :: "u64 \<Rightarrow> u64" where
  "MEM_PHYS_TO_VIRT a = a + KERNEL_VMB"

lemma virt_phys_inverse [simp]:
  "MEM_PHYS_TO_VIRT (MEM_VIRT_TO_PHYS a) = a"
  "MEM_VIRT_TO_PHYS (MEM_PHYS_TO_VIRT a) = a"
  by (simp_all add: MEM_PHYS_TO_VIRT_def MEM_VIRT_TO_PHYS_def)

definition PAGE_SIZE :: u64 where "PAGE_SIZE = 0x1000"
definition THREAD_STACK_SIZE :: u64 where "THREAD_STACK_SIZE = 4 * PAGE_SIZE"

definition page_aligned :: "u64 \<Rightarrow> bool" where
  "page_aligned a \<longleftrightarrow> a mod 0x1000 = 0"

end
