(* ===== verification/Libc_Printf.thy ===== *)
theory Libc_Printf
  imports Libc_Stdlib Kernel_Base
begin

text \<open>
  Formatted output: src/libc/stdio/vprintf.c and printf.c for the kernel and
  src/awd/console/printf.c for the loader.  The two sources differ in how an argument list is laid
  out and in the conversion they call for \<open>%p\<close>, so the scanner is written once over those
  operations.  The format is the characters from its start, the terminator and whatever follows;
  running past the end of what is known is an error, as is an argument of another kind than the
  directive takes.  The output is the characters handed to \<open>vprintf_print_helper\<close> and
  \<open>vprintf_print_helper_string\<close>, in order.
\<close>

datatype printf_error = Format_overrun | Bad_argument | Width_overflow | Conversion_failed itoa_error

section \<open>What the scanner uses\<close>

record ('a, 'b) printf_ops =
  va_int :: "'a list \<Rightarrow> printf_error + (u32 \<times> 'a list)"
  va_u64 :: "'a list \<Rightarrow> printf_error + (u64 \<times> 'a list)"
  va_str :: "'a list \<Rightarrow> printf_error + (string \<times> 'a list)"
  conv_int :: "'b \<Rightarrow> u32 \<Rightarrow> u32 \<Rightarrow> printf_error + ('b \<times> string)"
  conv_u64 :: "'b \<Rightarrow> u64 \<Rightarrow> u32 \<Rightarrow> printf_error + ('b \<times> string)"

text \<open>The state of a call: the arguments not yet taken, the static conversion buffers, the output.\<close>

record ('a, 'b) printf_state =
  args :: "'a list"
  bufs :: 'b
  out :: string

definition emit :: "('a, 'b) printf_state \<Rightarrow> string \<Rightarrow> ('a, 'b) printf_state" where
  "emit st s = st\<lparr>out := out st @ s\<rparr>"

section \<open>The scanner\<close>

text \<open>\<open>length - strlen(arg)\<close> is computed in the type of \<open>strlen\<close> and stored in an \<open>int\<close>.\<close>

definition padding :: "int \<Rightarrow> string \<Rightarrow> bool \<Rightarrow> string" where
  "padding len arg fmt_length_zeropad =
     (if len \<noteq> 0
      then replicate (nat (sint (word_of_int (len - int (length arg)) :: u32)))
             (if fmt_length_zeropad then CHR ''0'' else CHR '' '')
      else [])"

definition is_digit :: "char \<Rightarrow> bool" where
  "is_digit c \<longleftrightarrow> char_int (CHR ''0'') \<le> char_int c \<and> char_int c \<le> char_int (CHR ''9'')"

fun read_length :: "string \<Rightarrow> nat \<Rightarrow> string \<Rightarrow> printf_error + (string \<times> string)" where
  "read_length [] buff_index buffer = Inl Format_overrun"
| "read_length (c # fmt) buff_index buffer =
     (if is_digit c \<and> buff_index < 7 then read_length fmt (buff_index + 1) (buffer[buff_index := c])
      else Inr (buffer, c # fmt))"

definition scan_minus :: "string \<Rightarrow> printf_error + (bool \<times> string)" where
  "scan_minus fmt = (case fmt of
     [] \<Rightarrow> Inl Format_overrun
   | c # rest \<Rightarrow> Inr (if c = CHR ''-'' then (True, rest) else (False, fmt)))"

definition scan_length :: "string \<Rightarrow> printf_error + (int \<times> bool \<times> string)" where
  "scan_length fmt = (case fmt of
     [] \<Rightarrow> Inl Format_overrun
   | c # _ \<Rightarrow>
       if is_digit c
       then bind_r (read_length fmt 0 (replicate 8 NUL)) (\<lambda>(buffer, fmt).
         case atoi buffer of None \<Rightarrow> Inl Width_overflow | Some n \<Rightarrow> Inr (n, c = CHR ''0'', fmt))
       else Inr (0, False, fmt))"

definition put_field :: "('a, 'b) printf_state \<Rightarrow> bool \<Rightarrow> int \<Rightarrow> string \<Rightarrow> bool \<Rightarrow> ('a, 'b) printf_state" where
  "put_field st fmt_left_justify fmt_length arg zeropad =
     (if fmt_left_justify then emit (emit st arg) (padding fmt_length arg zeropad)
      else emit (emit st (padding fmt_length arg zeropad)) arg)"

text \<open>\<open>switch (fmt_specifier)\<close>.\<close>

definition specifier :: "('a, 'b) printf_ops \<Rightarrow> ('a, 'b) printf_state \<Rightarrow> bool \<Rightarrow> int \<Rightarrow> bool \<Rightarrow> char
    \<Rightarrow> printf_error + ('a, 'b) printf_state" where
  "specifier ops st left fmt_length zeropad c =
     (if c = CHR ''%'' then Inr (emit st [CHR ''%''])
      else if c = CHR ''s'' then
        bind_r (va_str ops (args st)) (\<lambda>(arg_str, rest).
        Inr (put_field (st\<lparr>args := rest\<rparr>) left fmt_length arg_str False))
      else if c = CHR ''c'' then
        bind_r (va_int ops (args st)) (\<lambda>(arg_int, rest).
        Inr (emit (st\<lparr>args := rest\<rparr>) [char_of (unat arg_int)]))
      else if c = CHR ''i'' \<or> c = CHR ''d'' then
        bind_r (va_int ops (args st)) (\<lambda>(arg_int, rest).
        bind_r (conv_int ops (bufs st) arg_int 10) (\<lambda>(b, arg_str).
        Inr (put_field (st\<lparr>args := rest, bufs := b\<rparr>) left fmt_length arg_str False)))
      else if c = CHR ''x'' then
        bind_r (va_int ops (args st)) (\<lambda>(arg_int, rest).
        bind_r (conv_int ops (bufs st) arg_int 16) (\<lambda>(b, arg_str).
        Inr (put_field (st\<lparr>args := rest, bufs := b\<rparr>) left fmt_length arg_str zeropad)))
      else if c = CHR ''p'' then
        bind_r (va_u64 ops (args st)) (\<lambda>(arg_int64, rest).
        bind_r (conv_u64 ops (bufs st) arg_int64 16) (\<lambda>(b, arg_str).
        Inr (put_field (st\<lparr>args := rest, bufs := b\<rparr>) left fmt_length arg_str zeropad)))
      else Inr (emit st [c]))"

text \<open>One directive, from the character after the percent sign; the rest is what follows its specifier.\<close>

definition directive :: "('a, 'b) printf_ops \<Rightarrow> string \<Rightarrow> ('a, 'b) printf_state
    \<Rightarrow> printf_error + (string \<times> ('a, 'b) printf_state)" where
  "directive ops fmt st =
     bind_r (scan_minus fmt) (\<lambda>(fmt_left_justify, fmt).
     bind_r (scan_length fmt) (\<lambda>(fmt_length, fmt_length_zeropad, fmt).
     case fmt of
       [] \<Rightarrow> Inl Format_overrun
     | c # rest \<Rightarrow>
         bind_r (specifier ops st fmt_left_justify fmt_length (if fmt_left_justify then False else fmt_length_zeropad) c)
           (\<lambda>st. Inr (rest, st))))"

lemma read_length_shorter: "read_length fmt k b = Inr (b', fmt') \<Longrightarrow> length fmt' \<le> length fmt"
  by (induction fmt k b rule: read_length.induct) (auto split: if_splits)

lemma scan_minus_shorter: "scan_minus fmt = Inr (l, fmt') \<Longrightarrow> length fmt' \<le> length fmt"
  by (auto simp: scan_minus_def split: list.splits if_splits)

lemma scan_length_shorter: "scan_length fmt = Inr (n, z, fmt') \<Longrightarrow> length fmt' \<le> length fmt"
  by (cases fmt) (auto simp: scan_length_def bind_r_eq_Inr split: if_splits option.splits dest!: read_length_shorter)

lemma directive_shorter:
  assumes "directive ops fmt st = Inr (fmt', st')"
  shows "length fmt' \<le> length fmt"
proof -
  from assms obtain l fmt1 n z fmt2 where "scan_minus fmt = Inr (l, fmt1)" "scan_length fmt1 = Inr (n, z, fmt2)"
    and s: "(case fmt2 of [] \<Rightarrow> Inl Format_overrun | c # rest \<Rightarrow>
       bind_r (specifier ops st l n (if l then False else z) c) (\<lambda>st. Inr (rest, st))) = Inr (fmt', st')"
    by (auto simp: directive_def bind_r_eq_Inr simp del: split_paired_Ex)
  then have "length fmt2 \<le> length fmt" using scan_minus_shorter scan_length_shorter by fastforce
  with s show ?thesis by (cases fmt2) (auto simp: bind_r_eq_Inr)
qed

function vprintf_loop :: "('a, 'b) printf_ops \<Rightarrow> string \<Rightarrow> ('a, 'b) printf_state \<Rightarrow> printf_error + ('a, 'b) printf_state" where
  "vprintf_loop ops [] st = Inl Format_overrun"
| "vprintf_loop ops (c # fmt) st =
     (if c = NUL then Inr st
      else if c \<noteq> CHR ''%'' then vprintf_loop ops fmt (emit st [c])
      else bind_r (directive ops fmt st) (\<lambda>(fmt, st). vprintf_loop ops fmt st))"
  by pat_completeness auto
termination
  by (relation "measure (\<lambda>(ops, fmt, st). length fmt)")
    (auto dest: directive_shorter simp: less_Suc_eq_le)

section \<open>The two instances\<close>

text \<open>The kernel passes each argument in a 64-bit slot, and \<open>int\<close> arguments are its low half.\<close>

definition of_itoa :: "itoa_error + (char list \<times> nat) \<Rightarrow> printf_error + (char list \<times> string)" where
  "of_itoa r = (case r of Inl e \<Rightarrow> Inl (Conversion_failed e) | Inr (buf, i) \<Rightarrow> Inr (buf, c_str buf i))"

definition kernel_ops :: "(varg, char list) printf_ops" where
  "kernel_ops = \<lparr>
     va_int = (\<lambda>as. case as of IntArg v # as \<Rightarrow> Inr (ucast v, as) | _ \<Rightarrow> Inl Bad_argument),
     va_u64 = (\<lambda>as. case as of IntArg v # as \<Rightarrow> Inr (v, as) | _ \<Rightarrow> Inl Bad_argument),
     va_str = (\<lambda>as. case as of StrArg s # as \<Rightarrow> Inr (s, as) | _ \<Rightarrow> Inl Bad_argument),
     conv_int = (\<lambda>buf n base. of_itoa (itoa buf (ucast n) base)),
     conv_u64 = (\<lambda>buf n base. of_itoa (itoa buf n base))\<rparr>"

definition vprintf :: "char list \<Rightarrow> string \<Rightarrow> varg list \<Rightarrow> printf_error + (varg, char list) printf_state" where
  "vprintf buffer fmt arg = vprintf_loop kernel_ops fmt \<lparr>args = arg, bufs = buffer, out = []\<rparr>"

definition printf :: "char list \<Rightarrow> string \<Rightarrow> varg list \<Rightarrow> printf_error + (varg, char list) printf_state" where
  "printf buffer fmt arg = vprintf buffer fmt arg"

text \<open>The loader passes its arguments in 32-bit slots; a 64-bit argument takes two, the low half first.\<close>

datatype awd_arg = Slot u32 | StrSlot string

definition awd_ops :: "(awd_arg, char list \<times> char list) printf_ops" where
  "awd_ops = \<lparr>
     va_int = (\<lambda>as. case as of Slot v # as \<Rightarrow> Inr (v, as) | _ \<Rightarrow> Inl Bad_argument),
     va_u64 = (\<lambda>as. case as of Slot lo # Slot hi # as \<Rightarrow> Inr (push_bit 32 (ucast hi) OR ucast lo, as) | _ \<Rightarrow> Inl Bad_argument),
     va_str = (\<lambda>as. case as of StrSlot s # as \<Rightarrow> Inr (s, as) | _ \<Rightarrow> Inl Bad_argument),
     conv_int = (\<lambda>b n base. bind_r (of_itoa (awd_itoa (fst b) n base)) (\<lambda>(buf, s). Inr ((buf, snd b), s))),
     conv_u64 = (\<lambda>b n base. bind_r (of_itoa (awd_itoa64 (snd b) n base)) (\<lambda>(buf, s). Inr ((fst b, buf), s)))\<rparr>"

definition awd_vprintf :: "char list \<times> char list \<Rightarrow> string \<Rightarrow> awd_arg list
    \<Rightarrow> printf_error + (awd_arg, char list \<times> char list) printf_state" where
  "awd_vprintf buffers fmt arg = vprintf_loop awd_ops fmt \<lparr>args = arg, bufs = buffers, out = []\<rparr>"

definition awd_printf :: "char list \<times> char list \<Rightarrow> string \<Rightarrow> awd_arg list
    \<Rightarrow> printf_error + (awd_arg, char list \<times> char list) printf_state" where
  "awd_printf buffers fmt arg = awd_vprintf buffers fmt arg"

section \<open>The meaning of a format\<close>

text \<open>A format as a list of items, the format string that writes them, the arguments they take and the
  text they stand for.\<close>

datatype item =
    Lit char
  | Percent
  | Str bool nat string
  | Chr u64
  | Dec bool nat u64
  | Hex bool bool nat u64
  | Ptr bool bool nat u64

definition width_format :: "bool \<Rightarrow> bool \<Rightarrow> nat \<Rightarrow> string" where
  "width_format left zero w = (if left then ''-'' else []) @ (if zero then ''0'' else []) @
     (if w = 0 then [] else numeral_string 10 w)"

primrec item_format :: "item \<Rightarrow> string" where
  "item_format (Lit c) = [c]"
| "item_format Percent = ''%%''"
| "item_format (Str left w s) = ''%'' @ width_format left False w @ ''s''"
| "item_format (Chr v) = ''%c''"
| "item_format (Dec left w v) = ''%'' @ width_format left False w @ ''d''"
| "item_format (Hex left zero w v) = ''%'' @ width_format left zero w @ ''x''"
| "item_format (Ptr left zero w v) = ''%'' @ width_format left zero w @ ''p''"

definition in_field :: "bool \<Rightarrow> char \<Rightarrow> nat \<Rightarrow> string \<Rightarrow> string" where
  "in_field left c w s = (if left then s @ replicate (w - length s) CHR '' '' else replicate (w - length s) c @ s)"

primrec item_text :: "item \<Rightarrow> string" where
  "item_text (Lit c) = [c]"
| "item_text Percent = ''%''"
| "item_text (Str left w s) = in_field left CHR '' '' w s"
| "item_text (Chr v) = [char_of (unat v)]"
| "item_text (Dec left w v) = in_field left CHR '' '' w (numeral_string 10 (unat v mod 2 ^ 32))"
| "item_text (Hex left zero w v) =
     in_field left (if zero then CHR ''0'' else CHR '' '') w (numeral_string 16 (unat v mod 2 ^ 32))"
| "item_text (Ptr left zero w v) =
     in_field left (if zero then CHR ''0'' else CHR '' '') w (numeral_string 16 (unat v))"

text \<open>Widths of at most six digits, so that one more for the zero flag still fits the buffer.\<close>

primrec item_ok :: "item \<Rightarrow> bool" where
  "item_ok (Lit c) \<longleftrightarrow> c \<noteq> NUL \<and> c \<noteq> CHR ''%''"
| "item_ok Percent \<longleftrightarrow> True"
| "item_ok (Str left w s) \<longleftrightarrow> w < 10 ^ 6 \<and> length s < 2 ^ 31"
| "item_ok (Chr v) \<longleftrightarrow> True"
| "item_ok (Dec left w v) \<longleftrightarrow> w < 10 ^ 6"
| "item_ok (Hex left zero w v) \<longleftrightarrow> w < 10 ^ 6"
| "item_ok (Ptr left zero w v) \<longleftrightarrow> w < 10 ^ 6"

definition items_format :: "item list \<Rightarrow> string" where "items_format its = concat (map item_format its)"
definition items_text :: "item list \<Rightarrow> string" where "items_text its = concat (map item_text its)"

section \<open>Fields\<close>

lemma is_digit_lut: "d < 10 \<Longrightarrow> is_digit (lut ! d)"
  by (simp add: lut_def is_digit_def char_int_def less_Suc_eq numeral_eq_Suc) auto

lemma not_digit [simp]:
  "\<not> is_digit CHR ''s''" "\<not> is_digit CHR ''d''" "\<not> is_digit CHR ''x''" "\<not> is_digit CHR ''p''"
  by (simp_all add: is_digit_def char_int_def)

lemma padding_width:
  assumes "w < 10 ^ 6" and "length s < 2 ^ 31"
  shows "padding (int w) s z = replicate (w - length s) (if z then CHR ''0'' else CHR '' '')"
proof -
  have "sint (word_of_int (int w - int (length s)) :: u32) = int w - int (length s)"
    using assms by (subst signed_of_int) (simp add: signed_take_bit_int_eq_self)
  then show ?thesis by (auto simp: padding_def nat_diff_distrib')
qed

lemma put_field_text:
  assumes "w < 10 ^ 6" and "length s < 2 ^ 31"
  shows "put_field st left (int w) s (if left then False else z) =
    emit st (in_field left (if z then CHR ''0'' else CHR '' '') w s)"
  using assms by (auto simp: put_field_def emit_def in_field_def padding_width)

text \<open>A width that is written with the zero flag or without is read back.\<close>

lemma read_length_digits:
  assumes "\<forall>c \<in> set ds. is_digit c" and "\<not> is_digit c" and "length pre + length ds \<le> 7"
  shows "read_length (ds @ c # rest) (length pre) (pre @ replicate (8 - length pre) NUL) =
    Inr (pre @ ds @ replicate (8 - length pre - length ds) NUL, c # rest)"
  using assms
proof (induction ds arbitrary: pre)
  case (Cons d ds)
  have "8 - length pre = Suc (8 - length (pre @ [d]))" using Cons.prems(3) by simp
  then have "(pre @ replicate (8 - length pre) NUL)[length pre := d] = (pre @ [d]) @ replicate (8 - length (pre @ [d])) NUL"
    by (simp only: replicate_Suc list_update_length append_assoc append_Cons append_Nil)
  with Cons.IH [of "pre @ [d]"] Cons.prems show ?case by simp
qed simp

definition width_digits :: "bool \<Rightarrow> nat \<Rightarrow> nat list" where
  "width_digits zero w = (if zero then [0] else []) @ (if w = 0 then [] else digits 10 w)"

lemma digits_hd: "0 < n \<Longrightarrow> 2 \<le> b \<Longrightarrow> hd (digits b n) \<noteq> 0"
proof (induction b n rule: digits.induct)
  case (1 b n)
  show ?case
  proof (cases "n < b")
    case False
    then have "0 < n div b" using "1.prems" by (simp add: div_greater_zero_iff)
    then show ?thesis using 1 False by (subst digits.simps) (simp add: hd_append)
  qed (use "1.prems" in \<open>simp add: digits.simps [of b n]\<close>)
qed

lemma width_digits:
  assumes "w < 10 ^ 6"
  shows "\<forall>d \<in> set (width_digits zero w). d < 10" "length (width_digits zero w) \<le> 7"
    "foldl (\<lambda>v d. v * 10 + d) 0 (width_digits zero w) = w"
    "width_digits zero w \<noteq> [] \<Longrightarrow> hd (width_digits zero w) = 0 \<longleftrightarrow> zero"
    "width_digits zero w = [] \<longleftrightarrow> \<not> zero \<and> w = 0"
proof -
  show "\<forall>d \<in> set (width_digits zero w). d < 10" using digits_less [of 10 _ w] by (auto simp: width_digits_def)
  have "length (digits 10 w) \<le> Suc 5" using assms by (intro digits_length) simp_all
  then show "length (width_digits zero w) \<le> 7" by (simp add: width_digits_def)
  show "foldl (\<lambda>v d. v * 10 + d) 0 (width_digits zero w) = w"
    using digits_value [of 10 w] by (simp add: width_digits_def digit_value_def)
  show "hd (width_digits zero w) = 0 \<longleftrightarrow> zero" if "width_digits zero w \<noteq> []"
    using digits_hd [of w 10] that by (auto simp: width_digits_def split: if_splits)
  show "width_digits zero w = [] \<longleftrightarrow> \<not> zero \<and> w = 0" by (simp add: width_digits_def)
qed

lemma scan_width:
  assumes "w < 10 ^ 6" and "\<not> is_digit c"
  shows "scan_length (map (\<lambda>d. lut ! d) (width_digits zero w) @ c # rest) = Inr (int w, zero, c # rest)"
proof (cases "width_digits zero w")
  case Nil
  then have "\<not> zero" and "w = 0" using width_digits(5) [OF assms(1)] by auto
  then show ?thesis unfolding Nil using assms(2) by (simp add: scan_length_def)
next
  case (Cons d ds)
  let ?s = "map (\<lambda>d. lut ! d) (width_digits zero w)"
  note wd = width_digits [OF assms(1), of zero]
  have dig: "\<forall>c \<in> set ?s. is_digit c" using wd(1) by (auto intro: is_digit_lut)
  have len: "length ?s \<le> 7" using wd(2) by simp
  have read: "read_length (?s @ c # rest) 0 (replicate 8 NUL) = Inr (?s @ replicate (8 - length ?s) NUL, c # rest)"
    using read_length_digits [of ?s c "[]" rest] dig assms(2) len by simp
  have "8 - length ?s = Suc (7 - length ?s)" using len by simp
  then have "atoi (?s @ replicate (8 - length ?s) NUL) = Some (int w)"
    using atoi_loop_digits [OF wd(1), of 0 "replicate (7 - length ?s) NUL"] wd(3) assms(1)
    by (simp add: atoi_def)
  moreover have "lut ! d = CHR ''0'' \<longleftrightarrow> zero"
  proof -
    have "d < 10" "d = 0 \<longleftrightarrow> zero" using wd(1,4) Cons by auto
    then show ?thesis by (auto simp: lut_def less_Suc_eq numeral_eq_Suc)
  qed
  moreover have "is_digit (lut ! d)" using dig Cons by simp
  ultimately show ?thesis
    using read by (simp add: scan_length_def Cons)
qed

section \<open>The scanner implements the meaning\<close>

text \<open>What the scanner needs of the argument layout and of the conversions: an argument that was
  passed is the one that is taken, and a conversion returns the digits of its number.\<close>

locale formatter =
  fixes ops :: "('a, 'b) printf_ops"
    and pass_int :: "u64 \<Rightarrow> 'a list" and pass_u64 :: "u64 \<Rightarrow> 'a list" and pass_str :: "string \<Rightarrow> 'a list"
    and bufs_ok :: "'b \<Rightarrow> bool"
  assumes va_int: "va_int ops (pass_int v @ as) = Inr (ucast v, as)"
    and va_u64: "va_u64 ops (pass_u64 v @ as) = Inr (v, as)"
    and va_str: "va_str ops (pass_str s @ as) = Inr (s, as)"
    and conv_int: "bufs_ok b \<Longrightarrow> base = 10 \<or> base = 16 \<Longrightarrow>
      \<exists>b'. conv_int ops b n base = Inr (b', numeral_string (unat base) (unat n)) \<and> bufs_ok b'"
    and conv_u64: "bufs_ok b \<Longrightarrow> base = 10 \<or> base = 16 \<Longrightarrow>
      \<exists>b'. conv_u64 ops b m base = Inr (b', numeral_string (unat base) (unat m)) \<and> bufs_ok b'"
begin

primrec item_args :: "item \<Rightarrow> 'a list" where
  "item_args (Lit c) = []"
| "item_args Percent = []"
| "item_args (Str left w s) = pass_str s"
| "item_args (Chr v) = pass_int v"
| "item_args (Dec left w v) = pass_int v"
| "item_args (Hex left zero w v) = pass_int v"
| "item_args (Ptr left zero w v) = pass_u64 v"

lemma numeral_short: "n < 2 ^ 64 \<Longrightarrow> b = 10 \<or> b = 16 \<Longrightarrow> length (numeral_string b n) < 2 ^ 31"
proof -
  assume n: "n < 2 ^ 64" and b: "b = 10 \<or> b = 16"
  have "n < b ^ Suc 19" using n b by auto
  then have "length (digits b n) \<le> Suc 19" using b by (intro digits_length) auto
  then show ?thesis by (simp add: numeral_string_def)
qed

lemma scan_prefix:
  assumes "w < 10 ^ 6" and "\<not> is_digit c" and "c \<noteq> CHR ''-''"
  shows "directive ops (width_format left zero w @ c # rest) st =
    bind_r (specifier ops st left (int w) (if left then False else zero) c) (\<lambda>st. Inr (rest, st))"
proof -
  have w: "width_format left zero w = (if left then ''-'' else []) @ map (\<lambda>d. lut ! d) (width_digits zero w)"
    by (simp add: width_format_def width_digits_def numeral_string_def lut_def)
  have "scan_minus (width_format left zero w @ c # rest) = Inr (left, map (\<lambda>d. lut ! d) (width_digits zero w) @ c # rest)"
  proof (cases "width_digits zero w")
    case (Cons d ds)
    then have "d < 10" using width_digits(1) [OF assms(1), of zero] by simp
    then have "lut ! d \<noteq> CHR ''-''" using is_digit_lut [of d] by (auto simp: is_digit_def char_int_def)
    then show ?thesis by (simp add: w scan_minus_def Cons)
  qed (use assms(3) in \<open>simp add: w scan_minus_def\<close>)
  then show ?thesis using scan_width [OF assms(1,2)] by (simp add: directive_def)
qed

lemma loop_directive:
  assumes "w < 10 ^ 6" and "\<not> is_digit c" and "c \<noteq> CHR ''-''"
  shows "vprintf_loop ops (CHR ''%'' # width_format left zero w @ c # rest) st =
    bind_r (specifier ops st left (int w) (if left then False else zero) c) (vprintf_loop ops rest)"
  by (simp add: scan_prefix [OF assms] bind_r_assoc)

lemma specifier_texts:
  assumes "bufs_ok (bufs st)" and "w < 10 ^ 6"
  shows "args st = pass_str s @ as \<Longrightarrow> length s < 2 ^ 31 \<Longrightarrow>
      specifier ops st left (int w) z CHR ''s'' = Inr (emit (st\<lparr>args := as\<rparr>) (in_field left CHR '' '' w s))"
    and "args st = pass_int v @ as \<Longrightarrow> \<exists>b. bufs_ok b \<and> specifier ops st left (int w) z CHR ''d'' =
      Inr (emit (st\<lparr>args := as, bufs := b\<rparr>) (in_field left CHR '' '' w (numeral_string 10 (unat v mod 2 ^ 32))))"
    and "args st = pass_int v @ as \<Longrightarrow> \<exists>b. bufs_ok b \<and>
      specifier ops st left (int w) (if left then False else zero) CHR ''x'' = Inr (emit (st\<lparr>args := as, bufs := b\<rparr>)
        (in_field left (if zero then CHR ''0'' else CHR '' '') w (numeral_string 16 (unat v mod 2 ^ 32))))"
    and "args st = pass_u64 v @ as \<Longrightarrow> \<exists>b. bufs_ok b \<and>
      specifier ops st left (int w) (if left then False else zero) CHR ''p'' = Inr (emit (st\<lparr>args := as, bufs := b\<rparr>)
        (in_field left (if zero then CHR ''0'' else CHR '' '') w (numeral_string 16 (unat v))))"
proof -
  note field = put_field_text [OF assms(2)] put_field_text [OF assms(2), where z = False, simplified]
  have low: "unat (ucast v :: u32) = unat v mod 2 ^ 32" by (simp add: unat_ucast_mod)
  have "unat v < 2 ^ 64" using unat_lt_power [of v] by simp
  then have short: "length (numeral_string b (unat v)) < 2 ^ 31" "length (numeral_string b (unat v mod 2 ^ 32)) < 2 ^ 31"
    if "b = 10 \<or> b = 16" for b using numeral_short [OF _ that] by simp_all
  show "args st = pass_str s @ as \<Longrightarrow> length s < 2 ^ 31 \<Longrightarrow>
      specifier ops st left (int w) z CHR ''s'' = Inr (emit (st\<lparr>args := as\<rparr>) (in_field left CHR '' '' w s))"
    by (simp add: field(2) specifier_def va_str)
  show "\<exists>b. bufs_ok b \<and> specifier ops st left (int w) z CHR ''d'' =
      Inr (emit (st\<lparr>args := as, bufs := b\<rparr>) (in_field left CHR '' '' w (numeral_string 10 (unat v mod 2 ^ 32))))"
    if "args st = pass_int v @ as"
    using conv_int [OF assms(1), of 10 "ucast v"] that short(2) [of 10] low
    by (auto simp: specifier_def va_int field(2))
  let ?z = "if left then False else zero" and ?c = "if zero then CHR ''0'' else CHR '' ''"
  show "\<exists>b. bufs_ok b \<and> specifier ops st left (int w) ?z CHR ''x'' = Inr (emit (st\<lparr>args := as, bufs := b\<rparr>)
      (in_field left ?c w (numeral_string 16 (unat v mod 2 ^ 32))))"
    if "args st = pass_int v @ as"
  proof -
    obtain b where c: "conv_int ops (bufs st) (ucast v) 16 = Inr (b, numeral_string 16 (unat v mod 2 ^ 32))" "bufs_ok b"
      using conv_int [OF assms(1), of 16 "ucast v"] low by auto
    have "specifier ops st left (int w) ?z CHR ''x'' =
        Inr (put_field (st\<lparr>args := as, bufs := b\<rparr>) left (int w) (numeral_string 16 (unat v mod 2 ^ 32)) ?z)"
      using c that by (simp add: specifier_def va_int)
    then show ?thesis unfolding field(1) [OF short(2) [OF disjI2 [OF refl]]] using c(2) by blast
  qed
  show "\<exists>b. bufs_ok b \<and> specifier ops st left (int w) ?z CHR ''p'' = Inr (emit (st\<lparr>args := as, bufs := b\<rparr>)
      (in_field left ?c w (numeral_string 16 (unat v))))"
    if "args st = pass_u64 v @ as"
  proof -
    obtain b where c: "conv_u64 ops (bufs st) v 16 = Inr (b, numeral_string 16 (unat v))" "bufs_ok b"
      using conv_u64 [OF assms(1), of 16 v] by auto
    have "specifier ops st left (int w) ?z CHR ''p'' =
        Inr (put_field (st\<lparr>args := as, bufs := b\<rparr>) left (int w) (numeral_string 16 (unat v)) ?z)"
      using c that by (simp add: specifier_def va_u64)
    then show ?thesis unfolding field(1) [OF short(1) [OF disjI2 [OF refl]]] using c(2) by blast
  qed
qed

lemma loop_item:
  assumes "item_ok it" and "bufs_ok (bufs st)" and "args st = item_args it @ as"
  shows "\<exists>b. vprintf_loop ops (item_format it @ rest) st =
    vprintf_loop ops rest (st\<lparr>args := as, bufs := b, out := out st @ item_text it\<rparr>) \<and> bufs_ok b"
proof (cases it)
  case (Str left w s)
  then show ?thesis
    using assms specifier_texts(1) [OF assms(2), of w s as left False]
    by (intro exI [of _ "bufs st"]) (simp add: loop_directive emit_def del: vprintf_loop.simps)
next
  case (Dec left w v)
  then obtain b where "bufs_ok b" "specifier ops st left (int w) (if left then False else False) CHR ''d'' =
      Inr (emit (st\<lparr>args := as, bufs := b\<rparr>) (in_field left CHR '' '' w (numeral_string 10 (unat v mod 2 ^ 32))))"
    using assms specifier_texts(2) [OF assms(2), of w v as] by fastforce
  then show ?thesis
    using Dec assms by (intro exI [of _ b]) (simp add: loop_directive emit_def del: vprintf_loop.simps)
next
  case (Hex left zero w v)
  then obtain b where "bufs_ok b" "specifier ops st left (int w) (if left then False else zero) CHR ''x'' =
      Inr (emit (st\<lparr>args := as, bufs := b\<rparr>)
        (in_field left (if zero then CHR ''0'' else CHR '' '') w (numeral_string 16 (unat v mod 2 ^ 32))))"
    using assms specifier_texts(3) [OF assms(2), of w v as] by fastforce
  then show ?thesis
    using Hex assms by (intro exI [of _ b]) (simp add: loop_directive emit_def del: vprintf_loop.simps if_split)
next
  case (Ptr left zero w v)
  then obtain b where "bufs_ok b" "specifier ops st left (int w) (if left then False else zero) CHR ''p'' =
      Inr (emit (st\<lparr>args := as, bufs := b\<rparr>)
        (in_field left (if zero then CHR ''0'' else CHR '' '') w (numeral_string 16 (unat v))))"
    using assms specifier_texts(4) [OF assms(2), of w v as] by fastforce
  then show ?thesis
    using Ptr assms by (intro exI [of _ b]) (simp add: loop_directive emit_def del: vprintf_loop.simps if_split)
next
  case (Chr v)
  have "unat (ucast v :: u32) mod 256 = unat v mod 256"
    unfolding unat_ucast_mod by (intro mod_mod_cancel) simp
  then have c: "(char_of (unat (ucast v :: u32)) :: char) = char_of (unat v)"
    by (metis char_of_mod_256)
  show ?thesis
    using Chr assms by (intro exI [of _ "bufs st"])
      (simp add: directive_def scan_minus_def scan_length_def is_digit_def char_int_def specifier_def va_int emit_def c)
next
  case Percent
  then have "as = args st" using assms(3) by simp
  with Percent show ?thesis
    using assms(2) by (intro exI [of _ "bufs st"])
      (simp add: directive_def scan_minus_def scan_length_def is_digit_def char_int_def specifier_def emit_def)
next
  case (Lit c)
  then have "as = args st" using assms(3) by simp
  with Lit show ?thesis using assms(1,2) by (intro exI [of _ "bufs st"]) (simp add: emit_def)
qed

lemma loop_items_then:
  assumes "\<forall>it \<in> set its. item_ok it" and "bufs_ok (bufs st)" and "args st = concat (map item_args its) @ as"
  shows "\<exists>b. vprintf_loop ops (items_format its @ rest) st =
    vprintf_loop ops rest (st\<lparr>args := as, bufs := b, out := out st @ items_text its\<rparr>) \<and> bufs_ok b"
  using assms
proof (induction its arbitrary: st)
  case Nil
  then have "as = args st" by simp
  with Nil.prems(2) show ?case by (intro exI [of _ "bufs st"]) (simp add: items_format_def items_text_def)
next
  case (Cons it its)
  from Cons.prems loop_item [of it st "concat (map item_args its) @ as" "items_format its @ rest"] obtain b where
    step: "vprintf_loop ops (item_format it @ items_format its @ rest) st = vprintf_loop ops (items_format its @ rest)
       (st\<lparr>args := concat (map item_args its) @ as, bufs := b, out := out st @ item_text it\<rparr>)" "bufs_ok b"
    by auto
  from Cons.IH [of "st\<lparr>args := concat (map item_args its) @ as, bufs := b, out := out st @ item_text it\<rparr>"] Cons.prems step(2)
  show ?case by (simp add: items_format_def items_text_def flip: step(1) [unfolded items_format_def])
qed

lemma loop_items:
  assumes "\<forall>it \<in> set its. item_ok it" and "bufs_ok (bufs st)" and "args st = concat (map item_args its) @ as"
  shows "\<exists>b. vprintf_loop ops (items_format its @ NUL # rest) st =
    Inr (st\<lparr>args := as, bufs := b, out := out st @ items_text its\<rparr>) \<and> bufs_ok b"
  using loop_items_then [OF assms, of "NUL # rest"] by simp

end

section \<open>The instances are formatters\<close>

lemma of_itoa_converts:
  assumes "3 \<le> unat base" and "unat base \<le> 16" and "length buf = 65"
  shows "\<exists>b. of_itoa (itoa buf n base) = Inr (b, numeral_string (unat base) (unat n)) \<and> length b = 65"
proof -
  have "unat (scast base :: u64) = unat base" using assms by (intro scast_base) simp
  moreover have "length (digits (unat base) (unat n)) \<le> Suc 40"
  proof (rule digits_length_base [of _ 3])
    show "unat n < 3 ^ Suc 40" using unat_lt_power [of n] by simp
    show "(3 :: nat) ^ Suc 40 \<le> unat base ^ Suc 40" using assms(1) by (intro power_mono) simp_all
  qed (use assms in simp)
  ultimately show ?thesis
    using itoa_loop_string [of "scast base :: u64" 49 buf n] assms by (auto simp: itoa_def of_itoa_def)
qed

interpretation kernel_printf: formatter kernel_ops "\<lambda>v. [IntArg v]" "\<lambda>v. [IntArg v]" "\<lambda>s. [StrArg s]"
  "\<lambda>buf. length buf = 65"
proof unfold_locales
  fix b :: "char list" and base n :: u32
  assume "length b = 65" and "base = 10 \<or> base = 16"
  then show "\<exists>b'. conv_int kernel_ops b n base = Inr (b', numeral_string (unat base) (unat n)) \<and> length b' = 65"
    using of_itoa_converts [of base b "ucast n"] by (auto simp: kernel_ops_def unat_ucast_up)
next
  fix b :: "char list" and base :: u32 and m :: u64
  assume "length b = 65" and "base = 10 \<or> base = 16"
  then show "\<exists>b'. conv_u64 kernel_ops b m base = Inr (b', numeral_string (unat base) (unat m)) \<and> length b' = 65"
    using of_itoa_converts [of base b m] by (auto simp: kernel_ops_def)
qed (simp_all add: kernel_ops_def)

lemma of_awd_itoa_converts:
  assumes "2 \<le> unat base" and "unat base \<le> 16" and "length buf = 33" and "length buf64 = 65"
  shows "\<exists>b. of_itoa (awd_itoa buf n base) = Inr (b, numeral_string (unat base) (unat n)) \<and> length b = 33"
    and "\<exists>b. of_itoa (awd_itoa64 buf64 m base) = Inr (b, numeral_string (unat base) (unat m)) \<and> length b = 65"
proof -
  have s: "unat (scast base :: u64) = unat base" using assms by (intro scast_base) simp
  have p: "(2 :: nat) ^ Suc k \<le> unat base ^ Suc k" for k using assms(1) by (intro power_mono) simp_all
  have "length (digits (unat base) (unat n)) \<le> Suc 31" "length (digits (unat base) (unat m)) \<le> Suc 63"
    using digits_length_base [OF assms(1) p [of 31], of "unat n"] digits_length_base [OF assms(1) p [of 63], of "unat m"]
      unat_lt_power [of n] unat_lt_power [of m] by simp_all
  then show "\<exists>b. of_itoa (awd_itoa buf n base) = Inr (b, numeral_string (unat base) (unat n)) \<and> length b = 33"
    and "\<exists>b. of_itoa (awd_itoa64 buf64 m base) = Inr (b, numeral_string (unat base) (unat m)) \<and> length b = 65"
    using itoa_loop_string [of base 32 buf n] itoa_loop_string [of "scast base :: u64" 64 buf64 m] assms s
    by (auto simp: awd_itoa_def awd_itoa64_def of_itoa_def)
qed

interpretation awd_printf: formatter awd_ops "\<lambda>v. [Slot (ucast v)]" "\<lambda>v. [Slot (ucast v), Slot (ucast (drop_bit 32 v))]"
  "\<lambda>s. [StrSlot s]" "\<lambda>b. length (fst b) = 33 \<and> length (snd b) = 65"
proof unfold_locales
  fix b :: "char list \<times> char list" and base n :: u32 and m :: u64
  assume b: "length (fst b) = 33 \<and> length (snd b) = 65" and base: "base = 10 \<or> base = 16"
  then have "2 \<le> unat base" "unat base \<le> 16" by auto
  note c = of_awd_itoa_converts [OF this, of "fst b" "snd b"]
  show "\<exists>b'. conv_int awd_ops b n base = Inr (b', numeral_string (unat base) (unat n)) \<and>
      length (fst b') = 33 \<and> length (snd b') = 65"
    using c(1) [of n] b by (auto simp: awd_ops_def)
  show "\<exists>b'. conv_u64 awd_ops b m base = Inr (b', numeral_string (unat base) (unat m)) \<and>
      length (fst b') = 33 \<and> length (snd b') = 65"
    using c(2) [of m] b by (auto simp: awd_ops_def)
next
  fix v :: u64 and as :: "awd_arg list"
  have "push_bit 32 (ucast (ucast (drop_bit 32 v) :: u32)) OR ucast (ucast v :: u32) = v"
    by (intro bit_word_eqI) (auto simp: bit_simps)
  then show "va_u64 awd_ops ([Slot (ucast v), Slot (ucast (drop_bit 32 v))] @ as) = Inr (v, as)"
    by (simp add: awd_ops_def)
qed (simp_all add: awd_ops_def)

text \<open>The terminator as a specifier: it is printed, and nothing is known of what follows.\<close>

lemma percent_NUL: "vprintf_loop ops [CHR ''%'', NUL] st = Inl Format_overrun"
  by (simp add: directive_def scan_minus_def scan_length_def is_digit_def char_int_def specifier_def)

section \<open>Properties\<close>

text \<open>C17. Both copies of \<open>vprintf\<close> print what the format means: for every list of items with widths below
  a million (text, percent signs, strings, characters, decimal and hexadecimal numbers with a width,
  left-justified or zero-padded), the format that writes the items, given their arguments, prints
  exactly the concatenation of their texts and takes exactly those arguments.  The number of
  \<open>%d\<close> is unsigned, of its low 32 bits.\<close>

theorem vprintf_prints_items:
  assumes "\<forall>it \<in> set its. item_ok it" and "length buf = 65" and "length abuf = 33"
  shows "(\<exists>b. vprintf buf (items_format its @ NUL # rest) (concat (map kernel_printf.item_args its) @ as) =
      Inr \<lparr>args = as, bufs = b, out = items_text its\<rparr>) \<and>
    (\<exists>b. awd_vprintf (abuf, buf) (items_format its @ NUL # rest') (concat (map awd_printf.item_args its) @ as') =
      Inr \<lparr>args = as', bufs = b, out = items_text its\<rparr>)"
  using kernel_printf.loop_items [OF assms(1), of "\<lparr>args = concat (map kernel_printf.item_args its) @ as, bufs = buf, out = []\<rparr>" as rest]
    awd_printf.loop_items [OF assms(1), of "\<lparr>args = concat (map awd_printf.item_args its) @ as', bufs = (abuf, buf), out = []\<rparr>" as' rest']
    assms(2,3)
  by (auto simp: vprintf_def awd_vprintf_def)


theorem vprintf_prints_items_witness:
  "\<exists>b. vprintf itoa_buffer (''%04x|%-3d%%'' @ [NUL]) [IntArg 0xAB, IntArg 7] = Inr \<lparr>args = [], bufs = b, out = ''00AB|7  %''\<rparr>"
proof -
  let ?its = "[Hex False True 4 0xAB, Lit CHR ''|'', Dec True 3 7, Percent]"
  have d: "digits 10 7 = [7]" "digits 16 171 = [10, 11]" "digits 10 4 = [4]" "digits 10 3 = [3]"
    by (simp_all add: digits.simps [of 10] digits.simps [of 16])
  have "items_format ?its = ''%04x|%-3d%%''"
    by (simp add: items_format_def width_format_def numeral_string_def d lut_def)
  moreover have "replicate 2 c = [c, c]" for c :: char by (simp add: numeral_2_eq_2)
  then have "items_text ?its = ''00AB|7  %''"
    by (simp add: items_text_def in_field_def numeral_string_def d lut_def)
  ultimately show ?thesis
    using vprintf_prints_items [of ?its itoa_buffer awd_itoa_buffer "[]" "[]"]
    by (simp add: itoa_buffer_def awd_itoa_buffer_def)
qed

text \<open>A format that ends in a percent sign is not safe: whatever the arguments, both copies read past
  its terminator (the terminator is printed as the specifier, and the scan goes on behind it).\<close>

theorem vprintf_percent_overruns:
  assumes "\<forall>it \<in> set its. item_ok it" and "length buf = 65" and "length abuf = 33"
  shows "vprintf buf (items_format its @ [CHR ''%'', NUL]) (concat (map kernel_printf.item_args its) @ as) =
      Inl Format_overrun \<and>
    awd_vprintf (abuf, buf) (items_format its @ [CHR ''%'', NUL]) (concat (map awd_printf.item_args its) @ as') =
      Inl Format_overrun"
  using kernel_printf.loop_items_then [OF assms(1), of "\<lparr>args = concat (map kernel_printf.item_args its) @ as, bufs = buf, out = []\<rparr>" as "[CHR ''%'', NUL]"]
    awd_printf.loop_items_then [OF assms(1), of "\<lparr>args = concat (map awd_printf.item_args its) @ as', bufs = (abuf, buf), out = []\<rparr>" as' "[CHR ''%'', NUL]"]
    assms(2,3)
  by (auto simp: vprintf_def awd_vprintf_def percent_NUL simp del: vprintf_loop.simps)

theorem vprintf_percent_overruns_witness:
  "vprintf itoa_buffer (''50%'' @ [NUL]) [] = Inl Format_overrun"
  using vprintf_percent_overruns [of "[Lit CHR ''5'', Lit CHR ''0'']" itoa_buffer awd_itoa_buffer "[]" "[]"]
  by (simp add: items_format_def itoa_buffer_def awd_itoa_buffer_def)

end
