(* ===== verification/Bitset.thy ===== *)
theory Bitset
  imports Kernel_Base
begin

text \<open>
  \<open>common::bitset\<close> (src/lobo/include/common/bitset.h): bit access to an array of bytes in memory.
  The members become functions of the memory and the object; a bit that is not below the length
  fails the assertion.  The locale \<open>bit_array\<close> states what a client of such an object relies on;
  it is interpreted here on \<open>bitset\<close> and in the theory of the physical memory manager on its
  pages.
\<close>

section \<open>The class\<close>

record bitset =
  m_ptr :: u64
  m_length :: u64

definition null_bitset :: bitset where
  "null_bitset = \<lparr>m_ptr = 0, m_length = 0\<rparr>"

text \<open>\<open>1 << (bit % 8)\<close>, an \<open>int\<close>, and the byte a bit lies in.\<close>

definition bit_mask :: "u64 \<Rightarrow> u32" where
  "bit_mask i = push_bit (unat (i mod 8)) 1"

definition bitset_test :: "64 bytes \<Rightarrow> bitset \<Rightarrow> u64 \<Rightarrow> kpanic + bool" where
  "bitset_test m b i =
     bind_r (assert (i < m_length b)) (\<lambda>_.
     Inr ((ucast (m (m_ptr b + i div 8)) :: u32) AND bit_mask i \<noteq> 0))"

definition bitset_set :: "64 bytes \<Rightarrow> bitset \<Rightarrow> u64 \<Rightarrow> kpanic + 64 bytes" where
  "bitset_set m b i =
     bind_r (assert (i < m_length b)) (\<lambda>_.
     let p = m_ptr b + i div 8
     in Inr (m(p := ucast ((ucast (m p) :: u32) OR bit_mask i))))"

definition bitset_clear :: "64 bytes \<Rightarrow> bitset \<Rightarrow> u64 \<Rightarrow> kpanic + 64 bytes" where
  "bitset_clear m b i =
     bind_r (assert (i < m_length b)) (\<lambda>_.
     let p = m_ptr b + i div 8
     in Inr (m(p := ucast ((ucast (m p) :: u32) AND NOT (bit_mask i)))))"

definition bitset_flip :: "64 bytes \<Rightarrow> bitset \<Rightarrow> u64 \<Rightarrow> kpanic + 64 bytes" where
  "bitset_flip m b i =
     bind_r (assert (i < m_length b)) (\<lambda>_.
     bind_r (bitset_test m b i) (\<lambda>t.
     if t then bitset_clear m b i else bitset_set m b i))"

section \<open>The bits an object stands for\<close>

definition bitset_bit :: "64 bytes \<Rightarrow> bitset \<Rightarrow> u64 \<Rightarrow> bool" where
  "bitset_bit m b i \<longleftrightarrow> bit (m (m_ptr b + i div 8)) (unat (i mod 8))"

text \<open>The bytes an object occupies.\<close>

definition in_bitset :: "bitset \<Rightarrow> u64 \<Rightarrow> bool" where
  "in_bitset b x \<longleftrightarrow> in_range x (m_ptr b) (unat (m_length b div 8) + 1)"

lemma unat_mod8: "unat ((i :: u64) mod 8) < 8"
  by (simp add: unat_mod)

lemma bit_bit_mask: "bit (bit_mask i) n \<longleftrightarrow> n = unat (i mod 8)"
  using unat_mod8 [of i] by (auto simp: bit_mask_def bit_simps)

lemma same_bit: "(i :: u64) div 8 = j div 8 \<and> unat (i mod 8) = unat (j mod 8) \<longleftrightarrow> i = j"
  by (metis div_mult_mod_eq word_unat_eq_iff)

lemma bitset_test_eq:
  "bitset_test m b i = (if i < m_length b then Inr (bitset_bit m b i) else Inl Assertion_failed)"
proof -
  let ?v = "ucast (m (m_ptr b + i div 8)) :: u32"
  have "?v AND bit_mask i \<noteq> 0 \<longleftrightarrow> bit ?v (unat (i mod 8))"
    by (simp add: bit_mask_def bit_iff_and_push_bit_not_eq_0)
  then show ?thesis
    using unat_mod8 [of i]
    by (auto simp: bitset_test_def bitset_bit_def bit_simps)
qed

lemma bitset_set_eq:
  "bitset_set m b i = (if i < m_length b
     then Inr (m(m_ptr b + i div 8 := set_bit (unat (i mod 8)) (m (m_ptr b + i div 8))))
     else Inl Assertion_failed)"
proof -
  have "ucast ((ucast v :: u32) OR bit_mask i) = set_bit (unat (i mod 8)) v" for v :: u8
    using unat_mod8 [of i] by (intro bit_word_eqI) (auto simp: bit_simps bit_bit_mask)
  then show ?thesis by (auto simp: bitset_set_def Let_def)
qed

lemma bitset_clear_eq:
  "bitset_clear m b i = (if i < m_length b
     then Inr (m(m_ptr b + i div 8 := unset_bit (unat (i mod 8)) (m (m_ptr b + i div 8))))
     else Inl Assertion_failed)"
proof -
  have "ucast ((ucast v :: u32) AND NOT (bit_mask i)) = unset_bit (unat (i mod 8)) v" for v :: u8
    using unat_mod8 [of i] by (intro bit_word_eqI) (auto simp: bit_simps bit_bit_mask)
  then show ?thesis by (auto simp: bitset_clear_def Let_def)
qed

lemma bitset_bit_set:
  "bitset_set m b i = Inr m' \<Longrightarrow> bitset_bit m' b j \<longleftrightarrow> j = i \<or> bitset_bit m b j"
  using same_bit [of i j] unat_mod8 [of j]
  by (auto simp: bitset_set_eq bitset_bit_def bit_simps split: if_splits)

lemma bitset_bit_clear:
  "bitset_clear m b i = Inr m' \<Longrightarrow> bitset_bit m' b j \<longleftrightarrow> j \<noteq> i \<and> bitset_bit m b j"
  using same_bit [of i j] unat_mod8 [of j]
  by (auto simp: bitset_clear_eq bitset_bit_def bit_simps split: if_splits)

lemma bitset_bit_flip:
  "bitset_flip m b i = Inr m' \<Longrightarrow> bitset_bit m' b j \<longleftrightarrow> bitset_bit m b j \<noteq> (j = i)"
  by (auto simp: bitset_flip_def bitset_test_eq res_simps split: if_splits
        dest: bitset_bit_clear [of _ _ _ _ j] bitset_bit_set [of _ _ _ _ j])

text \<open>An operation writes a byte of the object only.\<close>

lemma in_bitset_byte:
  assumes "i < m_length b"
  shows "in_bitset b (m_ptr b + i div 8)"
proof -
  have "unat i div 8 \<le> unat (m_length b) div 8"
    using assms by (intro div_le_mono) (simp add: word_less_nat_alt)
  then show ?thesis by (simp add: in_bitset_def in_range_def unat_div)
qed

lemma bitset_set_frame [frame_simps]:
  "bitset_set m b i = Inr m' \<Longrightarrow> \<not> in_bitset b x \<Longrightarrow> m' x = m x"
  using in_bitset_byte by (auto simp: bitset_set_eq split: if_splits)

lemma bitset_clear_frame [frame_simps]:
  "bitset_clear m b i = Inr m' \<Longrightarrow> \<not> in_bitset b x \<Longrightarrow> m' x = m x"
  using in_bitset_byte by (auto simp: bitset_clear_eq split: if_splits)

text \<open>The bits depend on the object's bytes only.\<close>

lemma bitset_bit_cong:
  assumes "\<And>x. in_bitset b x \<Longrightarrow> m x = m' x" and "i < m_length b"
  shows "bitset_bit m b i = bitset_bit m' b i"
  using assms in_bitset_byte by (simp add: bitset_bit_def)

section \<open>The interface of an array of bits\<close>

locale bit_array =
  fixes len :: "'s \<Rightarrow> 'i::linorder"
    and tst :: "'s \<Rightarrow> 'i \<Rightarrow> 'e + bool"
    and st :: "'s \<Rightarrow> 'i \<Rightarrow> 'e + 's"
    and clr :: "'s \<Rightarrow> 'i \<Rightarrow> 'e + 's"
    and bt :: "'s \<Rightarrow> 'i \<Rightarrow> bool"
  assumes tst_in: "i < len s \<Longrightarrow> tst s i = Inr (bt s i)"
    and st_in: "i < len s \<Longrightarrow>
      \<exists>s'. st s i = Inr s' \<and> len s' = len s \<and> (\<forall>j < len s. bt s' j \<longleftrightarrow> j = i \<or> bt s j)"
    and clr_in: "i < len s \<Longrightarrow>
      \<exists>s'. clr s i = Inr s' \<and> len s' = len s \<and> (\<forall>j < len s. bt s' j \<longleftrightarrow> j \<noteq> i \<and> bt s j)"
begin

lemma fold_st:
  "\<forall>i \<in> set is. i < len s \<Longrightarrow>
     \<exists>s'. fold_r st is s = Inr s' \<and> len s' = len s \<and>
          (\<forall>j < len s. bt s' j \<longleftrightarrow> j \<in> set is \<or> bt s j)"
proof (induction "is" arbitrary: s)
  case (Cons i "is")
  from Cons.prems st_in [of i s] obtain t where t: "st s i = Inr t" "len t = len s"
      "\<forall>j < len s. bt t j \<longleftrightarrow> j = i \<or> bt s j"
    by auto
  with Cons.prems Cons.IH [of t] show ?case by auto
qed simp

lemma fold_clr:
  "\<forall>i \<in> set is. i < len s \<Longrightarrow>
     \<exists>s'. fold_r clr is s = Inr s' \<and> len s' = len s \<and>
          (\<forall>j < len s. bt s' j \<longleftrightarrow> j \<notin> set is \<and> bt s j)"
proof (induction "is" arbitrary: s)
  case (Cons i "is")
  from Cons.prems clr_in [of i s] obtain t where t: "clr s i = Inr t" "len t = len s"
      "\<forall>j < len s. bt t j \<longleftrightarrow> j \<noteq> i \<and> bt s j"
    by auto
  with Cons.prems Cons.IH [of t] show ?case by auto
qed simp

lemma st_then_tst: "i < len s \<Longrightarrow> st s i = Inr s' \<Longrightarrow> tst s' i = Inr True"
  using st_in [of i s] by (auto simp: tst_in)

lemma clr_then_tst: "i < len s \<Longrightarrow> clr s i = Inr s' \<Longrightarrow> tst s' i = Inr False"
  using clr_in [of i s] by (auto simp: tst_in)

lemma st_others: "i < len s \<Longrightarrow> j < len s \<Longrightarrow> j \<noteq> i \<Longrightarrow> st s i = Inr s' \<Longrightarrow> tst s' j = tst s j"
  using st_in [of i s] by (auto simp: tst_in)

end

text \<open>A bitset in its memory is such an array; the state is the pair of the two.\<close>

definition bitset_setS :: "64 bytes \<times> bitset \<Rightarrow> u64 \<Rightarrow> kpanic + (64 bytes \<times> bitset)" where
  "bitset_setS s i = bind_r (bitset_set (fst s) (snd s) i) (\<lambda>m. Inr (m, snd s))"

definition bitset_clearS :: "64 bytes \<times> bitset \<Rightarrow> u64 \<Rightarrow> kpanic + (64 bytes \<times> bitset)" where
  "bitset_clearS s i = bind_r (bitset_clear (fst s) (snd s) i) (\<lambda>m. Inr (m, snd s))"

interpretation bitset: bit_array
  "\<lambda>s. m_length (snd s)" "\<lambda>s. bitset_test (fst s) (snd s)" bitset_setS bitset_clearS
  "\<lambda>s. bitset_bit (fst s) (snd s)"
proof
  fix i and s :: "64 bytes \<times> bitset"
  assume i: "i < m_length (snd s)"
  then show "bitset_test (fst s) (snd s) i = Inr (bitset_bit (fst s) (snd s) i)"
    by (simp add: bitset_test_eq)
  obtain m where m: "bitset_set (fst s) (snd s) i = Inr m"
    using i by (simp add: bitset_set_eq)
  then show "\<exists>s'. bitset_setS s i = Inr s' \<and> m_length (snd s') = m_length (snd s) \<and>
      (\<forall>j < m_length (snd s). bitset_bit (fst s') (snd s') j \<longleftrightarrow>
         j = i \<or> bitset_bit (fst s) (snd s) j)"
    by (auto simp: bitset_setS_def bitset_bit_set [OF m])
  obtain m where m: "bitset_clear (fst s) (snd s) i = Inr m"
    using i by (simp add: bitset_clear_eq)
  then show "\<exists>s'. bitset_clearS s i = Inr s' \<and> m_length (snd s') = m_length (snd s) \<and>
      (\<forall>j < m_length (snd s). bitset_bit (fst s') (snd s') j \<longleftrightarrow>
         j \<noteq> i \<and> bitset_bit (fst s) (snd s) j)"
    by (auto simp: bitset_clearS_def bitset_bit_clear [OF m])
qed

end
