(* ===== verification/Kernel_State.thy ===== *)
theory Kernel_State
  imports Bitset
begin

text \<open>
  The state of the Lobo kernel's memory side: the memory itself, the globals of
  src/lobo/mem/heap.cpp, the single objects \<open>kernel_pmm\<close> and \<open>kernel_vmm\<close>, the two pieces of
  processor state the code sets (the page-table register and the interrupt flag) and the calls
  made to the kernel log.  The page operations of the physical memory manager that the heap
  itself calls (\<open>set\<close>, \<open>free\<close>, \<open>test\<close>) are here, because the heap and the manager call each other.
\<close>

section \<open>The records\<close>

datatype AllocMode = Uninitialised | EarlyBoot | Full

record heap_state =
  earlyAllocBase :: u64
  earlyAllocLimit :: u64
  currentMode :: AllocMode

record pmm =
  bitmap :: bitset
  m_initialised :: bool
  m_numPages :: u64
  m_maxFreePages :: u64
  m_nonMemoryBackedPages :: u64

record vmm =
  m_init :: bool
  pdir_kernel :: u64
  pdir_current :: u64

record kstate =
  kmem :: "64 bytes"
  kheap :: heap_state
  kernel_pmm :: pmm
  kernel_vmm :: vmm
  cr3 :: u64
  if_flag :: bool
  klog :: "log_call list"

text \<open>The objects before any constructor argument or \<open>init\<close>: the members' initialisers.\<close>

definition heap_initial :: heap_state where
  "heap_initial = \<lparr>earlyAllocBase = 0, earlyAllocLimit = 0, currentMode = Uninitialised\<rparr>"

definition pmm_initial :: pmm where
  "pmm_initial = \<lparr>bitmap = null_bitset, m_initialised = False, m_numPages = 0,
     m_maxFreePages = 0, m_nonMemoryBackedPages = 0\<rparr>"

definition vmm_initial :: vmm where
  "vmm_initial = \<lparr>m_init = False, pdir_kernel = 0, pdir_current = 0\<rparr>"

definition log_event :: "kstate \<Rightarrow> log_call \<Rightarrow> kstate" where
  "log_event s c = s\<lparr>klog := klog s @ [c]\<rparr>"

section \<open>Pages in the physical memory manager\<close>

definition pmm_bitmap_set :: "kstate \<Rightarrow> u64 \<Rightarrow> kpanic + kstate" where
  "pmm_bitmap_set s physAddress =
     bind_r (bitset_set (kmem s) (bitmap (kernel_pmm s)) (physAddress div 0x1000))
       (\<lambda>m. Inr (s\<lparr>kmem := m\<rparr>))"

definition pmm_bitmap_free :: "kstate \<Rightarrow> u64 \<Rightarrow> kpanic + kstate" where
  "pmm_bitmap_free s physAddress =
     bind_r (bitset_clear (kmem s) (bitmap (kernel_pmm s)) (physAddress div 0x1000))
       (\<lambda>m. Inr (s\<lparr>kmem := m\<rparr>))"

definition pmm_bitmap_test :: "kstate \<Rightarrow> u64 \<Rightarrow> kpanic + bool" where
  "pmm_bitmap_test s physAddress =
     bitset_test (kmem s) (bitmap (kernel_pmm s)) (physAddress div 0x1000)"

definition pmm_set :: "kstate \<Rightarrow> u64 \<Rightarrow> kpanic + kstate" where
  "pmm_set s physAddress = pmm_bitmap_set s physAddress"

definition pmm_free :: "kstate \<Rightarrow> u64 \<Rightarrow> kpanic + kstate" where
  "pmm_free s physAddress = pmm_bitmap_free s physAddress"

definition pmm_test :: "kstate \<Rightarrow> u64 \<Rightarrow> kpanic + bool" where
  "pmm_test s physAddress = pmm_bitmap_test s physAddress"

lemmas pmm_page_defs = pmm_set_def pmm_bitmap_set_def pmm_free_def pmm_bitmap_free_def
  pmm_test_def pmm_bitmap_test_def

text \<open>The page with number \<open>i\<close> is marked used.\<close>

definition page_used :: "kstate \<Rightarrow> u64 \<Rightarrow> bool" where
  "page_used s i \<longleftrightarrow> bitset_bit (kmem s) (bitmap (kernel_pmm s)) i"

abbreviation num_bits :: "kstate \<Rightarrow> u64" where
  "num_bits s \<equiv> m_length (bitmap (kernel_pmm s))"

text \<open>What a page operation may change: bytes of the bitmap, nothing else of the state.\<close>

definition same_but_bitmap :: "kstate \<Rightarrow> kstate \<Rightarrow> bool" where
  "same_but_bitmap s t \<longleftrightarrow>
     t = s\<lparr>kmem := kmem t\<rparr> \<and> (\<forall>x. \<not> in_bitset (bitmap (kernel_pmm s)) x \<longrightarrow> kmem t x = kmem s x)"

lemma same_but_bitmap_refl [simp]: "same_but_bitmap s s"
  by (simp add: same_but_bitmap_def)

lemma same_but_bitmap_fields:
  assumes "same_but_bitmap s t"
  shows "kheap t = kheap s" "kernel_pmm t = kernel_pmm s" "kernel_vmm t = kernel_vmm s"
    "cr3 t = cr3 s" "if_flag t = if_flag s" "klog t = klog s"
proof -
  have t: "t = s\<lparr>kmem := kmem t\<rparr>" using assms by (simp add: same_but_bitmap_def)
  show "kheap t = kheap s" "kernel_pmm t = kernel_pmm s" "kernel_vmm t = kernel_vmm s"
    "cr3 t = cr3 s" "if_flag t = if_flag s" "klog t = klog s"
    by (subst t, simp)+
qed

lemma same_but_bitmap_trans:
  assumes "same_but_bitmap s t" and "same_but_bitmap t u"
  shows "same_but_bitmap s u"
  using assms same_but_bitmap_fields [OF assms(1)]
  unfolding same_but_bitmap_def by (metis kstate.update_convs(1) kstate.surjective)

lemma pmm_test_eq:
  "pmm_test s pa = (if pa div 0x1000 < num_bits s then Inr (page_used s (pa div 0x1000))
     else Inl Assertion_failed)"
  by (simp add: pmm_page_defs bitset_test_eq page_used_def)

lemma pmm_set_cases:
  obtains (ok) t where "pa div 0x1000 < num_bits s" "pmm_set s pa = Inr t" "same_but_bitmap s t"
      "\<And>j. page_used t j \<longleftrightarrow> j = pa div 0x1000 \<or> page_used s j"
  | (out) "\<not> pa div 0x1000 < num_bits s" "pmm_set s pa = Inl Assertion_failed"
proof (cases "pa div 0x1000 < num_bits s")
  case True
  then obtain m where m: "bitset_set (kmem s) (bitmap (kernel_pmm s)) (pa div 0x1000) = Inr m"
    by (simp add: bitset_set_eq)
  then have "pmm_set s pa = Inr (s\<lparr>kmem := m\<rparr>)" by (simp add: pmm_page_defs)
  moreover have "same_but_bitmap s (s\<lparr>kmem := m\<rparr>)"
    using bitset_set_frame [OF m] by (simp add: same_but_bitmap_def)
  moreover have "page_used (s\<lparr>kmem := m\<rparr>) j \<longleftrightarrow> j = pa div 0x1000 \<or> page_used s j" for j
    by (simp add: page_used_def bitset_bit_set [OF m])
  ultimately show thesis using True ok by blast
next
  case False
  then show thesis using out by (simp add: pmm_page_defs bitset_set_eq)
qed

lemma pmm_free_cases:
  obtains (ok) t where "pa div 0x1000 < num_bits s" "pmm_free s pa = Inr t" "same_but_bitmap s t"
      "\<And>j. page_used t j \<longleftrightarrow> j \<noteq> pa div 0x1000 \<and> page_used s j"
  | (out) "\<not> pa div 0x1000 < num_bits s" "pmm_free s pa = Inl Assertion_failed"
proof (cases "pa div 0x1000 < num_bits s")
  case True
  then obtain m where m: "bitset_clear (kmem s) (bitmap (kernel_pmm s)) (pa div 0x1000) = Inr m"
    by (simp add: bitset_clear_eq)
  then have "pmm_free s pa = Inr (s\<lparr>kmem := m\<rparr>)" by (simp add: pmm_page_defs)
  moreover have "same_but_bitmap s (s\<lparr>kmem := m\<rparr>)"
    using bitset_clear_frame [OF m] by (simp add: same_but_bitmap_def)
  moreover have "page_used (s\<lparr>kmem := m\<rparr>) j \<longleftrightarrow> j \<noteq> pa div 0x1000 \<and> page_used s j" for j
    by (simp add: page_used_def bitset_bit_clear [OF m])
  ultimately show thesis using True ok by blast
next
  case False
  then show thesis using out by (simp add: pmm_page_defs bitset_clear_eq)
qed

lemma pmm_set_same: "pmm_set s pa = Inr t \<Longrightarrow> same_but_bitmap s t"
  by (cases rule: pmm_set_cases [of pa s]) auto

lemma pmm_set_page_used:
  assumes "pmm_set s pa = Inr t"
  shows "page_used t j \<longleftrightarrow> j = pa div 0x1000 \<or> page_used s j"
proof (cases rule: pmm_set_cases [of pa s])
  case (ok u)
  then have "u = t" using assms by simp
  then show ?thesis using ok(4) by blast
qed (use assms in simp)

lemma pmm_free_same: "pmm_free s pa = Inr t \<Longrightarrow> same_but_bitmap s t"
  by (cases rule: pmm_free_cases [of pa s]) auto

text \<open>
  The pages are an array of bits, indexed by page number: the address of page \<open>i\<close> is
  \<open>i * 0x1000\<close>, which does not wrap below page \<open>2 ^ 52\<close>.
\<close>

lemma page_number:
  assumes "i < 2 ^ 52"
  shows "(i * 0x1000) div 0x1000 = (i :: u64)"
proof -
  have "unat i < 2 ^ 52" using assms by (simp add: word_less_nat_alt)
  then have "unat (i * 0x1000) = unat i * 0x1000" by (simp add: unat_word_ariths)
  then show ?thesis by (simp add: word_unat_eq_iff unat_div)
qed

definition num_pages :: "kstate \<Rightarrow> u64" where
  "num_pages s = min (num_bits s) (2 ^ 52)"

interpretation pages: bit_array num_pages
  "\<lambda>s i. pmm_test s (i * 0x1000)" "\<lambda>s i. pmm_set s (i * 0x1000)" "\<lambda>s i. pmm_free s (i * 0x1000)"
  page_used
proof
  fix s i
  assume "i < num_pages s"
  then have i: "i < num_bits s" "(i * 0x1000) div 0x1000 = i"
    by (simp_all add: num_pages_def page_number)
  then show "pmm_test s (i * 0x1000) = Inr (page_used s i)" by (simp add: pmm_test_eq)
  show "\<exists>s'. pmm_set s (i * 0x1000) = Inr s' \<and> num_pages s' = num_pages s \<and>
      (\<forall>j < num_pages s. page_used s' j \<longleftrightarrow> j = i \<or> page_used s j)"
  proof (cases rule: pmm_set_cases [of "i * 0x1000" s])
    case (ok t)
    then have "num_pages t = num_pages s" by (simp add: num_pages_def same_but_bitmap_fields(2))
    with ok i(2) show ?thesis by auto
  qed (use i in simp)
  show "\<exists>s'. pmm_free s (i * 0x1000) = Inr s' \<and> num_pages s' = num_pages s \<and>
      (\<forall>j < num_pages s. page_used s' j \<longleftrightarrow> j \<noteq> i \<and> page_used s j)"
  proof (cases rule: pmm_free_cases [of "i * 0x1000" s])
    case (ok t)
    then have "num_pages t = num_pages s" by (simp add: num_pages_def same_but_bitmap_fields(2))
    with ok i(2) show ?thesis by auto
  qed (use i in simp)
qed

end
