(* ===== verification/Bump_Allocator.thy ===== *)
theory Bump_Allocator
  imports Prelude
begin

text \<open>
  The contract of an allocator that moves one cursor towards a limit and never frees.  Both of
  the repository's allocators are of this kind: \<open>kmalloc_aligned\<close> of the kernel and
  \<open>malloc_aligned\<close> of the loader.  The client's lemma, proved once here, is that the blocks of any
  sequence of requests are aligned, lie between the cursor and the limit, and never overlap.
\<close>

primrec alloc_all :: "('s \<Rightarrow> 'r \<Rightarrow> 'e + (nat \<times> 's)) \<Rightarrow> 's \<Rightarrow> 'r list \<Rightarrow> 'e + (nat list \<times> 's)" where
  "alloc_all alloc s [] = Inr ([], s)"
| "alloc_all alloc s (r # rs) =
     bind_r (alloc s r) (\<lambda>(b, t). bind_r (alloc_all alloc t rs) (\<lambda>(bs, u). Inr (b # bs, u)))"

text \<open>Blocks in the order of their addresses, each ending before the next one starts.\<close>

fun blocks_apart :: "(nat \<times> nat) list \<Rightarrow> bool" where
  "blocks_apart ((b, n) # (c, k) # bs) \<longleftrightarrow> b + n \<le> c \<and> blocks_apart ((c, k) # bs)"
| "blocks_apart _ \<longleftrightarrow> True"

lemma blocks_apart_Cons:
  "blocks_apart ((b, n) # bs) \<longleftrightarrow> (bs = [] \<or> b + n \<le> fst (hd bs)) \<and> blocks_apart bs"
  by (cases bs) auto

lemma blocks_apart_nth:
  assumes "blocks_apart bs" and "i < j" and "j < length bs"
  shows "fst (bs ! i) + snd (bs ! i) \<le> fst (bs ! j)"
  using assms
proof (induction bs arbitrary: i j)
  case (Cons p bs)
  obtain b n where p: "p = (b, n)" by fastforce
  show ?case
  proof (cases i)
    case (Suc i')
    then show ?thesis using Cons p by (cases j) (auto simp: blocks_apart_Cons)
  next
    case 0
    from Cons.prems(2,3) 0 obtain k where k: "j = Suc k" "k < length bs" by (cases j) auto
    then have hd: "b + n \<le> fst (bs ! 0)"
      using Cons.prems(1) p by (cases bs) (auto simp: blocks_apart_Cons)
    show ?thesis
    proof (cases k)
      case 0
      then show ?thesis using hd p k \<open>i = 0\<close> by simp
    next
      case (Suc _)
      then have "fst (bs ! 0) + snd (bs ! 0) \<le> fst (bs ! k)"
        using Cons.IH [of 0 k] Cons.prems(1) p k by (auto simp: blocks_apart_Cons)
      then show ?thesis using hd p k \<open>i = 0\<close> by simp
    qed
  qed
qed simp

locale bump_allocator =
  fixes alloc :: "'s \<Rightarrow> 'r \<Rightarrow> 'e + (nat \<times> 's)"
    and cursor :: "'s \<Rightarrow> nat"
    and limit :: "'s \<Rightarrow> nat"
    and bytes :: "'r \<Rightarrow> nat"
    and alignment :: "'r \<Rightarrow> nat"
    and admissible :: "nat \<Rightarrow> 'r \<Rightarrow> bool"
  assumes alloc_step:
    "cursor s \<le> limit s \<Longrightarrow> admissible (limit s) r \<Longrightarrow> alloc s r = Inr (b, t) \<Longrightarrow>
       cursor s \<le> b \<and> alignment r dvd b \<and> b + bytes r = cursor t \<and>
       cursor t \<le> limit s \<and> limit t = limit s"
begin

lemma alloc_all_blocks:
  assumes "cursor s \<le> limit s" and "\<forall>r \<in> set rs. admissible (limit s) r"
    and "alloc_all alloc s rs = Inr (bs, t)"
  shows "length bs = length rs \<and> cursor s \<le> cursor t \<and> cursor t \<le> limit s \<and> limit t = limit s \<and>
    blocks_apart (zip bs (map bytes rs)) \<and>
    (\<forall>i < length rs. cursor s \<le> bs ! i \<and> bs ! i + bytes (rs ! i) \<le> cursor t \<and>
       alignment (rs ! i) dvd bs ! i)"
  using assms
proof (induction rs arbitrary: s bs)
  case (Cons r rs)
  then obtain b u cs where step: "alloc s r = Inr (b, u)" and rest: "alloc_all alloc u rs = Inr (cs, t)"
    and bs: "bs = b # cs"
    by (auto simp: bind_r_eq_Inr)
  from alloc_step [OF Cons.prems(1) _ step] Cons.prems(2)
  have u: "cursor s \<le> b" "alignment r dvd b" "b + bytes r = cursor u" "cursor u \<le> limit s"
    "limit u = limit s"
    by auto
  from u Cons.prems(2) have IH: "length cs = length rs" "cursor u \<le> cursor t" "cursor t \<le> limit s"
    "limit t = limit s" "blocks_apart (zip cs (map bytes rs))"
    "\<And>i. i < length rs \<Longrightarrow> cursor u \<le> cs ! i \<and> cs ! i + bytes (rs ! i) \<le> cursor t \<and>
       alignment (rs ! i) dvd cs ! i"
    using Cons.IH [OF _ _ rest] by auto
  have "blocks_apart (zip bs (map bytes (r # rs)))"
  proof (cases rs)
    case (Cons r' rs')
    then obtain c cs' where "cs = c # cs'" using IH(1) by (cases cs) auto
    then show ?thesis using IH(5) IH(6) [of 0] u Cons by (auto simp: bs)
  next
    case Nil
    then show ?thesis using IH(1) by (simp add: bs)
  qed
  moreover have "\<forall>i < length (r # rs). cursor s \<le> bs ! i \<and>
      bs ! i + bytes ((r # rs) ! i) \<le> cursor t \<and> alignment ((r # rs) ! i) dvd bs ! i"
  proof (intro allI impI)
    fix i assume i: "i < length (r # rs)"
    show "cursor s \<le> bs ! i \<and> bs ! i + bytes ((r # rs) ! i) \<le> cursor t \<and>
      alignment ((r # rs) ! i) dvd bs ! i"
    proof (cases i)
      case 0
      then show ?thesis using u IH(2) by (simp add: bs)
    next
      case (Suc k)
      have "cursor s \<le> cursor u" using u by linarith
      then show ?thesis using IH(6) [of k] i Suc by (simp add: bs)
    qed
  qed
  ultimately show ?case using u IH(1-4) by (simp add: bs)
qed simp

lemma alloc_all_disjoint:
  assumes "cursor s \<le> limit s" and "\<forall>r \<in> set rs. admissible (limit s) r"
    and "alloc_all alloc s rs = Inr (bs, t)" and "i < j" and "j < length rs"
  shows "bs ! i + bytes (rs ! i) \<le> bs ! j"
proof -
  note all = alloc_all_blocks [OF assms(1-3)]
  then show ?thesis
    using blocks_apart_nth [of "zip bs (map bytes rs)" i j] assms(4,5) by simp
qed

end

end
