(* ===== verification/Kheap.thy ===== *)
theory Kheap
  imports Kernel_State Bump_Allocator
begin

text \<open>
  The kernel heap, src/lobo/mem/heap.cpp: a bump allocator with two working modes.  In early
  boot it moves its base and logs; in full mode it also disables interrupts around the work and
  marks one physical page used.  Addresses are 64-bit words and wrap as they do in the code.
\<close>

section \<open>The code\<close>

definition heap_early_init :: "kstate \<Rightarrow> u64 \<Rightarrow> u64 \<Rightarrow> kstate" where
  "heap_early_init s base lim =
     s\<lparr>kheap := \<lparr>earlyAllocBase = base, earlyAllocLimit = lim, currentMode = EarlyBoot\<rparr>\<rparr>"

definition heap_init_full :: "kstate \<Rightarrow> kstate" where
  "heap_init_full s = s\<lparr>kheap := (kheap s)\<lparr>currentMode := Full\<rparr>\<rparr>"

definition heap_early_get_current :: "kstate \<Rightarrow> u64" where
  "heap_early_get_current s = earlyAllocBase (kheap s)"

definition heap_early_get_limit :: "kstate \<Rightarrow> u64" where
  "heap_early_get_limit s = earlyAllocLimit (kheap s)"

definition set_base :: "kstate \<Rightarrow> u64 \<Rightarrow> kstate" where
  "set_base s base = s\<lparr>kheap := (kheap s)\<lparr>earlyAllocBase := base\<rparr>\<rparr>"

lemma set_base_fields [simp]:
  "kheap (set_base s b) = (kheap s)\<lparr>earlyAllocBase := b\<rparr>" "kmem (set_base s b) = kmem s"
  "kernel_pmm (set_base s b) = kernel_pmm s" "kernel_vmm (set_base s b) = kernel_vmm s"
  "cr3 (set_base s b) = cr3 s" "if_flag (set_base s b) = if_flag s" "klog (set_base s b) = klog s"
  by (simp_all add: set_base_def)

lemma set_base_twice [simp]: "set_base (set_base s b) c = set_base s c"
  by (simp add: set_base_def)

definition align_base :: "u64 \<Rightarrow> u64 \<Rightarrow> u64" where
  "align_base base alignment =
     (if base mod alignment \<noteq> 0 then base + (alignment - base mod alignment) else base)"

definition page_of :: "u64 \<Rightarrow> u64" where
  "page_of a = a AND 0xFFFFFFFFFFFFF000"

text \<open>The one page that full mode marks used: the page of the new base, when it is not the old one's.\<close>

definition mark_crossed_page :: "kstate \<Rightarrow> u64 \<Rightarrow> u64 \<Rightarrow> kpanic + kstate" where
  "mark_crossed_page s old_base new_current =
     (if page_of old_base \<noteq> page_of new_current
      then pmm_set s (page_of new_current - KERNEL_VMB) else Inr s)"

definition kmalloc_aligned :: "kstate \<Rightarrow> u64 \<Rightarrow> u64 \<Rightarrow> kpanic + (u64 \<times> kstate)" where
  "kmalloc_aligned s sz alignment =
     (case currentMode (kheap s) of
        Full \<Rightarrow>
          (let s = s\<lparr>if_flag := False\<rparr>; old_base = earlyAllocBase (kheap s) in
           bind_r (guard Divide_error (alignment \<noteq> 0)) (\<lambda>_.
           let block = align_base old_base alignment; s = set_base s block; new_current = block + sz in
           bind_r (guard (Panic ''kmalloc(early): Ran out of memory!'')
                     (\<not> new_current > earlyAllocLimit (kheap s))) (\<lambda>_.
           bind_r (mark_crossed_page s old_base new_current) (\<lambda>s.
           Inr (block, (set_base s new_current)\<lparr>if_flag := True\<rparr>)))))
      | EarlyBoot \<Rightarrow>
          bind_r (guard Divide_error (alignment \<noteq> 0)) (\<lambda>_.
          let block = align_base (earlyAllocBase (kheap s)) alignment; s = set_base s block;
              new_current = block + sz in
          bind_r (guard (Panic ''kmalloc(early): Ran out of memory!'')
                    (\<not> new_current > earlyAllocLimit (kheap s))) (\<lambda>_.
          Inr (block, log_event (set_base s new_current)
                 (Log ''kmalloc'' ''alloc 0x%x bytes @ 0x%p'' [IntArg sz, IntArg block]))))
      | Uninitialised \<Rightarrow>
          Inl (Panic ''Attempted a memory allocation before heap was initialised!''))"

definition kmalloc :: "kstate \<Rightarrow> u64 \<Rightarrow> kpanic + (u64 \<times> kstate)" where
  "kmalloc s sz = kmalloc_aligned s sz 8"

definition kmalloc_page :: "kstate \<Rightarrow> u64 \<Rightarrow> kpanic + (u64 \<times> kstate)" where
  "kmalloc_page s sz = kmalloc_aligned s sz 0x1000"

section \<open>Alignment\<close>

lemma align_base_unat:
  assumes "al \<noteq> 0" and "unat base + unat al \<le> 2 ^ 64"
  shows "unat al dvd unat (align_base base al)" "unat base \<le> unat (align_base base al)"
    "unat (align_base base al) < unat base + unat al"
proof -
  let ?r = "unat base mod unat al"
  have al: "0 < unat al" using assms(1) by (simp add: unat_gt_0)
  have r: "?r < unat al" using al by simp
  have "unat (align_base base al) = (if ?r = 0 then unat base else unat base + (unat al - ?r))"
  proof (cases "?r = 0")
    case True
    then show ?thesis by (simp add: align_base_def unat_mod unat_eq_zero [symmetric])
  next
    case False
    have "unat (al - base mod al) = unat al - ?r"
      using r by (simp add: unat_sub_le unat_mod)
    moreover have "base mod al \<noteq> 0" using False by (simp add: unat_eq_zero [symmetric] unat_mod)
    moreover have "unat base + (unat al - ?r) < 2 ^ 64" using False assms(2) r by linarith
    ultimately show ?thesis
      using False unat_add_lt [of base "al - base mod al"] by (simp add: align_base_def)
  qed
  note eq = this
  show "unat base \<le> unat (align_base base al)" "unat (align_base base al) < unat base + unat al"
    using al r by (auto simp: eq)
  have "unat al dvd (unat base - ?r) + unat al" by (intro dvd_add dvd_minus_mod dvd_refl)
  moreover have "(unat base - ?r) + unat al = unat base + (unat al - ?r)"
    using r mod_less_eq_dividend [of "unat base" "unat al"] by linarith
  ultimately show "unat al dvd unat (align_base base al)"
    by (auto simp: eq dvd_eq_mod_eq_0)
qed

section \<open>What an allocation does\<close>

text \<open>A request that cannot make the 64-bit sum wrap below the limit.\<close>

definition admissible_request :: "nat \<Rightarrow> u64 \<Rightarrow> u64 \<Rightarrow> bool" where
  "admissible_request lim sz al \<longleftrightarrow> al \<noteq> 0 \<and> lim + unat al + unat sz \<le> 2 ^ 64"

abbreviation heap_cursor :: "kstate \<Rightarrow> nat" where
  "heap_cursor s \<equiv> unat (earlyAllocBase (kheap s))"

abbreviation heap_limit :: "kstate \<Rightarrow> nat" where
  "heap_limit s \<equiv> unat (earlyAllocLimit (kheap s))"

text \<open>The effect of a successful allocation, whatever the sizes: the code's own sums.\<close>

lemma kmalloc_early:
  "currentMode (kheap s) = EarlyBoot \<Longrightarrow> kmalloc_aligned s sz al = Inr (b, t) \<longleftrightarrow>
     al \<noteq> 0 \<and> b = align_base (earlyAllocBase (kheap s)) al \<and> b + sz \<le> earlyAllocLimit (kheap s) \<and>
     t = log_event (set_base s (b + sz))
           (Log ''kmalloc'' ''alloc 0x%x bytes @ 0x%p'' [IntArg sz, IntArg b])"
  by (auto simp: kmalloc_aligned_def res_simps Let_def not_less)

lemma kmalloc_full:
  "currentMode (kheap s) = Full \<Longrightarrow> kmalloc_aligned s sz al = Inr (b, t) \<longleftrightarrow>
     al \<noteq> 0 \<and> b = align_base (earlyAllocBase (kheap s)) al \<and> b + sz \<le> earlyAllocLimit (kheap s) \<and>
     (\<exists>u. mark_crossed_page (set_base (s\<lparr>if_flag := False\<rparr>) b) (earlyAllocBase (kheap s)) (b + sz) = Inr u \<and>
          t = (set_base u (b + sz))\<lparr>if_flag := True\<rparr>)"
  by (auto simp: kmalloc_aligned_def res_simps Let_def not_less)

lemma mark_crossed_page_same: "mark_crossed_page s a b = Inr t \<Longrightarrow> same_but_bitmap s t"
  by (auto simp: mark_crossed_page_def split: if_splits dest: pmm_set_same)

lemma kmalloc_uninitialised [simp]:
  "currentMode (kheap s) = Uninitialised \<Longrightarrow> kmalloc_aligned s sz al \<noteq> Inr r"
  by (simp add: kmalloc_aligned_def)

lemma kmalloc_heap:
  assumes "kmalloc_aligned s sz al = Inr (b, t)"
  shows "al \<noteq> 0 \<and> b = align_base (earlyAllocBase (kheap s)) al \<and>
    b + sz \<le> earlyAllocLimit (kheap s) \<and> kheap t = (kheap s)\<lparr>earlyAllocBase := b + sz\<rparr>"
proof (cases "currentMode (kheap s)")
  case Full
  with assms show ?thesis
    by (auto simp: kmalloc_full dest!: mark_crossed_page_same same_but_bitmap_fields(1))
qed (use assms in \<open>auto simp: kmalloc_early log_event_def\<close>)

lemma kmalloc_frame [frame_simps]:
  assumes "kmalloc_aligned s sz al = Inr (b, t)"
  shows "kernel_pmm t = kernel_pmm s \<and> kernel_vmm t = kernel_vmm s \<and> cr3 t = cr3 s \<and>
    (\<forall>x. \<not> (currentMode (kheap s) = Full \<and> in_bitset (bitmap (kernel_pmm s)) x) \<longrightarrow>
         kmem t x = kmem s x)"
proof (cases "currentMode (kheap s)")
  case Full
  with assms show ?thesis
    by (fastforce simp: kmalloc_full same_but_bitmap_def
        dest!: mark_crossed_page_same dest: same_but_bitmap_fields(2,3,4))
qed (use assms in \<open>auto simp: kmalloc_early log_event_def\<close>)

section \<open>The contract of a bump allocator\<close>

text \<open>A request of an alignment and a size as one argument, and the block as a number.\<close>

definition kmalloc_req :: "kstate \<Rightarrow> u64 \<times> u64 \<Rightarrow> kpanic + (nat \<times> kstate)" where
  "kmalloc_req s r = bind_r (kmalloc_aligned s (fst r) (snd r)) (\<lambda>(b, t). Inr (unat b, t))"

lemma kmalloc_admissible:
  assumes "kmalloc_aligned s sz al = Inr (b, t)"
    and "heap_cursor s \<le> heap_limit s" and "admissible_request (heap_limit s) sz al"
  shows "unat al dvd unat b" "heap_cursor s \<le> unat b" "heap_cursor t = unat b + unat sz"
    "heap_cursor t \<le> heap_limit t" "heap_limit t = heap_limit s"
    "unat b < heap_cursor s + unat al"
proof -
  from kmalloc_heap [OF assms(1)] have b: "al \<noteq> 0" "b = align_base (earlyAllocBase (kheap s)) al"
    "b + sz \<le> earlyAllocLimit (kheap s)" and t: "kheap t = (kheap s)\<lparr>earlyAllocBase := b + sz\<rparr>"
    by auto
  have room: "heap_cursor s + unat al \<le> 2 ^ 64"
    using assms(2,3) by (simp add: admissible_request_def)
  show al: "unat al dvd unat b" "heap_cursor s \<le> unat b" "unat b < heap_cursor s + unat al"
    using align_base_unat [OF b(1) room] by (auto simp: b(2))
  have "unat b + unat sz < 2 ^ 64"
    using al(3) assms(2,3) by (simp add: admissible_request_def)
  then show "heap_cursor t = unat b + unat sz" by (simp add: t unat_add_lt)
  show "heap_cursor t \<le> heap_limit t" "heap_limit t = heap_limit s"
    using b(3) by (simp_all add: t word_le_nat_alt)
qed

interpretation kmalloc: bump_allocator kmalloc_req heap_cursor heap_limit
  "\<lambda>r. unat (fst r)" "\<lambda>r. unat (snd r)" "\<lambda>lim r. admissible_request lim (fst r) (snd r)"
proof
  fix s t :: kstate and r b
  assume "heap_cursor s \<le> heap_limit s" "admissible_request (heap_limit s) (fst r) (snd r)"
    and "kmalloc_req s r = Inr (b, t)"
  then show "heap_cursor s \<le> b \<and> unat (snd r) dvd b \<and> b + unat (fst r) = heap_cursor t \<and>
      heap_cursor t \<le> heap_limit s \<and> heap_limit t = heap_limit s"
    using kmalloc_admissible [of s "fst r" "snd r"] by (auto simp: kmalloc_req_def res_simps)
qed

section \<open>Properties\<close>

text \<open>C4. The blocks of any sequence of \<open>kmalloc_aligned\<close> calls that succeeds are aligned as asked,
  lie between the heap's base and its limit, and do not overlap, as long as no request is so
  large that the limit plus it wraps around 64 bits.\<close>

theorem kmalloc_blocks_disjoint:
  assumes "heap_cursor s \<le> heap_limit s"
    and "\<forall>r \<in> set rs. admissible_request (heap_limit s) (fst r) (snd r)"
    and "alloc_all kmalloc_req s rs = Inr (bs, t)"
  shows "length bs = length rs \<and>
    (\<forall>i < length rs. heap_cursor s \<le> bs ! i \<and> bs ! i + unat (fst (rs ! i)) \<le> heap_limit s \<and>
       unat (snd (rs ! i)) dvd bs ! i) \<and>
    (\<forall>i j. i < j \<longrightarrow> j < length rs \<longrightarrow> bs ! i + unat (fst (rs ! i)) \<le> bs ! j)"
  using kmalloc.alloc_all_blocks [OF assms] kmalloc.alloc_all_disjoint [OF assms]
  by (auto intro: order_trans)

definition sample_heap :: "u64 \<Rightarrow> u64 \<Rightarrow> AllocMode \<Rightarrow> kstate" where
  "sample_heap base lim mode =
     \<lparr>kmem = (\<lambda>_. 0), kheap = \<lparr>earlyAllocBase = base, earlyAllocLimit = lim, currentMode = mode\<rparr>,
      kernel_pmm = pmm_initial\<lparr>bitmap := \<lparr>m_ptr = base, m_length = 0x1000\<rparr>\<rparr>,
      kernel_vmm = vmm_initial, cr3 = 0, if_flag = True, klog = []\<rparr>"

theorem kmalloc_blocks_disjoint_witness:
  "\<exists>bs t. alloc_all kmalloc_req (sample_heap 0x1004 0x8000 EarlyBoot) [(0x10, 8), (0x1000, 0x1000)] =
     Inr (bs, t) \<and> bs ! 0 + 0x10 \<le> bs ! 1"
proof -
  let ?s = "sample_heap 0x1004 0x8000 EarlyBoot" and ?rs = "[(0x10, 8), (0x1000, 0x1000)] :: (u64 \<times> u64) list"
  obtain bs t where run: "alloc_all kmalloc_req ?s ?rs = Inr (bs, t)"
    by (simp add: kmalloc_req_def kmalloc_aligned_def sample_heap_def align_base_def guard_def Let_def
        set_base_def log_event_def)
  have "heap_cursor ?s \<le> heap_limit ?s"
    and "\<forall>r \<in> set ?rs. admissible_request (heap_limit ?s) (fst r) (snd r)"
    by (simp_all add: sample_heap_def admissible_request_def)
  from kmalloc_blocks_disjoint [OF this run]
  have "bs ! 0 + unat (fst (?rs ! 0)) \<le> bs ! 1" by (elim conjE allE [of _ 0] allE [of _ 1]) simp
  with run show ?thesis by auto
qed

text \<open>The heap refuses to serve before it is initialised and when memory runs out, and serves
  every other request: the outcome of a call in early boot, for every state and every non-zero
  alignment, is decided by the sum of the aligned base and the size alone.\<close>

theorem kmalloc_early_outcome:
  assumes "currentMode (kheap s) = EarlyBoot" and "al \<noteq> 0"
  shows "kmalloc_aligned s sz al =
    (let b = align_base (earlyAllocBase (kheap s)) al
     in if b + sz \<le> earlyAllocLimit (kheap s)
        then Inr (b, log_event (set_base s (b + sz))
               (Log ''kmalloc'' ''alloc 0x%x bytes @ 0x%p'' [IntArg sz, IntArg b]))
        else Inl (Panic ''kmalloc(early): Ran out of memory!''))"
  using assms by (auto simp: kmalloc_aligned_def Let_def not_less guard_def)

theorem kmalloc_early_outcome_witness:
  "fst (projr (kmalloc_aligned (sample_heap 0x1004 0x8000 EarlyBoot) 0x10 8)) = 0x1008"
  using kmalloc_early_outcome [where s = "sample_heap 0x1004 0x8000 EarlyBoot" and al = 8 and sz = 16]
  by (simp add: sample_heap_def align_base_def Let_def)

text \<open>The sum that guards the heap's limit is not protected against wrap-around: a request of
  two gigabytes at an address of the kernel's own region passes the check, and the allocator's
  base then lies below the block it returned, at an address of the user half.\<close>

theorem kmalloc_wraps:
  assumes "currentMode (kheap s) = EarlyBoot"
    and "earlyAllocBase (kheap s) = KERNEL_VMB + 0x200000"
    and "earlyAllocLimit (kheap s) = KERNEL_VMB + 0x240000"
  shows "\<exists>t. kmalloc_aligned s 0x80000000 8 = Inr (KERNEL_VMB + 0x200000, t) \<and>
    earlyAllocBase (kheap t) = 0x200000"
  using assms
  by (auto simp: kmalloc_early KERNEL_VMB_def align_base_def log_event_def)

theorem kmalloc_wraps_witness:
  "\<exists>t. kmalloc_aligned (sample_heap (KERNEL_VMB + 0x200000) (KERNEL_VMB + 0x240000) EarlyBoot)
     0x80000000 8 = Inr (KERNEL_VMB + 0x200000, t) \<and> earlyAllocBase (kheap t) = 0x200000"
  by (rule kmalloc_wraps) (simp_all add: sample_heap_def)

text \<open>In full mode an allocation marks at most one physical page used, the one the new base
  lies in, so a block of more than two pages leaves its inner pages as they were: the physical
  allocator may hand them out again.  Interrupts are enabled afterwards, whatever they were.\<close>

theorem kmalloc_full_marks_one_page:
  assumes "currentMode (kheap s) = Full" and "kmalloc_aligned s sz al = Inr (b, t)"
  shows "if_flag t \<and> (\<forall>j. page_used t j \<longleftrightarrow> page_used s j \<or>
    page_of (earlyAllocBase (kheap s)) \<noteq> page_of (b + sz) \<and>
      j = (page_of (b + sz) - KERNEL_VMB) div 0x1000)"
proof -
  let ?s = "set_base (s\<lparr>if_flag := False\<rparr>) b"
  from assms(2) obtain u where u: "t = (set_base u (b + sz))\<lparr>if_flag := True\<rparr>"
      "mark_crossed_page ?s (earlyAllocBase (kheap s)) (b + sz) = Inr u"
    using kmalloc_full [OF assms(1), THEN iffD1, OF assms(2)] by blast
  have keep: "page_used t j = page_used u j" "page_used ?s j = page_used s j" for j
    by (simp_all add: page_used_def u(1))
  show ?thesis
  proof (cases "page_of (earlyAllocBase (kheap s)) = page_of (b + sz)")
    case True
    then show ?thesis using u by (auto simp: mark_crossed_page_def page_used_def)
  next
    case False
    then have "pmm_set ?s (page_of (b + sz) - KERNEL_VMB) = Inr u"
      using u(2) by (simp add: mark_crossed_page_def)
    from pmm_set_page_used [OF this] show ?thesis using False keep by (simp add: u(1) disj_commute)
  qed
qed

theorem kmalloc_full_marks_one_page_witness:
  "\<exists>t. kmalloc_aligned (sample_heap (KERNEL_VMB + 0x200800) (KERNEL_VMB + 0x240000) Full) 0x4000 8 =
     Inr (KERNEL_VMB + 0x200800, t) \<and> page_used t 0x204 \<and> \<not> page_used t 0x202"
proof -
  let ?s = "sample_heap (KERNEL_VMB + 0x200800) (KERNEL_VMB + 0x240000) Full"
  have "map_sum (\<lambda>e. e) fst (kmalloc_aligned ?s 0x4000 8) = Inr (KERNEL_VMB + 0x200800)" by code_simp
  then obtain t where run: "kmalloc_aligned ?s 0x4000 8 = Inr (KERNEL_VMB + 0x200800, t)"
    by (cases "kmalloc_aligned ?s 0x4000 8") auto
  have "\<not> page_used ?s j" for j by (simp add: page_used_def bitset_bit_def sample_heap_def)
  then show ?thesis
    using kmalloc_full_marks_one_page [OF _ run] run
    by (simp add: sample_heap_def page_of_def KERNEL_VMB_def)
qed

end
