(* ===== verification/Pmm.thy ===== *)
theory Pmm
  imports Kheap
begin

text \<open>
  The physical memory manager, src/lobo/mem/pmm.cpp: \<open>init\<close>, the first-fit search of \<open>allocate\<close>
  with the widths its counters have in the code, the statistics, and the properties of each.
  The operations on one page are in the theory of the kernel's state.
\<close>

section \<open>The code\<close>

lemma counter_step:
  "idx < n \<Longrightarrow> unat (n :: 'a::len word) - unat (idx + 1) < unat n - unat idx"
  by (simp add: unat_Suc_less) (simp add: word_less_nat_alt)

text \<open>The loop of \<open>init\<close>, a 64-bit counter.\<close>

function set_pages_from :: "kstate \<Rightarrow> u64 \<Rightarrow> kpanic + kstate" where
  "set_pages_from s i =
     (if i < m_numPages (kernel_pmm s)
      then bind_r (pmm_set s (i * 0x1000)) (\<lambda>t. set_pages_from t (i + 1))
      else Inr s)"
  by pat_completeness auto
termination
proof (relation "measure (\<lambda>(s, i). unat (m_numPages (kernel_pmm s)) - unat i)")
  fix s i t
  assume "i < m_numPages (kernel_pmm s)" "pmm_set s (i * 0x1000) = Inr t"
  then show "((t, i + 1), s, i) \<in> measure (\<lambda>(s, i). unat (m_numPages (kernel_pmm s)) - unat i)"
    using same_but_bitmap_fields(2) [OF pmm_set_same]
    by (simp add: unat_Suc_less) (simp add: word_less_nat_alt)
qed simp

definition pmm_init :: "kstate \<Rightarrow> u64 \<Rightarrow> kpanic + kstate" where
  "pmm_init s num =
     (if m_initialised (kernel_pmm s) then Inr s
      else
        let s = s\<lparr>kernel_pmm := (kernel_pmm s)\<lparr>m_numPages := num\<rparr>\<rparr> in
        bind_r (kmalloc s (m_numPages (kernel_pmm s) div 8 + 1)) (\<lambda>(block, s).
        let s = s\<lparr>kernel_pmm := (kernel_pmm s)\<lparr>bitmap :=
                  \<lparr>m_ptr = block, m_length = m_numPages (kernel_pmm s)\<rparr>\<rparr>\<rparr> in
        bind_r (set_pages_from s 0) (\<lambda>s.
        Inr (s\<lparr>kernel_pmm := (kernel_pmm s)\<lparr>m_initialised := True\<rparr>\<rparr>))))"

text \<open>
  The two inner loops of \<open>allocate\<close> count with an \<open>unsigned int\<close> up to a 64-bit bound, and the
  address \<open>checkIndex * 0x1000\<close> is a 32-bit product.  After \<open>2 ^ 32\<close> rounds the counter is back
  where it started: the first loop, which writes nothing, then repeats itself, and so does the
  second, which has then set every page it ever sets.  That is the fuel, and running out of it is
  exactly not returning.
\<close>

fun check_pages :: "nat \<Rightarrow> kstate \<Rightarrow> u32 \<Rightarrow> u64 \<Rightarrow> kpanic + bool" where
  "check_pages fuel s checkIndex bound =
     (if ucast checkIndex < bound
      then if fuel = 0 then Inl Diverges
           else bind_r (pmm_test s (ucast (checkIndex * 0x1000))) (\<lambda>used.
                if used then Inr False else check_pages (fuel - 1) s (checkIndex + 1) bound)
      else Inr True)"

fun mark_pages :: "nat \<Rightarrow> kstate \<Rightarrow> u32 \<Rightarrow> u64 \<Rightarrow> kpanic + kstate" where
  "mark_pages fuel s k bound =
     (if ucast k < bound
      then if fuel = 0 then Inl Diverges
           else bind_r (pmm_set s (ucast (k * 0x1000))) (\<lambda>t. mark_pages (fuel - 1) t (k + 1) bound)
      else Inr s)"

declare check_pages.simps [simp del] mark_pages.simps [simp del]

definition counter_period :: nat where "counter_period = 2 ^ 32"

function allocate_from :: "kstate \<Rightarrow> u64 \<Rightarrow> u64 \<Rightarrow> kpanic + (u64 \<times> kstate)" where
  "allocate_from s numContiguous idx =
     (if idx < m_numPages (kernel_pmm s) then
        let init_address = idx * 0x1000 in
        bind_r (pmm_test s init_address) (\<lambda>used.
        if \<not> used then
          if numContiguous \<le> 1 then bind_r (pmm_set s init_address) (\<lambda>t. Inr (init_address, t))
          else
            bind_r (check_pages counter_period s (ucast (idx + 1)) (idx + numContiguous)) (\<lambda>allWasFree.
            if allWasFree
            then bind_r (mark_pages counter_period s (ucast idx) (idx + numContiguous))
                   (\<lambda>t. Inr (init_address, t))
            else allocate_from s numContiguous (idx + 1))
        else allocate_from s numContiguous (idx + 1))
      else Inl (Panic ''PMM Out of Memory''))"
  by pat_completeness auto
termination
  by (relation "measure (\<lambda>(s, n, idx). unat (m_numPages (kernel_pmm s)) - unat idx)")
     (auto simp: counter_step)

declare set_pages_from.simps [simp del] allocate_from.simps [simp del]

text \<open>The panic's log call, made before the processor halts, is not part of the result.\<close>

definition pmm_allocate :: "kstate \<Rightarrow> u64 \<Rightarrow> kpanic + (u64 \<times> kstate)" where
  "pmm_allocate s numContiguous = allocate_from s numContiguous 0"

text \<open>The counting loop of the three statistics.\<close>

function count_free :: "kstate \<Rightarrow> u64 \<Rightarrow> u64 \<Rightarrow> kpanic + u64" where
  "count_free s i numFreePages =
     (if i < m_numPages (kernel_pmm s) then
        bind_r (pmm_test s (i * 0x1000)) (\<lambda>used.
        count_free s (i + 1) (if \<not> used then numFreePages + 1 else numFreePages))
      else Inr numFreePages)"
  by pat_completeness auto
termination
  by (relation "measure (\<lambda>(s, i, n). unat (m_numPages (kernel_pmm s)) - unat i)")
     (auto simp: counter_step)

declare count_free.simps [simp del]

definition usage_lines :: "u64 \<Rightarrow> u64 \<Rightarrow> u64 \<Rightarrow> log_call list" where
  "usage_lines numFree used lim =
     [Log ''pmm'' ''%d/%d pages free'' [IntArg numFree, IntArg lim],
      Log ''pmm'' ''Used %dKB / %dKB of memory (%dMB / %dMB)''
        [IntArg (used * 4), IntArg (lim * 4), IntArg (used * 4 div 1024), IntArg (lim * 4 div 1024)]]"

definition debug_print_free_pages :: "kstate \<Rightarrow> kpanic + kstate" where
  "debug_print_free_pages s =
     bind_r (count_free s 0 0) (\<lambda>numFreePages.
     let pagesUsed = m_numPages (kernel_pmm s) - numFreePages
     in Inr (fold (\<lambda>c s. log_event s c) (usage_lines numFreePages pagesUsed (m_numPages (kernel_pmm s))) s))"

definition debug_print_free_memory :: "kstate \<Rightarrow> kpanic + kstate" where
  "debug_print_free_memory s =
     bind_r (count_free s 0 0) (\<lambda>numFreePages.
     let p = kernel_pmm s; pagesUsed = m_numPages p - numFreePages - m_nonMemoryBackedPages p;
         pageLimit = m_maxFreePages p
     in Inr (fold (\<lambda>c s. log_event s c) (usage_lines numFreePages pagesUsed pageLimit) s))"

text \<open>The loop of \<open>set_free_memory\<close> counts the free pages and adds the used ones to the member.\<close>

function split_pages :: "kstate \<Rightarrow> u64 \<Rightarrow> u64 \<Rightarrow> kpanic + (u64 \<times> kstate)" where
  "split_pages s i numFreePages =
     (if i < m_numPages (kernel_pmm s) then
        bind_r (pmm_test s (i * 0x1000)) (\<lambda>used.
        if \<not> used then split_pages s (i + 1) (numFreePages + 1)
        else split_pages
          (s\<lparr>kernel_pmm := (kernel_pmm s)\<lparr>m_nonMemoryBackedPages :=
               m_nonMemoryBackedPages (kernel_pmm s) + 1\<rparr>\<rparr>) (i + 1) numFreePages)
      else Inr (numFreePages, s))"
  by pat_completeness auto
termination
  by (relation "measure (\<lambda>(s, i, n). unat (m_numPages (kernel_pmm s)) - unat i)")
     (auto simp: counter_step)

declare split_pages.simps [simp del]

definition set_free_memory :: "kstate \<Rightarrow> kpanic + kstate" where
  "set_free_memory s = bind_r (split_pages s 0 0) (\<lambda>(numFreePages, s).
     Inr (s\<lparr>kernel_pmm := (kernel_pmm s)\<lparr>m_maxFreePages := numFreePages\<rparr>\<rparr>))"

section \<open>The bitmap after \<open>init\<close>\<close>

text \<open>The manager's objects agree: the bitmap has one bit per page and the pages fit in 64 bits.\<close>

definition pmm_sized :: "kstate \<Rightarrow> bool" where
  "pmm_sized s \<longleftrightarrow> m_numPages (kernel_pmm s) = num_bits s \<and> num_bits s \<le> 2 ^ 52"

lemma pmm_sized_page:
  assumes "pmm_sized s" and "i < num_bits s"
  shows "i * 0x1000 div 0x1000 = i"
  using assms by (intro page_number) (auto simp: pmm_sized_def intro: less_le_trans)

lemma pmm_sized_same: "same_but_bitmap s t \<Longrightarrow> pmm_sized t \<longleftrightarrow> pmm_sized s"
  by (simp add: pmm_sized_def same_but_bitmap_fields(2))

lemma pmm_sized_test:
  "pmm_sized s \<Longrightarrow> i < num_bits s \<Longrightarrow> pmm_test s (i * 0x1000) = Inr (page_used s i)"
  by (simp add: pmm_test_eq pmm_sized_page)

lemma pmm_sized_set:
  assumes "pmm_sized s" and "i < num_bits s"
  obtains t where "pmm_set s (i * 0x1000) = Inr t" "same_but_bitmap s t"
    "\<And>j. page_used t j \<longleftrightarrow> j = i \<or> page_used s j"
  using assms by (cases rule: pmm_set_cases [of "i * 0x1000" s]) (auto simp: pmm_sized_page)

lemma set_pages_from_all:
  "pmm_sized s \<Longrightarrow> \<exists>t. set_pages_from s i = Inr t \<and> same_but_bitmap s t \<and>
     (\<forall>j < num_bits s. page_used t j \<longleftrightarrow> i \<le> j \<or> page_used s j)"
proof (induction s i rule: set_pages_from.induct)
  case (1 s i)
  show ?case
  proof (cases "i < num_bits s")
    case False
    then show ?thesis using 1(2) by (auto simp: set_pages_from.simps [of s i] pmm_sized_def)
  next
    case True
    have n: "m_numPages (kernel_pmm s) = num_bits s" using 1(2) by (simp add: pmm_sized_def)
    obtain t where t: "pmm_set s (i * 0x1000) = Inr t" "same_but_bitmap s t"
        "\<And>j. page_used t j \<longleftrightarrow> j = i \<or> page_used s j"
      using pmm_sized_set [OF 1(2) True] by blast
    have "i < m_numPages (kernel_pmm s)" using True n by simp
    from 1(1) [OF this t(1)] obtain u where u: "set_pages_from t (i + 1) = Inr u" "same_but_bitmap t u"
        "\<forall>j < num_bits s. page_used u j \<longleftrightarrow> i + 1 \<le> j \<or> page_used t j"
      using 1(2) t(2) by (auto simp: pmm_sized_same same_but_bitmap_fields(2))
    have "i + 1 \<le> j \<or> j = i \<longleftrightarrow> i \<le> j" if "j < num_bits s" for j
      using True unat_Suc_less [OF True] by (auto simp: word_le_nat_alt word_unat_eq_iff)
    then show ?thesis
      using t u True n same_but_bitmap_trans [OF t(2) u(2)]
      by (auto simp: set_pages_from.simps [of s i])
  qed
qed

lemma pmm_init_run:
  assumes "\<not> m_initialised (kernel_pmm s)" and "num \<le> 2 ^ 52"
    and "currentMode (kheap s) = EarlyBoot"
    and "block = align_base (earlyAllocBase (kheap s)) 8"
    and "block + (num div 8 + 1) \<le> earlyAllocLimit (kheap s)"
  obtains t where "pmm_init s num = Inr t"
    "kernel_pmm t = (kernel_pmm s)\<lparr>m_numPages := num, bitmap := \<lparr>m_ptr = block, m_length = num\<rparr>, m_initialised := True\<rparr>"
    "kheap t = (kheap s)\<lparr>earlyAllocBase := block + (num div 8 + 1)\<rparr>" "kernel_vmm t = kernel_vmm s" "cr3 t = cr3 s"
    "\<And>i. i < num \<Longrightarrow> page_used t i"
    "\<And>x. \<not> in_range x block (unat (num div 8 + 1)) \<Longrightarrow> kmem t x = kmem s x"
    "\<And>x. in_bitset (bitmap (kernel_pmm t)) x \<Longrightarrow> in_range x block (unat (num div 8 + 1))"
proof -
  let ?s1 = "s\<lparr>kernel_pmm := (kernel_pmm s)\<lparr>m_numPages := num\<rparr>\<rparr>"
  obtain s2 where s2: "kmalloc ?s1 (num div 8 + 1) = Inr (block, s2)"
    using assms(3-5) by (simp add: kmalloc_def kmalloc_early)
  let ?s3 = "s2\<lparr>kernel_pmm := (kernel_pmm s2)\<lparr>bitmap := \<lparr>m_ptr = block, m_length = num\<rparr>\<rparr>\<rparr>"
  have frame: "kernel_pmm s2 = kernel_pmm ?s1" "kernel_vmm s2 = kernel_vmm s" "cr3 s2 = cr3 s" "\<And>x. kmem s2 x = kmem s x"
    using kmalloc_frame [OF s2 [unfolded kmalloc_def]] assms(3) by auto
  have heap: "kheap s2 = (kheap s)\<lparr>earlyAllocBase := block + (num div 8 + 1)\<rparr>"
    using kmalloc_heap [OF s2 [unfolded kmalloc_def]] by simp
  have "pmm_sized ?s3" using assms(2) frame by (simp add: pmm_sized_def)
  from set_pages_from_all [OF this, of 0] obtain t where t: "set_pages_from ?s3 0 = Inr t"
      "same_but_bitmap ?s3 t" "\<forall>j < num. page_used t j"
    by auto
  have bytes: "unat (num div 8) + 1 = unat (num div 8 + 1)"
  proof -
    have "num div 8 \<le> num" by (simp add: word_le_nat_alt unat_div)
    then have "unat (num div 8) \<le> 2 ^ 52" using assms(2) by (simp add: word_le_nat_alt)
    then show ?thesis by (subst unat_add_lt) simp_all
  qed
  note p = same_but_bitmap_fields [OF t(2)]
  show thesis
  proof (rule that [of "t\<lparr>kernel_pmm := (kernel_pmm t)\<lparr>m_initialised := True\<rparr>\<rparr>"])
    show "pmm_init s num = Inr (t\<lparr>kernel_pmm := (kernel_pmm t)\<lparr>m_initialised := True\<rparr>\<rparr>)"
      using assms(1) s2 t(1) frame(1) by (simp add: pmm_init_def Let_def)
    show "page_used (t\<lparr>kernel_pmm := (kernel_pmm t)\<lparr>m_initialised := True\<rparr>\<rparr>) i" if "i < num" for i
      using t(3) that by (simp add: page_used_def)
    show "kmem (t\<lparr>kernel_pmm := (kernel_pmm t)\<lparr>m_initialised := True\<rparr>\<rparr>) x = kmem s x"
      if "\<not> in_range x block (unat (num div 8 + 1))" for x
    proof -
      have "\<not> in_bitset (bitmap (kernel_pmm ?s3)) x" using that by (simp add: in_bitset_def flip: bytes)
      then show ?thesis using t(2) frame(4) by (auto simp: same_but_bitmap_def)
    qed
  qed (simp_all add: p frame heap in_bitset_def flip: bytes)
qed

text \<open>C7. Initialising the manager for a number of pages leaves every page marked used (memory is
  released explicitly afterwards), with a bitmap of exactly one bit per page in memory the heap
  handed out; a second call changes nothing.\<close>

theorem pmm_init_all_used:
  assumes "\<not> m_initialised (kernel_pmm s)" and "num \<le> 2 ^ 52"
    and "currentMode (kheap s) = EarlyBoot"
    and "block = align_base (earlyAllocBase (kheap s)) 8"
    and "block + (num div 8 + 1) \<le> earlyAllocLimit (kheap s)"
  shows "\<exists>t. pmm_init s num = Inr t \<and> bitmap (kernel_pmm t) = \<lparr>m_ptr = block, m_length = num\<rparr> \<and>
    (\<forall>i < num. pmm_test t (i * 0x1000) = Inr True) \<and> pmm_init t num = Inr t \<and>
    (\<forall>x. \<not> in_range x block (unat (num div 8 + 1)) \<longrightarrow> kmem t x = kmem s x)"
proof -
  obtain t where t: "pmm_init s num = Inr t"
      "kernel_pmm t = (kernel_pmm s)\<lparr>m_numPages := num, bitmap := \<lparr>m_ptr = block, m_length = num\<rparr>, m_initialised := True\<rparr>"
      "\<And>i. i < num \<Longrightarrow> page_used t i" "\<And>x. \<not> in_range x block (unat (num div 8 + 1)) \<Longrightarrow> kmem t x = kmem s x"
    using pmm_init_run [OF assms] by metis
  have "i * 0x1000 div 0x1000 = i" if "i < num" for i using that assms(2) by (intro page_number) simp
  then show ?thesis using t by (auto simp: pmm_test_eq pmm_init_def)
qed

theorem pmm_init_all_used_witness:
  "\<exists>t. pmm_init (sample_heap 0x1000 0x8000 EarlyBoot) 0x200 = Inr t \<and> pmm_test t 0x5000 = Inr True"
  using pmm_init_all_used [of "sample_heap 0x1000 0x8000 EarlyBoot" 512 4096]
  by (auto simp: sample_heap_def pmm_initial_def align_base_def dest: spec [of _ 5])

section \<open>First fit\<close>

text \<open>Pages by number, and a run of \<open>n\<close> free pages of the managed range.\<close>

definition used :: "kstate \<Rightarrow> nat \<Rightarrow> bool" where
  "used s j \<longleftrightarrow> page_used s (of_nat j)"

definition free_run :: "kstate \<Rightarrow> nat \<Rightarrow> nat \<Rightarrow> bool" where
  "free_run s i n \<longleftrightarrow> i + n \<le> unat (num_bits s) \<and> (\<forall>j < n. \<not> used s (i + j))"

text \<open>Less than 4 GiB of memory: page numbers times the page size fit the 32-bit product.\<close>

definition pmm_below_4g :: "kstate \<Rightarrow> bool" where
  "pmm_below_4g s \<longleftrightarrow> m_numPages (kernel_pmm s) = num_bits s \<and> unat (num_bits s) < 2 ^ 20"

lemma pmm_below_4g_sized: "pmm_below_4g s \<Longrightarrow> pmm_sized s"
  by (simp add: pmm_below_4g_def pmm_sized_def word_le_nat_alt)

lemma pmm_below_4g_same: "same_but_bitmap s t \<Longrightarrow> pmm_below_4g t \<longleftrightarrow> pmm_below_4g s"
  by (simp add: pmm_below_4g_def same_but_bitmap_fields(2))

lemma page_address_32:
  assumes "unat ci < 2 ^ 20"
  shows "ucast ((ci :: u32) * 0x1000) = (of_nat (unat ci) * 0x1000 :: u64)"
  using assms by (simp add: word_unat_eq_iff unat_word_ariths unat_ucast_up)

lemma page_index_32:
  assumes "unat ci < 2 ^ 20"
  shows "ucast ((ci :: u32) * 0x1000) div 0x1000 = (of_nat (unat ci) :: u64)"
  using assms by (simp add: page_address_32 page_number word_less_nat_alt unat_ucast_up)

lemma test_page_32:
  assumes "unat ci < 2 ^ 20"
  shows "pmm_test s (ucast ((ci :: u32) * 0x1000)) =
    (if unat ci < unat (num_bits s) then Inr (used s (unat ci)) else Inl Assertion_failed)"
  using assms by (simp add: pmm_test_eq page_index_32 used_def word_less_nat_alt unat_ucast_up)

lemma check_pages_eq:
  assumes "pmm_below_4g s" and "unat ci \<le> unat (num_bits s)" and "unat (num_bits s) < unat ci + fuel"
  shows "check_pages fuel s ci bound =
    (if \<exists>j. unat ci \<le> j \<and> j < unat bound \<and> j < unat (num_bits s) \<and> used s j then Inr False
     else if unat bound \<le> unat (num_bits s) then Inr True else Inl Assertion_failed)"
  using assms
proof (induction fuel s ci bound rule: check_pages.induct)
  case (1 fuel s ci bound)
  let ?N = "unat (num_bits s)"
  have small: "unat ci < 2 ^ 20" using 1(2,3) by (simp add: pmm_below_4g_def)
  have lt: "ucast ci < bound \<longleftrightarrow> unat ci < unat bound" by (simp add: word_less_nat_alt unat_ucast_up)
  show ?case
  proof (cases "unat ci < unat bound \<and> unat ci < ?N \<and> \<not> used s (unat ci)")
    case False
    then show ?thesis
      using 1(3,4) test_page_32 [OF small, of s] le_eq_less_or_eq [of "unat ci" "?N"]
      by (subst check_pages.simps) (auto simp: lt)
  next
    case True
    have suc: "unat (ci + 1) = Suc (unat ci)" using small by (subst unat_add_lt) simp_all
    have rest: "check_pages fuel s ci bound = check_pages (fuel - 1) s (ci + 1) bound"
      using True 1(4) test_page_32 [OF small, of s] by (subst check_pages.simps) (auto simp: lt)
    have "(\<exists>j. Suc (unat ci) \<le> j \<and> j < unat bound \<and> j < ?N \<and> used s j) \<longleftrightarrow>
        (\<exists>j. unat ci \<le> j \<and> j < unat bound \<and> j < ?N \<and> used s j)"
      using True by (metis Suc_leD Suc_leI le_neq_implies_less)
    moreover have "check_pages (fuel - 1) s (ci + 1) bound =
      (if \<exists>j. unat (ci + 1) \<le> j \<and> j < unat bound \<and> j < ?N \<and> used s j then Inr False
       else if unat bound \<le> ?N then Inr True else Inl Assertion_failed)"
      using True 1(2-4) test_page_32 [OF small, of s]
      by (intro 1(1)) (auto simp: lt suc)
    ultimately show ?thesis by (simp add: rest suc)
  qed
qed

lemma mark_pages_eq:
  assumes "pmm_below_4g s" and "unat bound \<le> unat (num_bits s)" and "unat bound \<le> unat k + fuel"
  shows "\<exists>t. mark_pages fuel s k bound = Inr t \<and> same_but_bitmap s t \<and>
    (\<forall>j < 2 ^ 64. used t j \<longleftrightarrow> unat k \<le> j \<and> j < unat bound \<or> used s j)"
  using assms
proof (induction fuel s k bound rule: mark_pages.induct)
  case (1 fuel s k bound)
  have lt: "ucast k < bound \<longleftrightarrow> unat k < unat bound" by (simp add: word_less_nat_alt unat_ucast_up)
  show ?case
  proof (cases "unat k < unat bound")
    case False
    then show ?thesis by (subst mark_pages.simps) (auto simp: lt)
  next
    case True
    then have small: "unat k < 2 ^ 20" using 1(2,3) by (simp add: pmm_below_4g_def)
    have suc: "unat (k + 1) = Suc (unat k)" using small by (subst unat_add_lt) simp_all
    have pg: "ucast (k * 0x1000) div 0x1000 = (of_nat (unat k) :: u64)"
      using page_index_32 [OF small] .
    have "of_nat (unat k) < num_bits s"
      using True 1(3) by (simp add: word_less_nat_alt unat_ucast_up)
    then obtain t where t: "pmm_set s (ucast (k * 0x1000)) = Inr t" "same_but_bitmap s t"
        "\<And>j. page_used t j \<longleftrightarrow> j = of_nat (unat k) \<or> page_used s j"
      by (cases rule: pmm_set_cases [of "ucast (k * 0x1000)" s]) (auto simp: pg)
    have fuel: "fuel \<noteq> 0" using True 1(4) by simp
    have "\<exists>u. mark_pages (fuel - 1) t (k + 1) bound = Inr u \<and> same_but_bitmap t u \<and>
        (\<forall>j < 2 ^ 64. used u j \<longleftrightarrow> unat (k + 1) \<le> j \<and> j < unat bound \<or> used t j)"
      using True 1(2-4) t same_but_bitmap_fields(2) [OF t(2)] fuel
      by (intro 1(1)) (auto simp: lt suc pmm_below_4g_def)
    then obtain u where u: "mark_pages (fuel - 1) t (k + 1) bound = Inr u" "same_but_bitmap t u"
        "\<forall>j < 2 ^ 64. used u j \<longleftrightarrow> Suc (unat k) \<le> j \<and> j < unat bound \<or> used t j"
      unfolding suc by blast
    have "used t j \<longleftrightarrow> j = unat k \<or> used s j" if "j < 2 ^ 64" for j
      using that t(3) by (auto simp: used_def word_unat_eq_iff unat_of_nat unat_ucast_up)
    then have "\<forall>j < 2 ^ 64. used u j \<longleftrightarrow> unat k \<le> j \<and> j < unat bound \<or> used s j"
      using u(3) True by (auto simp: Suc_le_eq le_less)
    then show ?thesis
      using True fuel t(1) u(1) same_but_bitmap_trans [OF t(2) u(2)]
      by (subst mark_pages.simps) (auto simp: lt)
  qed
qed

text \<open>What the search promises from page \<open>i\<close> on: the first run, or which failure stops it.\<close>

definition found_run :: "kstate \<Rightarrow> nat \<Rightarrow> nat \<Rightarrow> nat \<Rightarrow> kstate \<Rightarrow> bool" where
  "found_run s n i k t \<longleftrightarrow> i \<le> k \<and> free_run s k n \<and> (\<forall>l. i \<le> l \<and> l < k \<longrightarrow> \<not> free_run s l n) \<and>
     same_but_bitmap s t \<and> (\<forall>j < 2 ^ 64. used t j \<longleftrightarrow> k \<le> j \<and> j < k + n \<or> used s j)"

definition search_error :: "kstate \<Rightarrow> nat \<Rightarrow> nat \<Rightarrow> kpanic" where
  "search_error s n i =
     (if 1 < n \<and> i < unat (num_bits s) \<and> \<not> used s (unat (num_bits s) - 1)
      then Assertion_failed else Panic ''PMM Out of Memory'')"

definition search_result :: "kstate \<Rightarrow> nat \<Rightarrow> nat \<Rightarrow> kpanic + (u64 \<times> kstate) \<Rightarrow> bool" where
  "search_result s n i r \<longleftrightarrow>
     (\<exists>k t. r = Inr (of_nat k * 0x1000, t) \<and> found_run s n i k t) \<or>
     (\<forall>l \<ge> i. \<not> free_run s l n) \<and> r = Inl (search_error s n i)"

lemma search_result_skip:
  assumes "search_result s n (Suc i) r" and "\<not> free_run s i n"
    and "Suc i = unat (num_bits s) \<longrightarrow> 1 < n \<longrightarrow> used s i"
  shows "search_result s n i r"
proof -
  have *: "i \<le> l \<longleftrightarrow> l = i \<or> Suc i \<le> l" for l by auto
  have "found_run s n (Suc i) k t \<Longrightarrow> found_run s n i k t" for k t
    using assms(2) by (auto simp: found_run_def *)
  moreover have "\<forall>l \<ge> Suc i. \<not> free_run s l n \<Longrightarrow> \<forall>l \<ge> i. \<not> free_run s l n"
    using assms(2) by (auto simp: *)
  moreover have "search_error s n (Suc i) = search_error s n i"
  proof (cases "Suc i = unat (num_bits s)")
    case True
    then have "unat (num_bits s) - 1 = i" by simp
    then show ?thesis using True assms(3) by (auto simp: search_error_def)
  qed (auto simp: search_error_def)
  ultimately show ?thesis using assms(1) unfolding search_result_def by metis
qed

lemma search_result_here:
  assumes "free_run s i n" and "same_but_bitmap s t"
    and "\<forall>j < 2 ^ 64. used t j \<longleftrightarrow> i \<le> j \<and> j < i + n \<or> used s j"
  shows "search_result s n i (Inr (of_nat i * 0x1000, t))"
  using assms by (auto simp: search_result_def found_run_def)

text \<open>The check that follows a free page, for a run of \<open>n\<close>.\<close>

lemma check_run:
  assumes "pmm_below_4g s" and "idx < num_bits s" and "unat n < 2 ^ 63"
  shows "check_pages counter_period s (ucast (idx + 1)) (idx + n) =
    (if \<exists>j. Suc (unat idx) \<le> j \<and> j < unat idx + unat n \<and> j < unat (num_bits s) \<and> used s j then Inr False
     else if unat idx + unat n \<le> unat (num_bits s) then Inr True else Inl Assertion_failed)"
    "unat (idx + n) = unat idx + unat n" "unat idx < 2 ^ 20"
proof -
  have i: "unat idx < unat (num_bits s)" using assms(2) by (simp add: word_less_nat_alt)
  have small: "unat (num_bits s) < 2 ^ 20" using assms(1) by (simp add: pmm_below_4g_def)
  then show "unat idx < 2 ^ 20" using i by simp
  show bound: "unat (idx + n) = unat idx + unat n" using i small assms(3) by (intro unat_add_lt) simp
  have ci: "unat (ucast (idx + 1) :: u32) = Suc (unat idx)"
    using i small unat_Suc_less [OF assms(2)] by (simp add: unat_ucast_mod)
  show "check_pages counter_period s (ucast (idx + 1)) (idx + n) =
    (if \<exists>j. Suc (unat idx) \<le> j \<and> j < unat idx + unat n \<and> j < unat (num_bits s) \<and> used s j then Inr False
     else if unat idx + unat n \<le> unat (num_bits s) then Inr True else Inl Assertion_failed)"
    using i small unfolding counter_period_def
    by (subst check_pages_eq [OF assms(1)]) (simp_all only: ci bound, simp_all)
qed

text \<open>The four ways the search goes on at a page in range.\<close>

lemma allocate_from_page:
  assumes "pmm_below_4g s" and "idx < num_bits s" and "1 \<le> n"
  shows "allocate_from s n idx =
    (if used s (unat idx) then allocate_from s n (idx + 1)
     else if n = 1 then bind_r (pmm_set s (idx * 0x1000)) (\<lambda>t. Inr (idx * 0x1000, t))
     else bind_r (check_pages counter_period s (ucast (idx + 1)) (idx + n)) (\<lambda>ok.
       if ok then bind_r (mark_pages counter_period s (ucast idx) (idx + n)) (\<lambda>t. Inr (idx * 0x1000, t))
       else allocate_from s n (idx + 1)))"
proof -
  have "m_numPages (kernel_pmm s) = num_bits s" using assms(1) by (simp add: pmm_below_4g_def)
  moreover have "pmm_test s (idx * 0x1000) = Inr (used s (unat idx))"
    using pmm_sized_test [OF pmm_below_4g_sized [OF assms(1)] assms(2)] by (simp add: used_def)
  moreover have "n \<le> 1 \<longleftrightarrow> n = 1" using assms(3) by auto
  ultimately show ?thesis using assms(2) by (subst allocate_from.simps) (simp add: Let_def)
qed

lemma allocate_one_here:
  assumes "pmm_below_4g s" and i: "idx < num_bits s" and free: "\<not> used s (unat idx)"
  shows "search_result s 1 (unat idx) (allocate_from s 1 idx)"
proof -
  obtain t where t: "pmm_set s (idx * 0x1000) = Inr t" "same_but_bitmap s t" "\<And>j. page_used t j \<longleftrightarrow> j = idx \<or> page_used s j"
    using pmm_sized_set [OF pmm_below_4g_sized [OF assms(1)] i] by blast
  have "\<forall>j < 2 ^ 64. used t j \<longleftrightarrow> unat idx \<le> j \<and> j < unat idx + 1 \<or> used s j"
    using t(3) by (auto simp: used_def word_unat_eq_iff unat_of_nat)
  moreover have "free_run s (unat idx) 1" using free i by (simp add: free_run_def word_less_nat_alt)
  ultimately show ?thesis
    using search_result_here [of s "unat idx" 1 t] free t(1,2) by (simp add: allocate_from_page [OF assms(1) i])
qed

lemma allocate_run_here:
  assumes "pmm_below_4g s" and i: "idx < num_bits s" and n: "1 \<le> n" "n \<noteq> 1" "unat n < 2 ^ 63" and free: "\<not> used s (unat idx)"
    and check: "check_pages counter_period s (ucast (idx + 1)) (idx + n) = Inr True"
  shows "search_result s (unat n) (unat idx) (allocate_from s n idx)"
proof -
  note c = check_run [OF assms(1) i n(3)]
  have le: "unat idx + unat n \<le> unat (num_bits s)"
    and all: "\<not> (\<exists>j. Suc (unat idx) \<le> j \<and> j < unat idx + unat n \<and> j < unat (num_bits s) \<and> used s j)"
    using check unfolding c(1) by (auto split: if_splits)
  have run: "free_run s (unat idx) (unat n)"
    unfolding free_run_def
  proof (intro conjI allI impI)
    fix j assume "j < unat n"
    then show "\<not> used s (unat idx + j)" using all free le by (cases j) auto
  qed (rule le)
  obtain t where "mark_pages counter_period s (ucast idx) (idx + n) = Inr t"
      "same_but_bitmap s t" "\<forall>j < 2 ^ 64. used t j \<longleftrightarrow> unat idx \<le> j \<and> j < unat idx + unat n \<or> used s j"
    using mark_pages_eq [OF assms(1), of "idx + n" "ucast idx" counter_period] le c(3) assms(1)
    by (auto simp: c(2) unat_ucast_mod counter_period_def pmm_below_4g_def)
  then show ?thesis
    using search_result_here [OF run] free n(2) check by (simp add: allocate_from_page [OF assms(1) i n(1)])
qed

lemma allocate_over_here:
  assumes "pmm_below_4g s" and i: "idx < num_bits s" and n: "1 \<le> n" "n \<noteq> 1" "unat n < 2 ^ 63" and free: "\<not> used s (unat idx)"
    and check: "check_pages counter_period s (ucast (idx + 1)) (idx + n) = Inl Assertion_failed"
  shows "search_result s (unat n) (unat idx) (allocate_from s n idx)"
proof -
  let ?N = "unat (num_bits s)" and ?i = "unat idx"
  have le: "\<not> ?i + unat n \<le> ?N" and all: "\<not> (\<exists>j. Suc ?i \<le> j \<and> j < ?i + unat n \<and> j < ?N \<and> used s j)"
    using check unfolding check_run [OF assms(1) i n(3)] by (auto split: if_splits)
  have lt: "?i < ?N" using i by (simp add: word_less_nat_alt)
  have "\<not> used s (?N - 1)" using all free lt le by (cases "?N - 1 = ?i") auto
  then have "search_error s (unat n) ?i = Assertion_failed" using lt le by (simp add: search_error_def)
  moreover have "\<forall>l \<ge> ?i. \<not> free_run s l (unat n)" using le by (auto simp: free_run_def)
  ultimately show ?thesis
    using free n(2) check by (simp add: allocate_from_page [OF assms(1) i n(1)] search_result_def)
qed

lemma allocate_from_search:
  assumes "pmm_below_4g s" and "1 \<le> n" and "unat n < 2 ^ 63"
  shows "search_result s (unat n) (unat idx) (allocate_from s n idx)"
proof (induction "unat (num_bits s) - unat idx" arbitrary: idx rule: less_induct)
  case (less idx)
  let ?N = "unat (num_bits s)" and ?i = "unat idx" and ?n = "unat n"
  let ?check = "check_pages counter_period s (ucast (idx + 1)) (idx + n)"
  have n: "1 \<le> ?n" using assms(2) by (simp add: word_le_nat_alt)
  show ?case
  proof (cases "idx < num_bits s")
    case False
    then have "?N \<le> ?i" "m_numPages (kernel_pmm s) = num_bits s" using assms(1) by (simp_all add: word_less_nat_alt pmm_below_4g_def)
    then show ?thesis using n False
      by (subst allocate_from.simps) (auto simp: search_result_def search_error_def free_run_def)
  next
    case True
    have suc: "unat (idx + 1) = Suc ?i" using True by (rule unat_Suc_less)
    have rest: "search_result s ?n (Suc ?i) (allocate_from s n (idx + 1))"
      using less [of "idx + 1"] True by (simp add: suc word_less_nat_alt)
    note check = check_run(1) [OF assms(1) True assms(3)] and page = allocate_from_page [OF assms(1) True assms(2)]
    consider (used) "used s ?i" | (one) "\<not> used s ?i" "n = 1" | (blocked) "\<not> used s ?i" "n \<noteq> 1" "?check = Inr False"
      | (fits) "\<not> used s ?i" "n \<noteq> 1" "?check = Inr True" | (over) "\<not> used s ?i" "n \<noteq> 1" "?check = Inl Assertion_failed"
      using check by metis
    then show ?thesis
    proof cases
      case used
      have "\<not> free_run s ?i ?n" using used n by (auto simp: free_run_def intro!: exI [of _ 0])
      then show ?thesis using search_result_skip [OF rest] used by (simp add: page)
    next
      case one
      then show ?thesis using allocate_one_here [OF assms(1) True] by simp
    next
      case blocked
      then obtain j where j: "Suc ?i \<le> j" "j < ?i + ?n" "j < ?N" "used s j" using check by (auto split: if_splits)
      then have "\<not> free_run s ?i ?n" by (auto simp: free_run_def intro!: exI [of _ "j - ?i"])
      moreover have "Suc ?i \<noteq> ?N" using j by linarith
      ultimately show ?thesis using search_result_skip [OF rest] blocked by (simp add: page)
    next
      case fits
      then show ?thesis using allocate_run_here [OF assms(1) True assms(2) _ assms(3)] by blast
    next
      case over
      then show ?thesis using allocate_over_here [OF assms(1) True assms(2) _ assms(3)] by blast
    qed
  qed
qed


section \<open>Properties of the allocator\<close>

lemma pmm_allocate_run:
  assumes "pmm_below_4g s" and "1 \<le> n" and "unat n < 2 ^ 63" and "pmm_allocate s n = Inr (a, t)"
  obtains k where "a = of_nat k * 0x1000" "unat (a div 0x1000) = k" "free_run s k (unat n)"
    "\<And>l. l < k \<Longrightarrow> \<not> free_run s l (unat n)" "same_but_bitmap s t"
    "\<And>j. j < 2 ^ 64 \<Longrightarrow> used t j \<longleftrightarrow> k \<le> j \<and> j < k + unat n \<or> used s j"
proof -
  from allocate_from_search [OF assms(1-3), of 0] assms(4) obtain k where
      k: "a = of_nat k * 0x1000" "found_run s (unat n) 0 k t"
    by (auto simp: pmm_allocate_def search_result_def)
  then have "k < 2 ^ 20" using assms(1) by (simp add: found_run_def free_run_def pmm_below_4g_def)
  then have "unat (a div 0x1000) = k"
    using page_number [of "of_nat k"] by (simp add: k(1) word_less_nat_alt unat_of_nat)
  then show thesis using k that by (auto simp: found_run_def)
qed

text \<open>C3. With less than 4 GiB of memory, \<open>allocate(n)\<close> is first fit: when the bitmap has a run of
  \<open>n\<close> free pages it returns the address of the lowest one and marks exactly its pages used; when it
  has none it panics, and the panic is a failed assertion of the bitset, not the out-of-memory
  report, exactly when more than one page was asked for and the last page is free, since the check
  of the pages that follow then runs past the end of the bitmap.\<close>

theorem pmm_allocate_first_fit:
  assumes "pmm_below_4g s" and "1 \<le> n" and "unat n < 2 ^ 63"
  shows "case pmm_allocate s n of
      Inr (a, t) \<Rightarrow> (\<exists>k. a = of_nat k * 0x1000 \<and> free_run s k (unat n) \<and>
        (\<forall>l < k. \<not> free_run s l (unat n)) \<and> same_but_bitmap s t \<and>
        (\<forall>j < 2 ^ 64. used t j \<longleftrightarrow> k \<le> j \<and> j < k + unat n \<or> used s j))
    | Inl e \<Rightarrow> (\<forall>l. \<not> free_run s l (unat n)) \<and>
        (e = (if 1 < unat n \<and> 0 < unat (num_bits s) \<and> \<not> used s (unat (num_bits s) - 1)
              then Assertion_failed else Panic ''PMM Out of Memory''))"
  using allocate_from_search [OF assms, of 0]
  by (auto simp: pmm_allocate_def search_result_def found_run_def search_error_def)

definition sample_pages :: "u64 \<Rightarrow> u8 \<Rightarrow> kstate" where
  "sample_pages num b0 = (sample_heap 0x1000 0x8000 Full)\<lparr>kmem := (\<lambda>x. if x = 0x100 then b0 else 0xff),
     kernel_pmm := pmm_initial\<lparr>bitmap := \<lparr>m_ptr = 0x100, m_length = num\<rparr>, m_numPages := num\<rparr>\<rparr>"

theorem pmm_allocate_first_fit_witness:
  "\<exists>a t. pmm_allocate (sample_pages 16 0xCB) 2 = Inr (a, t) \<and>
     (\<exists>k. a = of_nat k * 0x1000 \<and> free_run (sample_pages 16 0xCB) k 2)"
proof -
  let ?s = "sample_pages 16 0xCB"
  have s: "pmm_below_4g ?s" by (simp add: pmm_below_4g_def sample_pages_def pmm_initial_def)
  have "\<not> used ?s 4" and "\<not> used ?s 5" by code_simp+
  then have "free_run ?s 4 2"
    by (auto simp: free_run_def less_2_cases_iff sample_pages_def pmm_initial_def)
  then have "case pmm_allocate ?s 2 of Inl e \<Rightarrow> False | Inr _ \<Rightarrow> True"
    using pmm_allocate_first_fit [OF s, of 2] by (auto split: sum.splits)
  then show ?thesis using pmm_allocate_first_fit [OF s, of 2] by (auto split: sum.splits)
qed


text \<open>
  The contract of an allocator of runs of numbered pages: it hands out a run that was free and
  marks it.  The client's lemma is that runs handed out one after another share no page.
\<close>

locale run_allocator =
  fixes alloc :: "'s \<Rightarrow> nat \<Rightarrow> 'e + (nat \<times> 's)"
    and taken :: "'s \<Rightarrow> nat \<Rightarrow> bool"
    and good :: "'s \<Rightarrow> bool"
    and request :: "nat \<Rightarrow> bool"
  assumes alloc_run: "good s \<Longrightarrow> request n \<Longrightarrow> alloc s n = Inr (k, t) \<Longrightarrow>
      good t \<and> (\<forall>j. k \<le> j \<and> j < k + n \<longrightarrow> \<not> taken s j \<and> taken t j) \<and>
      (\<forall>j. taken s j \<longrightarrow> taken t j)"
begin

lemma alloc_all_taken:
  "good s \<Longrightarrow> \<forall>n \<in> set ns. request n \<Longrightarrow> alloc_all alloc s ns = Inr (ks, t) \<Longrightarrow>
     length ks = length ns \<and> (\<forall>i < length ns. \<forall>j. ks ! i \<le> j \<and> j < ks ! i + ns ! i \<longrightarrow> \<not> taken s j)"
proof (induction ns arbitrary: s ks)
  case (Cons n ns)
  from Cons.prems(3) obtain k u ls where step: "alloc s n = Inr (k, u)"
    and rest: "alloc_all alloc u ns = Inr (ls, t)" and ks: "ks = k # ls"
    by (auto simp: bind_r_eq_Inr)
  from Cons.prems(1,2) alloc_run [OF _ _ step] have u: "good u"
      "\<And>j. k \<le> j \<Longrightarrow> j < k + n \<Longrightarrow> \<not> taken s j" "\<And>j. taken s j \<Longrightarrow> taken u j"
    by auto
  have IH: "length ls = length ns"
      "\<And>i j. i < length ns \<Longrightarrow> ls ! i \<le> j \<Longrightarrow> j < ls ! i + ns ! i \<Longrightarrow> \<not> taken u j"
    using Cons.IH [OF u(1) _ rest] Cons.prems(2) by auto
  have "\<not> taken s j" if "i < length (n # ns)" "ks ! i \<le> j" "j < ks ! i + (n # ns) ! i" for i j
    using that u(2,3) IH(2) by (cases i) (auto simp: ks)
  then show ?case using IH(1) by (simp add: ks)
qed simp

lemma alloc_all_apart:
  "good s \<Longrightarrow> \<forall>n \<in> set ns. request n \<Longrightarrow> alloc_all alloc s ns = Inr (ks, t) \<Longrightarrow>
     i < l \<Longrightarrow> l < length ns \<Longrightarrow>
     \<not> (\<exists>j. ks ! i \<le> j \<and> j < ks ! i + ns ! i \<and> ks ! l \<le> j \<and> j < ks ! l + ns ! l)"
proof (induction ns arbitrary: s ks i l)
  case (Cons n ns)
  from Cons.prems(3) obtain k u ls where step: "alloc s n = Inr (k, u)"
    and rest: "alloc_all alloc u ns = Inr (ls, t)" and ks: "ks = k # ls"
    by (auto simp: bind_r_eq_Inr)
  from Cons.prems(1,2) alloc_run [OF _ _ step] have u: "good u"
      "\<And>j. k \<le> j \<Longrightarrow> j < k + n \<Longrightarrow> taken u j"
    by auto
  have req: "\<forall>n \<in> set ns. request n" using Cons.prems(2) by simp
  obtain l' where l: "l = Suc l'" "l' < length ns" using Cons.prems(4,5) by (cases l) auto
  show ?case
  proof (cases i)
    case 0
    then show ?thesis using alloc_all_taken [OF u(1) req rest] u(2) l by (auto simp: ks)
  next
    case (Suc i')
    then show ?thesis using Cons.IH [OF u(1) req rest, of i' l'] Cons.prems(4) l by (simp add: ks)
  qed
qed simp

end

text \<open>The manager by page numbers.\<close>

definition allocate_pages :: "kstate \<Rightarrow> nat \<Rightarrow> kpanic + (nat \<times> kstate)" where
  "allocate_pages s n = bind_r (pmm_allocate s (of_nat n)) (\<lambda>(a, t). Inr (unat (a div 0x1000), t))"

definition page_taken :: "kstate \<Rightarrow> nat \<Rightarrow> bool" where
  "page_taken s j \<longleftrightarrow> unat (num_bits s) \<le> j \<or> used s j"

interpretation pmm: run_allocator allocate_pages page_taken pmm_below_4g "\<lambda>n. 1 \<le> n \<and> n < 2 ^ 63"
proof
  fix s t :: kstate and n k
  assume s: "pmm_below_4g s" and n: "1 \<le> n \<and> n < (2 :: nat) ^ 63"
    and run: "allocate_pages s n = Inr (k, t)"
  from run obtain a where a: "pmm_allocate s (of_nat n) = Inr (a, t)" "k = unat (a div 0x1000)"
    by (auto simp: allocate_pages_def res_simps)
  have un: "unat (of_nat n :: u64) = n" using n by (simp add: unat_of_nat)
  have req: "1 \<le> (of_nat n :: u64)" "unat (of_nat n :: u64) < 2 ^ 63"
    using n by (simp_all add: word_le_nat_alt un)
  obtain k' where k': "unat (a div 0x1000) = k'"
      "free_run s k' n" "same_but_bitmap s t"
      "\<And>j. j < 2 ^ 64 \<Longrightarrow> used t j \<longleftrightarrow> k' \<le> j \<and> j < k' + n \<or> used s j"
    by (rule pmm_allocate_run [OF s req a(1), unfolded un]) blast
  have N: "num_bits t = num_bits s" using k'(3) by (simp add: same_but_bitmap_fields(2))
  have "unat (num_bits s) < 2 ^ 64" using unat_lt_power [of "num_bits s"] by simp
  moreover have "\<not> page_taken s j \<and> page_taken t j" if j: "k \<le> j" "j < k + n" for j
  proof -
    obtain l where "j = k + l" "l < n" using j le_Suc_ex [of k j] by auto
    moreover have "\<not> used s j" and "j < unat (num_bits s)"
      using k'(1,2) \<open>j = k + l\<close> \<open>l < n\<close> by (auto simp: a(2) free_run_def)
    moreover from this have "used t j"
      using k'(1) k'(4) [of j] \<open>unat (num_bits s) < 2 ^ 64\<close> that by (simp add: a(2))
    ultimately show ?thesis by (simp add: page_taken_def)
  qed
  moreover have "page_taken t j" if "page_taken s j" for j
    using that k'(4) [of j] calculation by (cases "j < 2 ^ 64") (auto simp: page_taken_def N)
  ultimately show "pmm_below_4g t \<and> (\<forall>j. k \<le> j \<and> j < k + n \<longrightarrow> \<not> page_taken s j \<and> page_taken t j) \<and>
      (\<forall>j. page_taken s j \<longrightarrow> page_taken t j)"
    using s k'(3) by (simp add: pmm_below_4g_same)
qed

text \<open>C6. Physical pages handed out by successive calls of \<open>allocate\<close> are never shared: for any
  sequence of requests that succeeds on less than 4 GiB of memory, no page belongs to two of the
  runs returned, and none of them was in use before.\<close>

theorem pmm_runs_apart:
  assumes "pmm_below_4g s" and "\<forall>n \<in> set ns. 1 \<le> n \<and> n < 2 ^ 63"
    and "alloc_all allocate_pages s ns = Inr (ks, t)"
  shows "length ks = length ns \<and>
    (\<forall>i < length ns. \<forall>j. ks ! i \<le> j \<and> j < ks ! i + ns ! i \<longrightarrow> \<not> used s j) \<and>
    (\<forall>i l j. i < l \<and> l < length ns \<and> ks ! i \<le> j \<and> j < ks ! i + ns ! i \<longrightarrow>
       \<not> (ks ! l \<le> j \<and> j < ks ! l + ns ! l))"
  using pmm.alloc_all_taken [OF assms] pmm.alloc_all_apart [OF assms] by (auto simp: page_taken_def)

lemma sample_pages_below_4g: "unat num < 2 ^ 20 \<Longrightarrow> pmm_below_4g (sample_pages num b)"
  by (simp add: pmm_below_4g_def sample_pages_def pmm_initial_def)

theorem pmm_runs_apart_witness:
  "\<exists>ks t. alloc_all allocate_pages (sample_pages 16 0xCB) [1, 1] = Inr (ks, t) \<and>
     ks = [2, 4] \<and> \<not> used (sample_pages 16 0xCB) 4"
proof -
  let ?s = "sample_pages 16 0xCB"
  have "map_sum (\<lambda>e. e) fst (alloc_all allocate_pages ?s [1, 1]) = Inr [2, 4]" by code_simp
  then obtain t where run: "alloc_all allocate_pages ?s [1, 1] = Inr ([2, 4], t)"
    by (cases "alloc_all allocate_pages ?s [1, 1]") auto
  have "\<not> used ?s 4"
    using pmm_runs_apart [OF sample_pages_below_4g _ run, THEN conjunct2, THEN conjunct1, rule_format, of 1 4]
    by simp
  then show ?thesis using run by blast
qed

text \<open>Releasing the page that \<open>allocate(1)\<close> returned undoes the allocation: the bitmap is as
  before, and the next \<open>allocate(1)\<close> returns the same page.\<close>

theorem pmm_free_allocated:
  assumes "pmm_below_4g s" and "pmm_allocate s 1 = Inr (a, t)"
  shows "\<exists>u. pmm_free t a = Inr u \<and> same_but_bitmap s u \<and> (\<forall>j < 2 ^ 64. used u j \<longleftrightarrow> used s j) \<and>
    (\<exists>v. pmm_allocate u 1 = Inr (a, v))"
proof -
  from pmm_allocate_run [OF assms(1) _ _ assms(2)] obtain k where k: "a = of_nat k * 0x1000"
      "unat (a div 0x1000) = k" "free_run s k 1" "\<And>l. l < k \<Longrightarrow> \<not> free_run s l 1"
      "same_but_bitmap s t" "\<And>j. j < 2 ^ 64 \<Longrightarrow> used t j \<longleftrightarrow> k \<le> j \<and> j < k + 1 \<or> used s j"
    by auto
  have N: "num_bits t = num_bits s" using k(5) by (simp add: same_but_bitmap_fields(2))
  have "a div 0x1000 < num_bits t" using k(2,3) by (simp add: N free_run_def word_less_nat_alt)
  then obtain u where u: "pmm_free t a = Inr u" "same_but_bitmap t u"
      "\<And>j. page_used u j \<longleftrightarrow> j \<noteq> a div 0x1000 \<and> page_used t j"
    by (cases rule: pmm_free_cases [of a t]) auto
  have "used u j \<longleftrightarrow> used s j" if "j < 2 ^ 64" for j
  proof -
    have "of_nat j = a div 0x1000 \<longleftrightarrow> j = k"
      using that by (simp add: word_unat_eq_iff k(2) unat_of_nat)
    moreover have "\<not> used s k" using k(3) by (auto simp: free_run_def)
    ultimately show ?thesis using k(6) [OF that] u(3) [of "of_nat j"] by (auto simp: used_def)
  qed
  note same = this
  have su: "same_but_bitmap s u" using k(5) u(2) by (rule same_but_bitmap_trans)
  have Nu: "num_bits u = num_bits s" using su by (simp add: same_but_bitmap_fields(2))
  have "unat (num_bits s) < 2 ^ 64" using unat_lt_power [of "num_bits s"] by simp
  then have run: "free_run u l (Suc 0) \<longleftrightarrow> free_run s l (Suc 0)" for l
    using same by (auto simp: free_run_def Nu)
  have "search_result u 1 0 (pmm_allocate u 1)"
    using allocate_from_search [of u 1 0] assms(1) su by (simp add: pmm_below_4g_same pmm_allocate_def)
  then obtain m v where "pmm_allocate u 1 = Inr (of_nat m * 0x1000, v)" "free_run s m 1"
      "\<And>l. l < m \<Longrightarrow> \<not> free_run s l 1"
    using k(3) by (auto simp: search_result_def found_run_def run)
  moreover from this have "m = k" using k(3,4) by (metis linorder_neqE_nat)
  ultimately show ?thesis using u(1) su same k(1) by auto
qed

theorem pmm_free_allocated_witness:
  "\<exists>t u. pmm_allocate (sample_pages 16 0xCB) 1 = Inr (0x2000, t) \<and> pmm_free t 0x2000 = Inr u"
proof -
  let ?s = "sample_pages 16 0xCB"
  have "map_sum (\<lambda>e. e) fst (pmm_allocate ?s 1) = Inr 0x2000" by code_simp
  then obtain t where run: "pmm_allocate ?s 1 = Inr (0x2000, t)" by (cases "pmm_allocate ?s 1") auto
  then show ?thesis using pmm_free_allocated [OF sample_pages_below_4g run] by auto
qed

text \<open>From 4 GiB of memory on the search is wrong for more than one page: the address of a
  page after the first is a 32-bit product, so pages above 4 GiB are tested through the page with
  the same number modulo \<open>2 ^ 20\<close>.  Once the first 4 GiB are in use, \<open>allocate(n)\<close> for two or more
  pages reports that memory is exhausted, whatever is free above.\<close>

theorem pmm_allocate_above_4g:
  assumes "m_numPages (kernel_pmm s) = num_bits s" and "2 ^ 20 \<le> num_bits s" and "num_bits s \<le> 2 ^ 52"
    and "\<forall>j < 2 ^ 20. used s j" and "2 \<le> n" and "n \<le> 2 ^ 32"
  shows "pmm_allocate s n = Inl (Panic ''PMM Out of Memory'')"
proof -
  have "allocate_from s n idx = Inl (Panic ''PMM Out of Memory'')" for idx
  proof (induction "unat (num_bits s) - unat idx" arbitrary: idx rule: less_induct)
    case (less idx)
    show ?case
    proof (cases "idx < num_bits s")
      case False
      then show ?thesis by (subst allocate_from.simps) (simp add: assms(1))
    next
      case True
      let ?ci = "ucast (idx + 1) :: u32"
      have idx: "unat idx < 2 ^ 52"
        using True assms(3) by (simp add: word_less_nat_alt word_le_nat_alt)
      have test: "pmm_test s (idx * 0x1000) = Inr (page_used s idx)"
        using pmm_sized_test [of s idx] True assms(1,3) by (simp add: pmm_sized_def)
      have rest: "allocate_from s n (idx + 1) = Inl (Panic ''PMM Out of Memory'')"
        using less [of "idx + 1"] True unat_Suc_less [OF True] by (simp add: word_less_nat_alt)
      have "unat (idx + n) = unat idx + unat n"
        using idx assms(6) by (intro unat_add_lt) (simp add: word_le_nat_alt)
      moreover have "unat (ucast ?ci :: u64) \<le> unat idx + 1"
        using unat_Suc_less [OF True] by (simp add: unat_ucast_up unat_ucast_mod)
      moreover have "2 \<le> unat n" using assms(5) by (simp add: word_le_nat_alt)
      ultimately have enter: "ucast ?ci < idx + n" unfolding word_less_nat_alt by linarith
      have "unat (?ci * 0x1000) = (unat ?ci mod 2 ^ 20) * 0x1000"
        using mult_mod_left [of "unat ?ci" "2 ^ 20" 4096] by (simp add: unat_word_ariths)
      then have addr: "ucast (?ci * 0x1000) div 0x1000 = (of_nat (unat ?ci mod 2 ^ 20) :: u64)"
        by (simp add: word_unat_eq_iff unat_div unat_ucast_up unat_of_nat)
      have "used s (unat ?ci mod 2 ^ 20)" using assms(4) by simp
      moreover have "(of_nat (unat ?ci mod 2 ^ 20) :: u64) < num_bits s"
        using assms(2) by (simp add: word_less_nat_alt word_le_nat_alt unat_of_nat less_le_trans [OF mod_less_divisor])
      ultimately have "pmm_test s (ucast (?ci * 0x1000)) = Inr True"
        by (simp add: pmm_test_eq addr used_def)
      then have "check_pages counter_period s ?ci (idx + n) = Inr False"
        using enter by (subst check_pages.simps) (simp add: counter_period_def)
      moreover have "\<not> n \<le> 1" using assms(5) by (auto simp: word_le_nat_alt)
      ultimately show ?thesis
        using True test rest by (subst allocate_from.simps) (simp add: assms(1) Let_def)
    qed
  qed
  then show ?thesis by (simp add: pmm_allocate_def)
qed

definition sample_above_4g :: kstate where
  "sample_above_4g = (sample_heap 0x1000 0x8000 Full)\<lparr>kmem := (\<lambda>x. if x = 0x20100 then 0 else 0xff),
     kernel_pmm := pmm_initial\<lparr>bitmap := \<lparr>m_ptr = 0x100, m_length = 0x100008\<rparr>, m_numPages := 0x100008\<rparr>\<rparr>"

theorem pmm_allocate_above_4g_witness:
  "free_run sample_above_4g 0x100000 8 \<and>
     pmm_allocate sample_above_4g 2 = Inl (Panic ''PMM Out of Memory'')"
proof
  have "used sample_above_4g j \<longleftrightarrow> j div 8 \<noteq> 0x20000" if "j < 0x100008" for j
  proof -
    have "(of_nat j div 8 :: u64) = 0x20000 \<longleftrightarrow> j div 8 = 0x20000"
      using that by (simp add: word_unat_eq_iff unat_div unat_of_nat)
    moreover have "(0xff :: u8) = - 1" by simp
    then have "bit (0xff :: u8) (unat ((of_nat j :: u64) mod 8))"
      using unat_mod8 [of "of_nat j"] by (simp only: bit_minus_1_iff possible_bit_word) simp
    ultimately show ?thesis
      by (auto simp: used_def page_used_def bitset_bit_def sample_above_4g_def pmm_initial_def)
  qed
  note used = this
  show "free_run sample_above_4g 0x100000 8"
    unfolding free_run_def
  proof (intro conjI allI impI)
    fix j :: nat assume "j < 8"
    then show "\<not> used sample_above_4g (0x100000 + j)" by (subst used) auto
  qed (simp add: sample_above_4g_def pmm_initial_def)
  show "pmm_allocate sample_above_4g 2 = Inl (Panic ''PMM Out of Memory'')"
  proof (rule pmm_allocate_above_4g)
    show "\<forall>j < 2 ^ 20. used sample_above_4g j" using used by auto
  qed (simp_all add: sample_above_4g_def pmm_initial_def)
qed

section \<open>Statistics\<close>

text \<open>The free pages from page \<open>i\<close> on.\<close>

definition free_from :: "kstate \<Rightarrow> nat \<Rightarrow> nat" where
  "free_from s i = card {j. i \<le> j \<and> j < unat (num_bits s) \<and> \<not> used s j}"

lemma free_from_step:
  assumes "i < unat (num_bits s)"
  shows "free_from s i = (if used s i then 0 else 1) + free_from s (Suc i)"
proof -
  let ?A = "\<lambda>i. {j. i \<le> j \<and> j < unat (num_bits s) \<and> \<not> used s j}"
  have "?A i = (if used s i then {} else {i}) \<union> ?A (Suc i)" using assms by (auto simp: Suc_le_eq le_less)
  moreover have "finite (?A (Suc i))" and "i \<notin> ?A (Suc i)" by auto
  ultimately show ?thesis by (simp add: free_from_def)
qed

lemma free_from_end [simp]: "unat (num_bits s) \<le> i \<Longrightarrow> free_from s i = 0"
  by (auto simp: free_from_def)

lemma count_free_eq:
  assumes "pmm_sized s"
  shows "count_free s i n = Inr (n + of_nat (free_from s (unat i)))"
proof (induction "unat (num_bits s) - unat i" arbitrary: i n rule: less_induct)
  case (less i n)
  have N: "m_numPages (kernel_pmm s) = num_bits s" using assms by (simp add: pmm_sized_def)
  show ?case
  proof (cases "i < num_bits s")
    case True
    then have i: "unat i < unat (num_bits s)" by (simp add: word_less_nat_alt)
    have suc: "unat (i + 1) = Suc (unat i)" using True by (rule unat_Suc_less)
    show ?thesis
      using pmm_sized_test [OF assms True] less [of "i + 1"] i free_from_step [OF i] True
      by (subst count_free.simps) (simp add: N suc used_def)
  next
    case False
    then show ?thesis
      by (subst count_free.simps) (simp add: N word_less_nat_alt)
  qed
qed

lemma split_pages_eq:
  assumes "pmm_sized s"
  shows "split_pages s i n = Inr (n + of_nat (free_from s (unat i)),
    s\<lparr>kernel_pmm := (kernel_pmm s)\<lparr>m_nonMemoryBackedPages :=
      m_nonMemoryBackedPages (kernel_pmm s)
      + (num_bits s - min i (num_bits s) - of_nat (free_from s (unat i)))\<rparr>\<rparr>)"
  using assms
proof (induction "unat (num_bits s) - unat i" arbitrary: s i n rule: less_induct)
  case (less s i n)
  have N: "m_numPages (kernel_pmm s) = num_bits s" using less.prems by (simp add: pmm_sized_def)
  show ?case
  proof (cases "i < num_bits s")
    case True
    then have i: "unat i < unat (num_bits s)" by (simp add: word_less_nat_alt)
    have suc: "unat (i + 1) = Suc (unat i)" using True by (rule unat_Suc_less)
    let ?t = "s\<lparr>kernel_pmm := (kernel_pmm s)\<lparr>m_nonMemoryBackedPages :=
      m_nonMemoryBackedPages (kernel_pmm s) + 1\<rparr>\<rparr>"
    have t: "pmm_sized ?t" "free_from ?t = free_from s"
      using less.prems by (auto simp: pmm_sized_def free_from_def used_def page_used_def fun_eq_iff)
    have "i + 1 \<le> num_bits s" using i by (simp add: word_le_nat_alt suc)
    then show ?thesis
      using pmm_sized_test [OF less.prems True] less.hyps [of s "i + 1"] less.hyps [of ?t "i + 1"]
        less.prems t i free_from_step [OF i] True
      by (subst split_pages.simps) (simp add: N suc used_def min_def)
  next
    case False
    then have le: "num_bits s \<le> i" by simp
    then have "min i (num_bits s) = num_bits s" and "unat (num_bits s) \<le> unat i"
      by (simp_all add: min_absorb2 word_le_nat_alt)
    with False show ?thesis by (subst split_pages.simps) (simp add: N)
  qed
qed

text \<open>The usage report: \<open>set_free_memory\<close> fixes the pages free at that moment as the zero
  point, and \<open>debug_print_free_memory\<close> in any later state then logs the pages free now, against
  that limit, and the difference of the two as the pages used since.\<close>

theorem pmm_usage_report:
  assumes "pmm_sized s" and "m_nonMemoryBackedPages (kernel_pmm s) = 0"
  shows "\<exists>t. set_free_memory s = Inr t \<and> (\<forall>u. same_but_bitmap t u \<longrightarrow>
    debug_print_free_memory u =
      Inr (fold (\<lambda>c s. log_event s c)
        (usage_lines (of_nat (free_from u 0)) (of_nat (free_from s 0) - of_nat (free_from u 0))
           (of_nat (free_from s 0))) u))"
proof -
  let ?t = "s\<lparr>kernel_pmm := (kernel_pmm s)\<lparr>m_nonMemoryBackedPages := num_bits s - of_nat (free_from s 0),
    m_maxFreePages := of_nat (free_from s 0)\<rparr>\<rparr>"
  have run: "set_free_memory s = Inr ?t"
    using split_pages_eq [OF assms(1), of 0 0] assms(2) by (simp add: set_free_memory_def min_def)
  have "debug_print_free_memory u =
      Inr (fold (\<lambda>c s. log_event s c)
        (usage_lines (of_nat (free_from u 0)) (of_nat (free_from s 0) - of_nat (free_from u 0))
           (of_nat (free_from s 0))) u)" if u: "same_but_bitmap ?t u" for u
  proof -
    have p: "kernel_pmm u = kernel_pmm ?t" using same_but_bitmap_fields(2) [OF u] .
    then have "pmm_sized u" and "m_numPages (kernel_pmm s) = num_bits s"
      using assms(1) by (simp_all add: pmm_sized_def)
    then show ?thesis
      using count_free_eq [of u 0 0] by (simp add: debug_print_free_memory_def p Let_def algebra_simps)
  qed
  with run show ?thesis by blast
qed

theorem pmm_usage_report_witness:
  "\<exists>t. set_free_memory (sample_pages 16 0xCB) = Inr t \<and>
     (\<exists>v. debug_print_free_memory t = Inr v)"
proof -
  have "pmm_sized (sample_pages 16 0xCB)"
    and "m_nonMemoryBackedPages (kernel_pmm (sample_pages 16 0xCB)) = 0"
    by (simp_all add: pmm_sized_def sample_pages_def pmm_initial_def)
  from pmm_usage_report [OF this] show ?thesis using same_but_bitmap_refl by blast
qed

end
