(* ===== verification/Vmm.thy ===== *)
theory Vmm
  imports Pmm
begin

text \<open>
  The virtual memory manager: the page-table walk of src/lobo/arch/x86_64/vmm.cpp (which creates
  the tables it misses), the mapping and unmapping of ranges, and the entry points of
  src/lobo/mem/vmm.cpp with the RAII class of kernel/mem/memmap.h.  Pointers are the kernel's
  virtual addresses, so an entry holds the physical address of a table and the walk goes through
  \<open>MEM_PHYS_TO_VIRT\<close>.  A null pointer is 0.  The TLB is not part of the state: a flush is the
  reload of the page-table register, and \<open>invlpg\<close> is kept as the list of its operands.
\<close>

section \<open>The walk\<close>

definition VMM_PAGE_PRESENT :: u64 where "VMM_PAGE_PRESENT = 1"
definition VMM_PAGE_WRITE :: u64 where "VMM_PAGE_WRITE = 2"
definition VMM_PAGE_USER :: u64 where "VMM_PAGE_USER = 4"

definition VMM_MAP_UNBACKED :: u32 where "VMM_MAP_UNBACKED = 1"
definition VMM_MAP_REGION_KERNEL :: u32 where "VMM_MAP_REGION_KERNEL = 2"
definition VMM_MAP_PHYS :: u32 where "VMM_MAP_PHYS = 8"

definition VMM_PAGE_CREATE_ENTRY :: "u64 \<Rightarrow> u64 \<Rightarrow> u64" where
  "VMM_PAGE_CREATE_ENTRY x flags = x OR flags"

definition VMM_PAGE_ENTRY_ADDR :: "u64 \<Rightarrow> u64" where
  "VMM_PAGE_ENTRY_ADDR x = x AND NOT 0xFF"

text \<open>\<open>&pt->entries[index]\<close>\<close>

definition entry_ptr :: "u64 \<Rightarrow> u64 \<Rightarrow> u64" where
  "entry_ptr pt index = pt + 8 * index"

definition store_entry :: "kstate \<Rightarrow> u64 \<Rightarrow> u64 \<Rightarrow> kstate" where
  "store_entry s p v = s\<lparr>kmem := store64 (kmem s) p v\<rparr>"

definition zero_page :: "kstate \<Rightarrow> u64 \<Rightarrow> kstate" where
  "zero_page s p = s\<lparr>kmem := fst (memset (kmem s) p 0 PAGE_SIZE)\<rparr>"

definition find_page_table :: "kstate \<Rightarrow> u64 \<Rightarrow> u64 \<Rightarrow> bool \<Rightarrow> kpanic + (u64 \<times> kstate)" where
  "find_page_table s pt index create =
     (let entry = load64 (kmem s) (entry_ptr pt index) in
      if entry = 0 then
        if \<not> create then Inr (0, s)
        else
          bind_r (kmalloc_aligned s PAGE_SIZE 0x1000) (\<lambda>(table, s).
          let s = zero_page s table; table_phys = MEM_VIRT_TO_PHYS table in
          Inr (table, store_entry s (entry_ptr pt index)
                 (VMM_PAGE_CREATE_ENTRY table_phys (VMM_PAGE_PRESENT OR VMM_PAGE_WRITE))))
      else Inr (MEM_PHYS_TO_VIRT (VMM_PAGE_ENTRY_ADDR entry), s))"

definition index_p4 :: "u64 \<Rightarrow> u64" where "index_p4 addr = drop_bit 39 addr AND 511"
definition index_p3 :: "u64 \<Rightarrow> u64" where "index_p3 addr = drop_bit 30 addr AND 511"
definition index_p2 :: "u64 \<Rightarrow> u64" where "index_p2 addr = drop_bit 21 addr AND 511"
definition index_p1 :: "u64 \<Rightarrow> u64" where "index_p1 addr = drop_bit 12 addr AND 511"

definition find_page_entry :: "kstate \<Rightarrow> u64 \<Rightarrow> u64 \<Rightarrow> bool \<Rightarrow> kpanic + (u64 \<times> kstate)" where
  "find_page_entry s p4 addr create =
     bind_r (find_page_table s p4 (index_p4 addr) create) (\<lambda>(p3, s).
     if p3 = 0 then Inr (0, s) else
     bind_r (find_page_table s p3 (index_p3 addr) create) (\<lambda>(p2, s).
     if p2 = 0 then Inr (0, s) else
     bind_r (find_page_table s p2 (index_p2 addr) create) (\<lambda>(p1, s).
     if p1 = 0 then Inr (0, s) else
     Inr (entry_ptr p1 (index_p1 addr), s))))"

section \<open>Ranges\<close>

text \<open>
  The loops add the page size to a 64-bit address until it reaches the limit.  After \<open>2 ^ 52\<close>
  rounds the address, and the physical address with it, is back where it started; if no round
  panicked, every entry of the range has its final value then, and the loop repeats itself: the
  fuel is that period, and running out of it is exactly not returning.
\<close>

definition page_period :: nat where "page_period = 2 ^ 52"

definition map_one :: "kstate \<Rightarrow> u64 \<Rightarrow> u64 \<Rightarrow> u64 \<Rightarrow> u8 \<Rightarrow> kpanic + kstate" where
  "map_one s p4 addr p_addr flags =
     bind_r (find_page_entry s p4 addr True) (\<lambda>(entry, s).
     if entry = 0 then Inl (Panic ''vmm: Unable to map page, unable to find entry'')
     else if load64 (kmem s) entry AND VMM_PAGE_PRESENT \<noteq> 0
     then Inl (Panic ''vmm: Attempted to remap a page!'')
     else Inr (store_entry s entry (VMM_PAGE_CREATE_ENTRY p_addr (ucast flags))))"

fun map_loop :: "nat \<Rightarrow> kstate \<Rightarrow> u64 \<Rightarrow> u64 \<Rightarrow> u64 \<Rightarrow> u64 \<Rightarrow> u8 \<Rightarrow> kpanic + kstate" where
  "map_loop fuel s p4 addr addr_limit p_addr flags =
     (if addr < addr_limit
      then if fuel = 0 then Inl Diverges
           else bind_r (map_one s p4 addr p_addr flags) (\<lambda>s.
                map_loop (fuel - 1) s p4 (addr + PAGE_SIZE) addr_limit (p_addr + PAGE_SIZE) flags)
      else Inr s)"

definition map_pages :: "kstate \<Rightarrow> u64 \<Rightarrow> u64 \<Rightarrow> u64 \<Rightarrow> u64 \<Rightarrow> u8 \<Rightarrow> kpanic + kstate" where
  "map_pages s p4 addr p_addr sz flags = map_loop page_period s p4 addr (addr + sz) p_addr flags"

definition unmap_one :: "kstate \<Rightarrow> u64 \<Rightarrow> u64 \<Rightarrow> kpanic + kstate" where
  "unmap_one s p4 addr =
     bind_r (find_page_entry s p4 addr True) (\<lambda>(entry, s).
     if entry = 0 then Inl (Panic ''vmm: Unable to map page, unable to find entry'')
     else Inr (store_entry s entry VMM_PAGE_WRITE))"

fun unmap_loop :: "nat \<Rightarrow> kstate \<Rightarrow> u64 \<Rightarrow> u64 \<Rightarrow> u64 \<Rightarrow> kpanic + kstate" where
  "unmap_loop fuel s p4 addr addr_limit =
     (if addr < addr_limit
      then if fuel = 0 then Inl Diverges
           else bind_r (unmap_one s p4 addr) (\<lambda>s.
                unmap_loop (fuel - 1) s p4 (addr + PAGE_SIZE) addr_limit)
      else Inr s)"

declare map_loop.simps [simp del] unmap_loop.simps [simp del]

definition unmap_pages :: "kstate \<Rightarrow> u64 \<Rightarrow> u64 \<Rightarrow> u64 \<Rightarrow> kpanic + kstate" where
  "unmap_pages s p4 addr sz = unmap_loop page_period s p4 addr (addr + sz)"

definition swap_page_directory :: "kstate \<Rightarrow> u64 \<Rightarrow> kstate" where
  "swap_page_directory s newMemorySpace =
     (let phys_addr = MEM_VIRT_TO_PHYS newMemorySpace;
          s = log_event s (Log ''vmm'' (''swap page dir: %p phys addr %p'' @ [CHR 0x0A])
                [IntArg newMemorySpace, IntArg phys_addr]);
          s = s\<lparr>if_flag := False\<rparr>;
          s = s\<lparr>kernel_vmm := (kernel_vmm s)\<lparr>pdir_current := newMemorySpace\<rparr>\<rparr>;
          s = s\<lparr>cr3 := phys_addr\<rparr>
      in s\<lparr>if_flag := True\<rparr>)"

definition vmm_invalidate :: "kstate \<Rightarrow> kstate" where
  "vmm_invalidate s = swap_page_directory s (pdir_current (kernel_vmm s))"

text \<open>The operands of the \<open>invlpg\<close> instructions of \<open>invalidate(start_addr, end_addr)\<close>.\<close>

fun invalidate_range :: "nat \<Rightarrow> u64 \<Rightarrow> u64 \<Rightarrow> kpanic + u64 list" where
  "invalidate_range fuel start_addr end_addr =
     (if start_addr < end_addr
      then if fuel = 0 then Inl Diverges
           else bind_r (invalidate_range (fuel - 1) (start_addr + 0x1000) end_addr)
                  (\<lambda>as. Inr (start_addr # as))
      else Inr [])"

declare invalidate_range.simps [simp del]

section \<open>The entry points\<close>

definition init_kernel_page_directory :: "kstate \<Rightarrow> kpanic + kstate" where
  "init_kernel_page_directory s =
     bind_r (kmalloc_aligned s 0x1000 0x1000) (\<lambda>(table, s).
     let s = s\<lparr>kernel_vmm := (kernel_vmm s)\<lparr>pdir_kernel := table\<rparr>\<rparr>;
         s = zero_page s table;
         s = s\<lparr>kernel_vmm := (kernel_vmm s)\<lparr>pdir_current := table\<rparr>\<rparr>;
         s = swap_page_directory s table
     in Inr (log_event s (Log ''vmm'' ''Switched to Kernel Page Table 0x%016p'' [IntArg table])))"

definition vmm_init :: "kstate \<Rightarrow> kpanic + kstate" where
  "vmm_init s =
     (if m_init (kernel_vmm s) then Inr s
      else init_kernel_page_directory (s\<lparr>kernel_vmm := (kernel_vmm s)\<lparr>m_init := True\<rparr>\<rparr>))"

text \<open>
  \<open>map_target\<close> is the part of \<open>map\<close> that chooses the logical and the physical address;
  \<open>flags\<close> and \<open>perm\<close> are \<open>int\<close>s, of which \<open>map_pages\<close> takes the low byte.
\<close>

definition map_target :: "kstate \<Rightarrow> u64 \<Rightarrow> u64 \<Rightarrow> u32 \<Rightarrow> kpanic + ((u64 \<times> u64) \<times> kstate)" where
  "map_target s desired_addr len flags =
     (let ram_backed = (flags AND VMM_MAP_UNBACKED = 0);
          region_kernel = (flags AND VMM_MAP_REGION_KERNEL \<noteq> 0);
          desired_is_paddr = (flags AND VMM_MAP_PHYS \<noteq> 0) in
      if ram_backed then
        if desired_addr = 0 then
          bind_r (pmm_allocate s (len div 0x1000)) (\<lambda>(p_addr, s).
          if region_kernel then Inr ((MEM_PHYS_TO_VIRT p_addr, p_addr), s)
          else Inl (Panic ''vmm: Unimplemented, no free address finding''))
        else if region_kernel then
          bind_r (assert (desired_addr > KERNEL_VMB)) (\<lambda>_.
          Inr ((desired_addr, MEM_VIRT_TO_PHYS desired_addr), s))
        else Inl (Panic ''vmm: Unimplemented, no free address finding'')
      else if desired_is_paddr then
        Inr ((if region_kernel then MEM_PHYS_TO_VIRT desired_addr else desired_addr, desired_addr), s)
      else Inl (Panic ''vmm: Unimplemented, no unmapped memory support''))"

definition vmm_map :: "kstate \<Rightarrow> u64 \<Rightarrow> u64 \<Rightarrow> u32 \<Rightarrow> u32 \<Rightarrow> kpanic + (u64 \<times> kstate)" where
  "vmm_map s desired_addr len perm flags =
     bind_r (map_target s desired_addr len flags) (\<lambda>((l_addr, p_addr), s).
     bind_r (map_pages s (pdir_current (kernel_vmm s)) l_addr p_addr len (ucast perm)) (\<lambda>s.
     Inr (l_addr, swap_page_directory s (pdir_current (kernel_vmm s)))))"

definition vmm_map_direct :: "kstate \<Rightarrow> u64 \<Rightarrow> u64 \<Rightarrow> u64 \<Rightarrow> u32 \<Rightarrow> u32 \<Rightarrow> kpanic + (u64 \<times> kstate)" where
  "vmm_map_direct s v_addr p_addr len perm flags =
     bind_r (map_pages s (pdir_current (kernel_vmm s)) v_addr p_addr len (ucast perm)) (\<lambda>s.
     Inr (v_addr, swap_page_directory s (pdir_current (kernel_vmm s))))"

definition vmm_unmap :: "kstate \<Rightarrow> u64 \<Rightarrow> u64 \<Rightarrow> kpanic + (int \<times> kstate)" where
  "vmm_unmap s address len =
     bind_r (unmap_pages s (pdir_current (kernel_vmm s)) address len) (\<lambda>s.
     Inr (0, swap_page_directory s (pdir_current (kernel_vmm s))))"

section \<open>The RAII class\<close>

record memmap =
  m_ram_backed :: bool
  mm_addr :: u64
  mm_sz :: u64

definition memmap_alloc :: "kstate \<Rightarrow> u64 \<Rightarrow> u32 \<Rightarrow> u32 \<Rightarrow> kpanic + (memmap \<times> kstate)" where
  "memmap_alloc s sz perm flags =
     bind_r (vmm_map s 0 sz perm flags) (\<lambda>(virt_addr, s).
     Inr (\<lparr>m_ram_backed = True, mm_addr = virt_addr, mm_sz = sz\<rparr>, s))"

definition memmap_at :: "kstate \<Rightarrow> u64 \<Rightarrow> u64 \<Rightarrow> u32 \<Rightarrow> u32 \<Rightarrow> kpanic + (memmap \<times> kstate)" where
  "memmap_at s address sz perm flags =
     bind_r (vmm_map s address sz perm flags) (\<lambda>(virt_addr, s).
     Inr (\<lparr>m_ram_backed = True, mm_addr = virt_addr, mm_sz = sz\<rparr>, s))"

definition memmap_direct :: "kstate \<Rightarrow> u64 \<Rightarrow> u64 \<Rightarrow> u64 \<Rightarrow> u32 \<Rightarrow> u32 \<Rightarrow> kpanic + (memmap \<times> kstate)" where
  "memmap_direct s p_addr v_addr sz perm flags =
     bind_r (vmm_map_direct s v_addr p_addr sz perm flags) (\<lambda>(_, s).
     Inr (\<lparr>m_ram_backed = False, mm_addr = v_addr, mm_sz = sz\<rparr>, s))"

definition memmap_destroy :: "kstate \<Rightarrow> memmap \<Rightarrow> kpanic + kstate" where
  "memmap_destroy s mm = bind_r (vmm_unmap s (mm_addr mm) (mm_sz mm)) (\<lambda>(_, s). Inr s)"

definition memmap_get :: "memmap \<Rightarrow> u64" where "memmap_get mm = mm_addr mm"

definition memmap_index :: "memmap \<Rightarrow> u64 \<Rightarrow> kpanic + u64" where
  "memmap_index mm idx = bind_r (assert (idx < mm_sz mm)) (\<lambda>_. Inr (mm_addr mm + idx))"

end
