(* ===== verification/Page_Tree.thy ===== *)
theory Page_Tree
  imports Prelude
begin

text \<open>
  Four-level trees of page tables, whatever memory they are in.  The kernel builds them in its
  64-bit virtual memory, the loader in its 32-bit physical memory; what both rely on is proved here
  once: putting an empty table under a free entry keeps the tree a tree and changes no translation, and
  writing an entry of a table of the last level changes exactly that translation.  A memory is given by
  the function \<open>ent\<close> that reads an entry of a table; \<open>table_of\<close> is the table an entry refers to.
\<close>

section \<open>Tables in a byte-addressed memory\<close>

text \<open>A table is 512 entries of eight bytes; \<open>'a\<close> is the width of the addresses it is read with.\<close>

definition table_slot :: "'a::len word \<Rightarrow> u64 \<Rightarrow> 'a word" where
  "table_slot t i = t + 8 * ucast i"

definition slot :: "'a::len bytes \<Rightarrow> 'a word \<Rightarrow> u64 \<Rightarrow> u64" where
  "slot m t i = load64 m (table_slot t i)"

abbreviation table_bytes :: "'a::len word \<Rightarrow> 'a word \<Rightarrow> bool" where
  "table_bytes t x \<equiv> in_range x t 0x1000"

lemma aligned_room:
  fixes t :: "'a::len word"
  assumes "4096 dvd unat t" and "12 \<le> LENGTH('a)"
  shows "unat t + 4096 \<le> 2 ^ LENGTH('a)"
proof -
  have "(2 ^ 12 :: nat) dvd 2 ^ LENGTH('a)" by (rule le_imp_power_dvd) (rule assms(2))
  then obtain k where k: "(2 :: nat) ^ LENGTH('a) = 4096 * k" by (auto elim: dvdE)
  obtain q where "unat t = 4096 * q" using assms(1) by blast
  then show ?thesis using unat_lt_power [of t] by (simp add: k)
qed

lemma table_bytes_unat:
  "4096 dvd unat (t :: 'a::len word) \<Longrightarrow> 12 \<le> LENGTH('a) \<Longrightarrow>
     table_bytes t x \<longleftrightarrow> unat t \<le> unat x \<and> unat x < unat t + 4096"
  using in_range_unat [of t 4096 x] aligned_room [of t] by simp

lemma aligned_tables_apart:
  fixes t u :: "'a::len word"
  assumes "4096 dvd unat t" and "4096 dvd unat u" and "12 \<le> LENGTH('a)" and "table_bytes t x" and "table_bytes u x"
  shows "t = u"
proof -
  have "unat t div 4096 = unat x div 4096" and "unat u div 4096 = unat x div 4096"
    using assms by (auto simp: table_bytes_unat elim!: dvdE intro!: div_nat_eqI)
  then have "unat t = unat u" using assms(1,2) by (metis dvd_div_mult_self)
  then show ?thesis by (simp add: word_unat_eq_iff)
qed

lemma slot_offset:
  fixes t :: "'a::len word"
  assumes "i < 512" and "12 \<le> LENGTH('a)" and "in_range x (table_slot t i) 8"
  shows "\<exists>d < 8. unat (x - t) = 8 * unat i + d"
proof -
  let ?d = "x - table_slot t i"
  have big: "4096 \<le> (2 :: nat) ^ LENGTH('a)"
    using power_increasing [OF assms(2), of "2 :: nat"] by simp
  have i: "unat i < 512" using assms(1) by (simp add: word_less_nat_alt)
  then have "unat (ucast i :: 'a word) = unat i" using big by (simp add: unat_ucast_mod)
  moreover have "unat (8 :: 'a word) = 8"
  proof -
    have "unat (of_nat 8 :: 'a word) = 8" using big by (subst unat_of_nat) simp
    then show ?thesis by simp
  qed
  ultimately have e: "unat (8 * ucast i :: 'a word) = 8 * unat i" using i big by (simp add: unat_word_ariths)
  moreover have d: "unat ?d < 8" using assms(3) by (simp add: in_range_def)
  ultimately have "unat (8 * ucast i + ?d) = 8 * unat i + unat ?d" using i big by (subst unat_add_lt) simp_all
  moreover have "8 * ucast i + ?d = x - t" by (simp add: table_slot_def)
  ultimately have "unat (x - t) = 8 * unat i + unat ?d" by metis
  with d show ?thesis by blast
qed

lemma slot_range:
  fixes t :: "'a::len word"
  assumes "i < 512" and "12 \<le> LENGTH('a)" and "in_range x (table_slot t i) 8"
  shows "table_bytes t x"
  using slot_offset [OF assms] assms(1) by (auto simp: in_range_def word_less_nat_alt)

lemma slots_apart:
  fixes t u :: "'a::len word"
  assumes "4096 dvd unat t" and "4096 dvd unat u" and "12 \<le> LENGTH('a)" and "i < 512" and "j < 512" and "(u, j) \<noteq> (t, i)"
  shows "disjoint_ranges (table_slot t i) 8 (table_slot u j) 8"
proof (cases "u = t")
  case True
  then have "unat i \<noteq> unat j" using assms(6) by (auto simp: word_unat_eq_iff)
  then show ?thesis
    using slot_offset [OF assms(4,3)] slot_offset [OF assms(5,3)] True unfolding disjoint_ranges_def by fastforce
next
  case False
  then show ?thesis
    using slot_range [OF assms(4,3)] slot_range [OF assms(5,3)] aligned_tables_apart [OF assms(1-3)]
    unfolding disjoint_ranges_def by blast
qed

text \<open>A store to an entry of an aligned table changes that entry only.\<close>

lemma slot_store:
  fixes t u :: "'a::len word"
  assumes "4096 dvd unat t" and "4096 dvd unat u" and "12 \<le> LENGTH('a)" and "i < 512" and "j < 512"
  shows "slot (store64 m (table_slot t i) v) u j = (if u = t \<and> j = i then v else slot m u j)"
proof -
  have big: "8 \<le> (2 :: nat) ^ LENGTH('a)" using power_increasing [OF assms(3), of "2 :: nat"] by simp
  show ?thesis
    using slots_apart [OF assms] big by (auto simp: slot_def load_store_disjoint load_store_same)
qed

lemma slot_cong:
  assumes "i < 512" and "12 \<le> LENGTH('a)" and "\<And>x. table_bytes t x \<Longrightarrow> m x = m' x"
  shows "slot m t i = slot m' (t :: 'a::len word) i"
  unfolding slot_def using assms slot_range power_increasing [OF assms(2), of "2 :: nat"] by (intro load_le_cong) auto

lemma slot_zero:
  assumes "i < 512" and "12 \<le> LENGTH('a)" and "\<And>x. table_bytes t x \<Longrightarrow> m x = 0"
  shows "slot m (t :: 'a::len word) i = 0"
  unfolding slot_def using assms slot_range power_increasing [OF assms(2), of "2 :: nat"] by (intro load_le_zero) auto

section \<open>Paths through the tables\<close>

definition tree_next :: "(u64 \<Rightarrow> 't) \<Rightarrow> ('t \<Rightarrow> u64 \<Rightarrow> u64) \<Rightarrow> 't \<Rightarrow> u64 \<Rightarrow> 't option" where
  "tree_next table_of ent t i = (if ent t i = 0 then None else Some (table_of (ent t i)))"

fun tree_walk :: "(u64 \<Rightarrow> 't) \<Rightarrow> ('t \<Rightarrow> u64 \<Rightarrow> u64) \<Rightarrow> 't \<Rightarrow> u64 list \<Rightarrow> 't option" where
  "tree_walk table_of ent t [] = Some t"
| "tree_walk table_of ent t (i # is) =
     (case tree_next table_of ent t i of None \<Rightarrow> None | Some u \<Rightarrow> tree_walk table_of ent u is)"

lemma walk_append:
  "tree_walk tof ent t (is @ js) = (case tree_walk tof ent t is of None \<Rightarrow> None | Some u \<Rightarrow> tree_walk tof ent u js)"
  by (induction "is" arbitrary: t) (auto split: option.splits)

lemma walk_snoc:
  "tree_walk tof ent t (is @ [i]) = (case tree_walk tof ent t is of None \<Rightarrow> None | Some u \<Rightarrow> tree_next tof ent u i)"
  by (simp add: walk_append split: option.splits)

definition path :: "u64 list \<Rightarrow> bool" where
  "path is \<longleftrightarrow> length is \<le> 3 \<and> (\<forall>i \<in> set is. i < 512)"

lemma path_snoc [simp]: "path (is @ [i]) \<longleftrightarrow> path is \<and> length is \<le> 2 \<and> i < 512"
  by (auto simp: path_def)

lemma path_Nil [simp]: "path []"
  by (simp add: path_def)

text \<open>The entry that the tables give a path of four indices: 0 when a table is missing.\<close>

definition tree_leaf :: "(u64 \<Rightarrow> 't) \<Rightarrow> ('t \<Rightarrow> u64 \<Rightarrow> u64) \<Rightarrow> 't \<Rightarrow> u64 list \<Rightarrow> u64 \<Rightarrow> u64" where
  "tree_leaf tof ent t is i = (case tree_walk tof ent t is of None \<Rightarrow> 0 | Some u \<Rightarrow> ent u i)"

text \<open>A tree: every path leads to a table that is \<open>ok\<close>, and no table is reached on two paths.\<close>

definition tree_inv :: "(u64 \<Rightarrow> 't) \<Rightarrow> ('t \<Rightarrow> u64 \<Rightarrow> u64) \<Rightarrow> ('t \<Rightarrow> bool) \<Rightarrow> 't \<Rightarrow> bool" where
  "tree_inv tof ent ok p4 \<longleftrightarrow>
     (\<forall>is t. path is \<and> tree_walk tof ent p4 is = Some t \<longrightarrow> ok t) \<and>
     (\<forall>is js t. path is \<and> path js \<and> tree_walk tof ent p4 is = Some t \<and> tree_walk tof ent p4 js = Some t
        \<longrightarrow> is = js)"

lemma tree_inv_ok: "tree_inv tof ent ok p4 \<Longrightarrow> path is \<Longrightarrow> tree_walk tof ent p4 is = Some t \<Longrightarrow> ok t"
  by (auto simp: tree_inv_def)

lemma tree_inv_inj:
  "tree_inv tof ent ok p4 \<Longrightarrow> path is \<Longrightarrow> path js \<Longrightarrow> tree_walk tof ent p4 is = Some t \<Longrightarrow>
     tree_walk tof ent p4 js = Some t \<Longrightarrow> is = js"
  by (auto simp: tree_inv_def)

text \<open>A memory with the same entries in the tables of the tree holds the same tree.\<close>

lemma tree_same:
  assumes tree: "tree_inv tof ent ok p4" and same: "\<And>u j. ok u \<Longrightarrow> j < 512 \<Longrightarrow> ent' u j = ent u j"
  shows "path js \<Longrightarrow> tree_walk tof ent' p4 js = tree_walk tof ent p4 js" "tree_inv tof ent' ok p4"
    "path js \<Longrightarrow> j < 512 \<Longrightarrow> tree_leaf tof ent' p4 js j = tree_leaf tof ent p4 js j"
proof -
  show walk: "tree_walk tof ent' p4 js = tree_walk tof ent p4 js" if "path js" for js
    using that
  proof (induction js rule: rev_induct)
    case (snoc j js)
    then have js: "path js" "j < 512" by simp_all
    have "tree_next tof ent' u j = tree_next tof ent u j" if "tree_walk tof ent p4 js = Some u" for u
      using same [OF tree_inv_ok [OF tree js(1) that] js(2)] by (simp add: tree_next_def)
    then show ?case using snoc.IH [OF js(1)] by (simp add: walk_snoc split: option.splits)
  qed simp
  show "tree_inv tof ent' ok p4" using tree walk unfolding tree_inv_def by metis
  show "path js \<Longrightarrow> j < 512 \<Longrightarrow> tree_leaf tof ent' p4 js j = tree_leaf tof ent p4 js j"
    using walk same tree_inv_ok [OF tree] by (auto simp: tree_leaf_def split: option.splits)
qed

text \<open>An empty root.\<close>

lemma tree_empty:
  assumes "ok p4" and "\<And>j. j < 512 \<Longrightarrow> ent p4 j = 0"
  shows "path js \<Longrightarrow> tree_walk tof ent p4 js = (if js = [] then Some p4 else None)" "tree_inv tof ent ok p4"
    "path js \<Longrightarrow> js \<noteq> [] \<Longrightarrow> tree_leaf tof ent p4 js j = 0"
proof -
  show walk: "tree_walk tof ent p4 js = (if js = [] then Some p4 else None)" if "path js" for js
    using that assms(2) by (cases js) (auto simp: path_def tree_next_def)
  show "tree_inv tof ent ok p4" using assms(1) by (auto simp: tree_inv_def walk split: if_splits)
  show "path js \<Longrightarrow> js \<noteq> [] \<Longrightarrow> tree_leaf tof ent p4 js j = 0" by (simp add: tree_leaf_def walk)
qed

text \<open>Every entry that links a table satisfies \<open>P\<close>.\<close>

definition tree_links :: "(u64 \<Rightarrow> bool) \<Rightarrow> (u64 \<Rightarrow> 't) \<Rightarrow> ('t \<Rightarrow> u64 \<Rightarrow> u64) \<Rightarrow> 't \<Rightarrow> bool" where
  "tree_links P tof ent p4 \<longleftrightarrow>
     (\<forall>is t i. path (is @ [i]) \<and> tree_walk tof ent p4 is = Some t \<and> ent t i \<noteq> 0 \<longrightarrow> P (ent t i))"

lemma links_same:
  assumes tree: "tree_inv tof ent ok p4" and same: "\<And>u j. ok u \<Longrightarrow> j < 512 \<Longrightarrow> ent' u j = ent u j"
    and links: "tree_links P tof ent p4"
  shows "tree_links P tof ent' p4"
  unfolding tree_links_def
proof (intro allI impI, elim conjE)
  fix js j u assume js: "path (js @ [j])" "tree_walk tof ent' p4 js = Some u" "ent' u j \<noteq> 0"
  have "path js" "j < 512" using js(1) by simp_all
  moreover have old: "tree_walk tof ent p4 js = Some u" using tree_same(1) [OF tree same \<open>path js\<close>] js(2) by simp
  ultimately have "ent' u j = ent u j" using same tree_inv_ok [OF tree] by blast
  then show "P (ent' u j)" using links js old unfolding tree_links_def by metis
qed

lemma links_empty:
  assumes "ok p4" and "\<And>j. j < 512 \<Longrightarrow> ent p4 j = 0"
  shows "tree_links P tof ent p4"
  unfolding tree_links_def using tree_empty(1) [where ok = ok and ent = ent, OF assms] assms(2) by (auto split: if_splits)

text \<open>
  The tables after a table \<open>n\<close> was put under index \<open>i\<close> of the table that \<open>is\<close> leads to: the paths
  that go through the new table end there, all others lead where they led.
\<close>

definition linked ::
    "(u64 \<Rightarrow> 't) \<Rightarrow> ('t \<Rightarrow> u64 \<Rightarrow> u64) \<Rightarrow> ('t \<Rightarrow> u64 \<Rightarrow> u64) \<Rightarrow> 't \<Rightarrow> u64 list \<Rightarrow> u64 \<Rightarrow> 't \<Rightarrow> bool" where
  "linked tof ent ent' p4 is i n \<longleftrightarrow>
     (\<forall>js. path js \<longrightarrow> tree_walk tof ent' p4 js =
        (if js = is @ [i] then Some n
         else if \<exists>ks. ks \<noteq> [] \<and> js = is @ [i] @ ks then None else tree_walk tof ent p4 js))"

lemma linked_leaf:
  assumes l: "linked tof ent ent' p4 is i n" and none: "tree_walk tof ent p4 (is @ [i]) = None"
    and new: "\<And>j. j < 512 \<Longrightarrow> ent' n j = 0"
    and old: "\<And>u. tree_walk tof ent p4 js = Some u \<Longrightarrow> ent' u j = ent u j"
    and js: "path js" "j < 512"
  shows "tree_leaf tof ent' p4 js j = tree_leaf tof ent p4 js j"
proof -
  have w: "tree_walk tof ent' p4 js = (if js = is @ [i] then Some n
       else if \<exists>ks. ks \<noteq> [] \<and> js = is @ [i] @ ks then None else tree_walk tof ent p4 js)"
    using l js(1) by (simp add: linked_def)
  have "tree_walk tof ent p4 (is @ [i] @ ks) = None" for ks
    using none walk_append [of tof ent p4 "is @ [i]" ks] by simp
  then show ?thesis
    using w none new [OF js(2)] old by (auto simp: tree_leaf_def split: option.splits)
qed

lemma linked_walk:
  assumes l: "linked tof ent ent' p4 is i n" and none: "tree_walk tof ent p4 (is @ [i]) = None" and js: "path js"
  shows "tree_walk tof ent' p4 js = Some u \<longleftrightarrow> js = is @ [i] \<and> u = n \<or> tree_walk tof ent p4 js = Some u"
proof -
  have w: "tree_walk tof ent' p4 js = (if js = is @ [i] then Some n
       else if \<exists>ks. ks \<noteq> [] \<and> js = is @ [i] @ ks then None else tree_walk tof ent p4 js)"
    using l js by (simp add: linked_def)
  have ext: "tree_walk tof ent p4 (is @ [i] @ ks) = None" for ks
    using none walk_append [of tof ent p4 "is @ [i]" ks] by simp
  show ?thesis
  proof (cases "\<exists>ks. js = is @ [i] @ ks")
    case True
    then have "tree_walk tof ent p4 js = None" using ext by (elim exE) (simp only:)
    then show ?thesis using w by auto
  next
    case False
    then have "js \<noteq> is @ [i]" by auto
    then show ?thesis using w False by metis
  qed
qed

section \<open>The contract of a table format\<close>

text \<open>The entry that links a table refers to that table, and is not empty.\<close>

locale page_tree =
  fixes table_of :: "u64 \<Rightarrow> 't"
    and table_entry :: "'t \<Rightarrow> u64"
    and aligned :: "'t \<Rightarrow> bool"
  assumes table_entry_nonzero: "table_entry t \<noteq> 0"
    and table_of_entry: "aligned t \<Longrightarrow> table_of (table_entry t) = t"
begin

abbreviation "walk \<equiv> tree_walk table_of"
abbreviation "leaf \<equiv> tree_leaf table_of"
abbreviation "is_tree \<equiv> tree_inv table_of"

lemma link_walk:
  assumes t: "walk ent p4 is = Some t" and p: "path (is @ [i])"
    and inj: "\<And>js. path js \<Longrightarrow> walk ent p4 js = Some t \<Longrightarrow> js = is"
    and new: "ent' t i = table_entry n" "aligned n" "\<And>j. j < 512 \<Longrightarrow> ent' n j = 0"
    and old: "\<And>js u j. path js \<Longrightarrow> walk ent p4 js = Some u \<Longrightarrow> j < 512 \<Longrightarrow> (u, j) \<noteq> (t, i) \<Longrightarrow> ent' u j = ent u j"
    and none: "ent t i = 0"
  shows "linked table_of ent ent' p4 is i n"
  unfolding linked_def
proof (intro allI impI)
  fix js assume "path js"
  then show "walk ent' p4 js =
      (if js = is @ [i] then Some n
       else if \<exists>ks. ks \<noteq> [] \<and> js = is @ [i] @ ks then None else walk ent p4 js)"
  proof (induction js rule: rev_induct)
    case (snoc j js)
    have js: "path js" "length js \<le> 2" "j < 512" using snoc.prems by simp_all
    note IH = snoc.IH [OF js(1)]
    show ?case
    proof (cases "\<exists>ks. js = is @ [i] @ ks")
      case True
      then obtain ks where ks: "js = is @ [i] @ ks" by blast
      have "walk ent' p4 (js @ [j]) = None"
      proof (cases "ks = []")
        case True
        then have "walk ent' p4 js = Some n" using IH unfolding ks by simp
        then show ?thesis using js(3) new(3) by (simp add: walk_snoc tree_next_def)
      next
        case False
        then have "walk ent' p4 js = None" using IH unfolding ks by simp
        then show ?thesis by (simp add: walk_snoc)
      qed
      then show ?thesis using ks by auto
    next
      case False
      then have IH: "walk ent' p4 js = walk ent p4 js" using IH by (metis append_Nil2)
      have noext: "\<not> (\<exists>ks. ks \<noteq> [] \<and> js @ [j] = is @ [i] @ ks)"
        using False by (metis append.assoc append_butlast_last_id butlast_snoc)
      show ?thesis
      proof (cases "js @ [j] = is @ [i]")
        case True
        then show ?thesis
          using t new(1,2) IH by (auto simp: walk_snoc tree_next_def table_entry_nonzero table_of_entry)
      next
        case other: False
        have "tree_next table_of ent' u j = tree_next table_of ent u j" if u: "walk ent p4 js = Some u" for u
        proof -
          have "(u, j) \<noteq> (t, i)" using inj [OF js(1)] u other by auto
          then show ?thesis using old [OF js(1) u js(3)] by (simp add: tree_next_def)
        qed
        then have "walk ent' p4 (js @ [j]) = walk ent p4 (js @ [j])"
          by (simp add: IH walk_snoc split: option.splits)
        then show ?thesis by (simp only: other noext if_False)
      qed
    qed
  qed simp
qed

text \<open>A fresh, empty table under a free entry.\<close>

lemma link_table_walk:
  assumes inv: "is_tree ent ok p4" and t: "walk ent p4 is = Some t" and p: "path (is @ [i])" and none: "ent t i = 0"
    and new: "ent' t i = table_entry n" "aligned n" "\<And>j. j < 512 \<Longrightarrow> ent' n j = 0"
    and old: "\<And>u j. ok u \<Longrightarrow> j < 512 \<Longrightarrow> (u, j) \<noteq> (t, i) \<Longrightarrow> ent' u j = ent u j"
  shows "linked table_of ent ent' p4 is i n"
proof (rule link_walk [OF t p])
  have "path is" using p by simp
  then show "js = is" if "path js" "walk ent p4 js = Some t" for js
    using tree_inv_inj [OF inv that(1) _ that(2) t] by simp
qed (use new none old tree_inv_ok [OF inv] in auto)

lemma link_table:
  assumes inv: "is_tree ent ok p4" and t: "walk ent p4 is = Some t" and p: "path (is @ [i])" and none: "ent t i = 0"
    and new: "ent' t i = table_entry n" "aligned n" "\<And>j. j < 512 \<Longrightarrow> ent' n j = 0"
    and old: "\<And>u j. ok u \<Longrightarrow> j < 512 \<Longrightarrow> (u, j) \<noteq> (t, i) \<Longrightarrow> ent' u j = ent u j"
    and fresh: "\<not> ok n" and ok': "ok' n" "\<And>u. ok u \<Longrightarrow> ok' u"
  shows "is_tree ent' ok' p4" "walk ent' p4 (is @ [i]) = Some n"
    "path js \<Longrightarrow> walk ent p4 js = Some u \<Longrightarrow> walk ent' p4 js = Some u"
    "path js \<Longrightarrow> length js = 3 \<Longrightarrow> j < 512 \<Longrightarrow> leaf ent' p4 js j = leaf ent p4 js j"
proof -
  have path_is: "path is" using p by simp
  note l = link_table_walk [OF inv t p none new old]
  have none': "walk ent p4 (is @ [i]) = None" using t none by (simp add: walk_snoc tree_next_def)
  have walk': "walk ent' p4 js = Some u \<longleftrightarrow> js = is @ [i] \<and> u = n \<or> walk ent p4 js = Some u" if "path js" for js u
    by (rule linked_walk [OF l none' that])
  have other: "n \<noteq> u" if "path js" "walk ent p4 js = Some u" for js u
    using tree_inv_ok [OF inv that] fresh by blast
  show "is_tree ent' ok' p4"
    unfolding tree_inv_def
  proof (intro conjI allI impI; (elim conjE)?)
    show "ok' u" if "path js" "walk ent' p4 js = Some u" for js u
      using walk' [OF that(1), of u] that ok' tree_inv_ok [OF inv that(1)] by blast
    show "js = ks" if "path js" "path ks" "walk ent' p4 js = Some u" "walk ent' p4 ks = Some u" for js ks u
    proof -
      have "js = is @ [i] \<and> u = n \<or> walk ent p4 js = Some u" "ks = is @ [i] \<and> u = n \<or> walk ent p4 ks = Some u"
        using walk' [OF that(1)] walk' [OF that(2)] that(3,4) by blast+
      then show ?thesis
        using other [OF that(1)] other [OF that(2)] tree_inv_inj [OF inv that(1,2)] by blast
    qed
  qed
  show "walk ent' p4 (is @ [i]) = Some n" using l p by (simp add: linked_def)
  show "path js \<Longrightarrow> walk ent p4 js = Some u \<Longrightarrow> walk ent' p4 js = Some u" using walk' by blast
  show "leaf ent' p4 js j = leaf ent p4 js j" if js: "path js" "length js = 3" "j < 512"
  proof (rule linked_leaf [OF l none' new(3) _ js(1,3)])
    fix u assume u: "walk ent p4 js = Some u"
    have "js \<noteq> is" using js(2) p by auto
    then have "u \<noteq> t" using tree_inv_inj [OF inv js(1) path_is] t u by blast
    then show "ent' u j = ent u j" using old tree_inv_ok [OF inv js(1) u] js(3) by blast
  qed
qed

lemma link_links:
  assumes inv: "is_tree ent ok p4" and t: "walk ent p4 is = Some t" and p: "path (is @ [i])" and none: "ent t i = 0"
    and new: "ent' t i = table_entry n" "aligned n" "\<And>j. j < 512 \<Longrightarrow> ent' n j = 0"
    and old: "\<And>u j. ok u \<Longrightarrow> j < 512 \<Longrightarrow> (u, j) \<noteq> (t, i) \<Longrightarrow> ent' u j = ent u j"
    and links: "tree_links P table_of ent p4" "P (table_entry n)"
  shows "tree_links P table_of ent' p4"
  unfolding tree_links_def
proof (intro allI impI, elim conjE)
  fix js j u assume js: "path (js @ [j])" "walk ent' p4 js = Some u" "ent' u j \<noteq> 0"
  have none': "walk ent p4 (is @ [i]) = None" using t none by (simp add: walk_snoc tree_next_def)
  have "path js" "j < 512" using js(1) by simp_all
  then have "js = is @ [i] \<and> u = n \<or> walk ent p4 js = Some u"
    using linked_walk [OF link_table_walk [OF inv t p none new old] none'] js(2) by blast
  then have w: "walk ent p4 js = Some u" using new(3) \<open>j < 512\<close> js(3) by auto
  show "P (ent' u j)"
  proof (cases "(u, j) = (t, i)")
    case False
    then have "ent' u j = ent u j" using old tree_inv_ok [OF inv \<open>path js\<close> w] \<open>j < 512\<close> by blast
    then show ?thesis using links(1) js(1,3) w unfolding tree_links_def by metis
  qed (simp add: new(1) links(2))
qed

text \<open>An entry of a table of the last level.\<close>

lemma leaf_table_apart:
  assumes inv: "is_tree ent ok p4" and t: "walk ent p4 is = Some t" "path is" "length is = 3"
    and js: "path js" "length js \<le> 2" "walk ent p4 js = Some u"
  shows "u \<noteq> t"
  using tree_inv_inj [OF inv js(1) t(2)] t(1,3) js(2,3) by fastforce

lemma store_leaf:
  assumes inv: "is_tree ent ok p4" and t: "walk ent p4 is = Some t" "path is" "length is = 3"
    and ent: "\<And>u j. ok u \<Longrightarrow> j < 512 \<Longrightarrow> ent' u j = (if u = t \<and> j = i then e else ent u j)"
  shows "path js \<Longrightarrow> walk ent' p4 js = walk ent p4 js" "is_tree ent' ok p4"
    "path js \<Longrightarrow> j < 512 \<Longrightarrow> length js = 3 \<Longrightarrow> leaf ent' p4 js j = (if js = is \<and> j = i then e else leaf ent p4 js j)"
proof -
  show walk: "walk ent' p4 js = walk ent p4 js" if "path js" for js
    using that
  proof (induction js rule: rev_induct)
    case (snoc j js)
    then have js: "path js" "length js \<le> 2" "j < 512" by simp_all
    have "tree_next table_of ent' u j = tree_next table_of ent u j" if "walk ent p4 js = Some u" for u
      using leaf_table_apart [OF inv t js(1,2) that] ent [OF tree_inv_ok [OF inv js(1) that] js(3)]
      by (simp add: tree_next_def)
    then show ?case using snoc.IH [OF js(1)] by (simp add: walk_snoc split: option.splits)
  qed simp
  show "is_tree ent' ok p4" using inv walk unfolding tree_inv_def by metis
  show "leaf ent' p4 js j = (if js = is \<and> j = i then e else leaf ent p4 js j)"
    if js: "path js" "j < 512" "length js = 3"
  proof (cases "walk ent p4 js")
    case None
    then have "js \<noteq> is" using t(1) by auto
    then show ?thesis using None walk [OF js(1)] by (simp add: tree_leaf_def)
  next
    case (Some u)
    have "u = t \<longleftrightarrow> js = is" using tree_inv_inj [OF inv js(1) t(2)] Some t(1) by auto
    then show ?thesis
      using Some walk [OF js(1)] ent [OF tree_inv_ok [OF inv js(1) Some] js(2)] by (simp add: tree_leaf_def)
  qed
qed

lemma leaf_links:
  assumes inv: "is_tree ent ok p4" and t: "walk ent p4 is = Some t" "path is" "length is = 3"
    and ent: "\<And>u j. ok u \<Longrightarrow> j < 512 \<Longrightarrow> ent' u j = (if u = t \<and> j = i then e else ent u j)"
    and links: "tree_links P table_of ent p4"
  shows "tree_links P table_of ent' p4"
  unfolding tree_links_def
proof (intro allI impI, elim conjE)
  fix js j u assume js: "path (js @ [j])" "walk ent' p4 js = Some u" "ent' u j \<noteq> 0"
  have "path js" "length js \<le> 2" "j < 512" using js(1) by simp_all
  then have w: "walk ent p4 js = Some u" using store_leaf(1) [OF inv t ent] js(2) by simp
  have "u \<noteq> t" using leaf_table_apart [OF inv t] \<open>path js\<close> \<open>length js \<le> 2\<close> w by blast
  then have "ent' u j = ent u j" using ent tree_inv_ok [OF inv \<open>path js\<close> w] \<open>j < 512\<close> by simp
  then show "P (ent' u j)" using links js(1,3) w unfolding tree_links_def by metis
qed

end

end
