(* ===== verification/Page_Tables.thy ===== *)
theory Page_Tables
  imports Vmm Page_Tree
begin

text \<open>
  What the page tables in memory mean and what the virtual memory manager does to that meaning.
  A four-level tree of tables is read by \<open>walk\<close>, a path of indices; \<open>pte\<close> is the entry that
  decides a virtual address; \<open>processor_translate\<close> is the processor's own walk, which heeds the present
  bits.  The invariant \<open>vm_inv\<close> keeps
  the tables aligned, inside the part of the heap already handed out, off the physical bitmap and
  unshared.  Under it, creating tables does not change \<open>pte\<close>, and mapping and unmapping are updates
  of the abstract function \<open>pte\<close>.
\<close>

section \<open>Pages and entries\<close>

lemma page_aligned_dvd: "page_aligned a \<longleftrightarrow> 4096 dvd unat a"
  by (simp add: page_aligned_def word_unat_eq_iff unat_mod dvd_eq_mod_eq_0)

lemma page_aligned_room: "page_aligned a \<Longrightarrow> unat a + 4096 \<le> 2 ^ 64"
  using aligned_room [of a] by (simp add: page_aligned_dvd)

lemma table_range_unat:
  "page_aligned t \<Longrightarrow> table_bytes t x \<longleftrightarrow> unat t \<le> unat x \<and> unat x < unat t + 4096"
  using table_bytes_unat [of t x] by (simp add: page_aligned_dvd)

text \<open>The kernel's tables are read with 64-bit addresses.\<close>

abbreviation entry :: "64 bytes \<Rightarrow> u64 \<Rightarrow> u64 \<Rightarrow> u64" where
  "entry m t i \<equiv> slot m t i"

lemma entry_ptr_slot: "entry_ptr t i = table_slot t i"
  by (simp add: entry_ptr_def table_slot_def)

lemma entry_load: "load64 m (entry_ptr t i) = entry m t i"
  by (simp add: slot_def entry_ptr_slot)

lemma entry_store:
  assumes "page_aligned t" and "page_aligned u" and "i < 512" and "j < 512"
  shows "entry (store64 m (entry_ptr t i) v) u j = (if u = t \<and> j = i then v else entry m u j)"
  using slot_store [of t u i j m v] assms by (simp add: entry_ptr_slot page_aligned_dvd)

lemma entry_zero_page: "i < 512 \<Longrightarrow> entry (kmem (zero_page s t)) t i = 0"
  by (rule slot_zero) (simp_all add: zero_page_def memset_apply PAGE_SIZE_def)

lemma zero_page_other: "\<not> table_bytes t x \<Longrightarrow> kmem (zero_page s t) x = kmem s x"
  by (simp add: zero_page_def memset_apply PAGE_SIZE_def)

lemma zero_page_fields [simp]:
  "kheap (zero_page s p) = kheap s" "kernel_pmm (zero_page s p) = kernel_pmm s"
  "kernel_vmm (zero_page s p) = kernel_vmm s" "cr3 (zero_page s p) = cr3 s"
  "if_flag (zero_page s p) = if_flag s" "klog (zero_page s p) = klog s"
  by (simp_all add: zero_page_def)

lemma store_entry_fields [simp]:
  "kheap (store_entry s p v) = kheap s" "kernel_pmm (store_entry s p v) = kernel_pmm s"
  "kernel_vmm (store_entry s p v) = kernel_vmm s" "cr3 (store_entry s p v) = cr3 s"
  "if_flag (store_entry s p v) = if_flag s" "klog (store_entry s p v) = klog s"
  "kmem (store_entry s p v) = store64 (kmem s) p v"
  by (simp_all add: store_entry_def)

section \<open>The table an entry refers to\<close>

definition table_of :: "u64 \<Rightarrow> u64" where
  "table_of e = MEM_PHYS_TO_VIRT (VMM_PAGE_ENTRY_ADDR e)"

definition table_entry :: "u64 \<Rightarrow> u64" where
  "table_entry t = VMM_PAGE_CREATE_ENTRY (MEM_VIRT_TO_PHYS t) (VMM_PAGE_PRESENT OR VMM_PAGE_WRITE)"

lemma table_entry_nonzero: "table_entry t \<noteq> 0"
proof
  assume "table_entry t = 0"
  then have "bit (table_entry t) 0 = bit (0 :: u64) 0" by simp
  then show False
    by (simp add: table_entry_def VMM_PAGE_CREATE_ENTRY_def VMM_PAGE_PRESENT_def VMM_PAGE_WRITE_def
        bit_simps)
qed

lemma page_aligned_bits: "page_aligned a \<longleftrightarrow> (\<forall>n < 12. \<not> bit a n)"
proof -
  have "a mod 0x1000 = take_bit 12 a" by (simp add: take_bit_eq_mod)
  then have "page_aligned a \<longleftrightarrow> take_bit 12 a = 0" by (simp add: page_aligned_def)
  also have "\<dots> \<longleftrightarrow> (\<forall>n < 12. \<not> bit a n)"
    by (auto simp: bit_eq_iff bit_simps dest: bit_imp_le_length)
  finally show ?thesis .
qed

lemma page_aligned_add:
  assumes "page_aligned a" and "page_aligned b"
  shows "page_aligned (a + b)"
proof -
  have "4096 dvd (unat a + unat b) mod 2 ^ 64"
    using assms unfolding page_aligned_dvd by (intro dvd_mod dvd_add) auto
  then show ?thesis by (simp add: page_aligned_dvd unat_word_ariths)
qed

lemma page_aligned_phys:
  assumes "page_aligned a"
  shows "page_aligned (MEM_VIRT_TO_PHYS a)" "page_aligned (MEM_PHYS_TO_VIRT a)"
proof -
  have "page_aligned (a + - KERNEL_VMB)"
    using assms by (rule page_aligned_add) (simp add: page_aligned_def KERNEL_VMB_def)
  then show "page_aligned (MEM_VIRT_TO_PHYS a)" by (simp add: MEM_VIRT_TO_PHYS_def)
  show "page_aligned (MEM_PHYS_TO_VIRT a)" unfolding MEM_PHYS_TO_VIRT_def
    using assms by (rule page_aligned_add) (simp add: page_aligned_def KERNEL_VMB_def)
qed

lemma table_of_entry:
  assumes "page_aligned t"
  shows "table_of (table_entry t) = t"
proof -
  let ?p = "MEM_VIRT_TO_PHYS t"
  have "\<not> bit ?p n" if "n < 12" for n
    using that page_aligned_phys [OF assms] by (simp add: page_aligned_bits)
  then have "(?p OR mask 2) AND NOT (mask 8) = ?p"
    by (intro bit_word_eqI) (auto simp: bit_simps)
  then have "(?p OR (1 OR 2)) AND NOT 0xFF = ?p" by (simp add: mask_eq_exp_minus_1)
  then show ?thesis
    by (simp add: table_of_def table_entry_def VMM_PAGE_CREATE_ENTRY_def VMM_PAGE_ENTRY_ADDR_def
        VMM_PAGE_PRESENT_def VMM_PAGE_WRITE_def)
qed

section \<open>The kernel's tables as a tree\<close>

interpretation kernel_tree: page_tree table_of table_entry page_aligned
  by unfold_locales (simp_all add: table_entry_nonzero table_of_entry)

abbreviation next_table :: "64 bytes \<Rightarrow> u64 \<Rightarrow> u64 \<Rightarrow> u64 option" where
  "next_table m \<equiv> tree_next table_of (entry m)"

abbreviation walk :: "64 bytes \<Rightarrow> u64 \<Rightarrow> u64 list \<Rightarrow> u64 option" where
  "walk m \<equiv> tree_walk table_of (entry m)"

abbreviation leaf :: "64 bytes \<Rightarrow> u64 \<Rightarrow> u64 list \<Rightarrow> u64 \<Rightarrow> u64" where
  "leaf m \<equiv> tree_leaf table_of (entry m)"

text \<open>The invariant of the tables rooted at \<open>p4\<close>, in a state of the kernel.\<close>

definition heap_ready :: "kstate \<Rightarrow> bool" where
  "heap_ready s \<longleftrightarrow> heap_cursor s \<le> heap_limit s \<and> heap_limit s + 0x2000 \<le> 2 ^ 64 \<and>
     (\<forall>x. in_bitset (bitmap (kernel_pmm s)) x \<longrightarrow> unat x < heap_cursor s)"

definition table_ok :: "kstate \<Rightarrow> u64 \<Rightarrow> bool" where
  "table_ok s t \<longleftrightarrow> page_aligned t \<and> t \<noteq> 0 \<and> unat t + 0x1000 \<le> heap_cursor s \<and>
     (\<forall>x. table_bytes t x \<longrightarrow> \<not> in_bitset (bitmap (kernel_pmm s)) x)"

definition vm_inv :: "kstate \<Rightarrow> u64 \<Rightarrow> bool" where
  "vm_inv s p4 \<longleftrightarrow> heap_ready s \<and> tree_inv table_of (entry (kmem s)) (table_ok s) p4"

section \<open>find_page_table\<close>

lemma find_page_table_found:
  "entry (kmem s) t i \<noteq> 0 \<Longrightarrow> find_page_table s t i create = Inr (table_of (entry (kmem s) t i), s)"
  by (simp add: find_page_table_def entry_load table_of_def)

lemma find_page_table_missing:
  "entry (kmem s) t i = 0 \<Longrightarrow> find_page_table s t i False = Inr (0, s)"
  by (simp add: find_page_table_def entry_load)

lemma find_page_table_create:
  "entry (kmem s) t i = 0 \<Longrightarrow> find_page_table s t i True = Inr (n, s') \<longleftrightarrow>
     (\<exists>s1. kmalloc_aligned s PAGE_SIZE 0x1000 = Inr (n, s1) \<and>
           s' = store_entry (zero_page s1 n) (entry_ptr t i) (table_entry n))"
  by (auto simp: find_page_table_def entry_load table_entry_def res_simps Let_def)

text \<open>What \<open>kmalloc\<close> keeps and gives, for a page of a heap that is ready.\<close>

lemma kmalloc_page_ready:
  assumes "heap_ready s" and "kmalloc_aligned s PAGE_SIZE 0x1000 = Inr (n, s1)"
  shows "page_aligned n" "heap_cursor s \<le> unat n" "heap_cursor s1 = unat n + 0x1000"
    "heap_limit s1 = heap_limit s" "currentMode (kheap s1) = currentMode (kheap s)"
    "heap_ready s1" "kernel_pmm s1 = kernel_pmm s" "kernel_vmm s1 = kernel_vmm s" "cr3 s1 = cr3 s"
    "\<And>x. \<not> in_bitset (bitmap (kernel_pmm s)) x \<Longrightarrow> kmem s1 x = kmem s x"
    "unat n < heap_cursor s + 0x1000"
proof -
  have adm: "admissible_request (heap_limit s) PAGE_SIZE 0x1000"
    using assms(1) by (simp add: heap_ready_def admissible_request_def PAGE_SIZE_def)
  have le: "heap_cursor s \<le> heap_limit s" using assms(1) by (simp add: heap_ready_def)
  note k = kmalloc_admissible [OF assms(2) le adm]
  note f = kmalloc_frame [OF assms(2)]
  show "page_aligned n" using k(1) by (simp add: page_aligned_dvd)
  show "heap_cursor s \<le> unat n" "heap_cursor s1 = unat n + 0x1000" "heap_limit s1 = heap_limit s"
    "unat n < heap_cursor s + 0x1000"
    using k(2,3,5,6) by (simp_all add: PAGE_SIZE_def)
  show "currentMode (kheap s1) = currentMode (kheap s)" using kmalloc_heap [OF assms(2)] by simp
  show "kernel_pmm s1 = kernel_pmm s" "kernel_vmm s1 = kernel_vmm s" "cr3 s1 = cr3 s" using f by auto
  show "\<And>x. \<not> in_bitset (bitmap (kernel_pmm s)) x \<Longrightarrow> kmem s1 x = kmem s x" using f by auto
  have "heap_cursor s \<le> heap_cursor s1" using k(2,3) by linarith
  then show "heap_ready s1"
    using assms(1) k(4,5) f by (auto simp: heap_ready_def intro: less_le_trans)
qed

text \<open>What a step of the walk, with or without creation, does to a well-formed tree.\<close>

definition vm_step :: "kstate \<Rightarrow> u64 \<Rightarrow> kstate \<Rightarrow> bool" where
  "vm_step s p4 s' \<longleftrightarrow> vm_inv s' p4 \<and>
     (\<forall>js j. path js \<longrightarrow> length js = 3 \<longrightarrow> j < 512 \<longrightarrow> leaf (kmem s') p4 js j = leaf (kmem s) p4 js j) \<and>
     (\<forall>js u. path js \<longrightarrow> walk (kmem s) p4 js = Some u \<longrightarrow> walk (kmem s') p4 js = Some u) \<and>
     kernel_pmm s' = kernel_pmm s \<and> kernel_vmm s' = kernel_vmm s \<and> cr3 s' = cr3 s \<and>
     heap_limit s' = heap_limit s \<and> currentMode (kheap s') = currentMode (kheap s)"

lemma vm_step_refl: "vm_inv s p4 \<Longrightarrow> vm_step s p4 s"
  by (simp add: vm_step_def)

lemma vm_step_trans: "vm_step s p4 t \<Longrightarrow> vm_step t p4 u \<Longrightarrow> vm_step s p4 u"
  by (simp add: vm_step_def)

lemma vm_inv_table:
  "vm_inv s p4 \<Longrightarrow> path is \<Longrightarrow> walk (kmem s) p4 is = Some t \<Longrightarrow> table_ok s t"
  by (auto simp: vm_inv_def tree_inv_def)

lemma table_ok_aligned: "table_ok s t \<Longrightarrow> page_aligned t"
  by (simp add: table_ok_def)

lemma create_table:
  assumes inv: "vm_inv s p4" and t: "walk (kmem s) p4 is = Some t" and p: "path (is @ [i])"
    and none: "entry (kmem s) t i = 0" and run: "kmalloc_aligned s PAGE_SIZE 0x1000 = Inr (n, s1)"
    and s': "s' = store_entry (zero_page s1 n) (entry_ptr t i) (table_entry n)"
  shows "vm_step s p4 s' \<and> walk (kmem s') p4 (is @ [i]) = Some n"
proof -
  have ready: "heap_ready s" using inv by (simp add: vm_inv_def)
  note k = kmalloc_page_ready [OF ready run]
  have path_is: "path is" and i: "i < 512" using p by simp_all
  have tok: "table_ok s t" using vm_inv_table [OF inv path_is t] .
  let ?m = "kmem s" and ?m1 = "kmem (zero_page s1 n)" and ?m' = "kmem s'"
  have m': "?m' = store64 ?m1 (entry_ptr t i) (table_entry n)" by (simp add: s')
  have nrange: "table_bytes n x \<longleftrightarrow> unat n \<le> unat x \<and> unat x < unat n + 4096" for x
    using k(1) by (rule table_range_unat)
  have oldm1: "entry ?m1 u j = entry ?m u j" if "table_ok s u" "j < 512" for u j
  proof (rule slot_cong [OF that(2)]; simp?)
    fix x assume x: "table_bytes u x"
    then have "\<not> table_bytes n x"
      using that(1) k(2) by (auto simp: nrange table_range_unat table_ok_def)
    then show "?m1 x = ?m x" using that(1) x k(10) by (simp add: zero_page_other table_ok_def)
  qed
  have nt: "n \<noteq> t" using tok k(2) by (auto simp: table_ok_def)
  have "entry ?m' n j = 0" if "j < 512" for j
    using entry_store [OF table_ok_aligned [OF tok] k(1) i that] entry_zero_page [OF that] nt by (simp add: m')
  note new = this
  have old: "entry ?m' u j = entry ?m u j" if "table_ok s u" "j < 512" "(u, j) \<noteq> (t, i)" for u j
    using entry_store [OF table_ok_aligned [OF tok] table_ok_aligned [OF that(1)] i that(2)] oldm1 [OF that(1,2)] that(3)
    by (auto simp: m')
  have link: "entry ?m' t i = table_entry n"
    using entry_store [OF table_ok_aligned [OF tok] table_ok_aligned [OF tok] i i] by (simp add: m')
  have tree: "tree_inv table_of (entry ?m) (table_ok s) p4" using inv by (simp add: vm_inv_def)
  have n0: "n \<noteq> 0" using k(2) tok by (auto simp: table_ok_def)
  have nok: "table_ok s' n"
    using k n0 ready by (auto simp: table_ok_def s' nrange heap_ready_def)
  have keep: "table_ok s' u" if "table_ok s u" for u
    using that k(2,3,7) by (auto simp: table_ok_def s')
  have "\<not> table_ok s n" using k(2) by (auto simp: table_ok_def)
  note new_table = kernel_tree.link_table [where ent' = "entry ?m'" and ok' = "table_ok s'", OF tree t p none link k(1) new old this nok keep]
  have "vm_inv s' p4" using new_table(1) k(6) by (simp add: vm_inv_def heap_ready_def s')
  moreover have "kernel_pmm s' = kernel_pmm s \<and> kernel_vmm s' = kernel_vmm s \<and> cr3 s' = cr3 s \<and>
     heap_limit s' = heap_limit s \<and> currentMode (kheap s') = currentMode (kheap s)"
    using k by (simp add: s')
  ultimately show ?thesis using new_table(2-4) unfolding vm_step_def by blast
qed

lemma find_page_table_step:
  assumes inv: "vm_inv s p4" and t: "walk (kmem s) p4 is = Some t" and p: "path (is @ [i])"
    and run: "find_page_table s t i True = Inr (n, s')"
  shows "vm_step s p4 s' \<and> walk (kmem s') p4 (is @ [i]) = Some n \<and> n \<noteq> 0"
proof (cases "entry (kmem s) t i = 0")
  case True
  with run obtain s1 where "kmalloc_aligned s PAGE_SIZE 0x1000 = Inr (n, s1)"
      "s' = store_entry (zero_page s1 n) (entry_ptr t i) (table_entry n)"
    by (auto simp: find_page_table_create)
  from create_table [OF inv t p True this] have step: "vm_step s p4 s'"
      "walk (kmem s') p4 (is @ [i]) = Some n"
    by auto
  then have "vm_inv s' p4" by (simp add: vm_step_def)
  then have "table_ok s' n" using p step(2) by (rule vm_inv_table)
  then show ?thesis using step by (simp add: table_ok_def)
next
  case False
  then have eq: "s' = s" "n = table_of (entry (kmem s) t i)"
    using run by (auto simp: find_page_table_found)
  then have w: "walk (kmem s) p4 (is @ [i]) = Some n"
    using t False by (simp add: walk_snoc tree_next_def)
  from vm_inv_table [OF inv p w] show ?thesis
    using w eq(1) vm_step_refl [OF inv] by (simp add: table_ok_def)
qed

section \<open>Addresses\<close>

definition table_path :: "u64 \<Rightarrow> u64 list" where
  "table_path v = [index_p4 v, index_p3 v, index_p2 v]"

definition pte :: "64 bytes \<Rightarrow> u64 \<Rightarrow> u64 \<Rightarrow> u64" where
  "pte m p4 v = leaf m p4 (table_path v) (index_p1 v)"

text \<open>The page of an address, as the processor sees it: bits 12 to 47.\<close>

definition vpage :: "u64 \<Rightarrow> u64" where
  "vpage v = drop_bit 12 v AND mask 36"

text \<open>
  What the processor makes of a virtual address, independent of how the two programs find their tables.
  \<open>ent t i\<close> is entry \<open>i\<close> of the table at the physical address \<open>t\<close>.  The address has to be canonical and
  every entry on the way present; the next table, or the frame, is in bits 12 to 51; an entry of the
  second or third level with the page-size bit is itself the entry of a large page.  \<open>None\<close> is a page fault.
\<close>

definition entry_frame :: "u64 \<Rightarrow> u64" where "entry_frame e = e AND 0x000FFFFFFFFFF000"

definition canonical :: "u64 \<Rightarrow> bool" where
  "canonical v \<longleftrightarrow> drop_bit 47 v = 0 \<or> drop_bit 47 v = 0x1FFFF"

definition processor_translate :: "(u64 \<Rightarrow> u64 \<Rightarrow> u64) \<Rightarrow> u64 \<Rightarrow> u64 \<Rightarrow> u64 option" where
  "processor_translate ent root v =
     (let e4 = ent (entry_frame root) (index_p4 v); e3 = ent (entry_frame e4) (index_p3 v);
          e2 = ent (entry_frame e3) (index_p2 v); e1 = ent (entry_frame e2) (index_p1 v) in
      if \<not> canonical v \<or> \<not> bit e4 0 \<or> bit e4 7 \<or> \<not> bit e3 0 then None
      else if bit e3 7 then Some ((e3 AND 0x000FFFFFC0000000) OR (v AND 0x3FFFFFFF))
      else if \<not> bit e2 0 then None
      else if bit e2 7 then Some ((e2 AND 0x000FFFFFFFE00000) OR (v AND 0x1FFFFF))
      else if \<not> bit e1 0 then None
      else Some (entry_frame e1 OR (v AND 0xFFF)))"

lemma entry_frame_aligned:
  assumes "page_aligned w" and "w < 0x100000000"
  shows "entry_frame (w OR 3) = w" "entry_frame w = w"
proof -
  have low: "\<not> bit w n" if "n < 12" for n using assms(1) that by (simp add: page_aligned_bits)
  have "take_bit 32 w = w" using assms(2) by (simp add: word_less_nat_alt word_unat_eq_iff unat_mod take_bit_eq_mod)
  then have high: "\<not> bit w n" if "32 \<le> n" for n using that by (metis bit_take_bit_iff not_less)
  have "(w OR x) AND push_bit 12 (mask 40) = w" if "x = mask 2 \<or> x = 0" for x
  proof (rule bit_word_eqI)
    fix n
    show "bit ((w OR x) AND push_bit 12 (mask 40)) n \<longleftrightarrow> bit w n"
      using that low [of n] high [of n] by (cases "n < 12"; cases "32 \<le> n") (auto simp: bit_simps)
  qed
  from this [of 0] this [of "mask 2"] show "entry_frame (w OR 3) = w" "entry_frame w = w"
    by (simp_all add: entry_frame_def mask_eq_exp_minus_1 push_bit_eq_mult)
qed

lemma and_511: "(w :: u64) AND 511 = take_bit 9 w"
  by (simp add: take_bit_eq_mask mask_eq_exp_minus_1)

lemmas index_defs = index_p4_def index_p3_def index_p2_def index_p1_def and_511

lemma index_less [simp]:
  "index_p4 v < 512" "index_p3 v < 512" "index_p2 v < 512" "index_p1 v < 512"
proof -
  have "take_bit 9 w < 512" for w :: u64
    using take_bit_nat_less_exp [of 9 "unat w"]
    by (simp add: word_less_nat_alt unsigned_take_bit_eq)
  then show "index_p4 v < 512" "index_p3 v < 512" "index_p2 v < 512" "index_p1 v < 512"
    by (simp_all add: index_defs)
qed

lemma path_table_path [simp]: "path (table_path v)" "length (table_path v) = 3"
  by (simp_all add: path_def table_path_def)

lemma index_vpage:
  "index_p1 v = take_bit 9 (vpage v)" "index_p2 v = take_bit 9 (drop_bit 9 (vpage v))"
  "index_p3 v = take_bit 9 (drop_bit 18 (vpage v))" "index_p4 v = take_bit 9 (drop_bit 27 (vpage v))"
  by (rule bit_word_eqI; auto simp: index_defs vpage_def bit_simps)+

lemma vpage_index:
  "vpage v = index_p1 v OR push_bit 9 (index_p2 v) OR push_bit 18 (index_p3 v) OR push_bit 27 (index_p4 v)"
proof (rule bit_word_eqI)
  fix n :: nat
  have "n < 9 \<or> (\<exists>d < 9. n = 9 + d) \<or> (\<exists>d < 9. n = 18 + d) \<or> (\<exists>d. n = 27 + d)"
    by presburger
  then show "bit (vpage v) n \<longleftrightarrow>
      bit (index_p1 v OR push_bit 9 (index_p2 v) OR push_bit 18 (index_p3 v) OR push_bit 27 (index_p4 v)) n"
    by (elim disjE exE conjE) (auto simp: index_defs vpage_def bit_simps)
qed

lemma vpage_eq: "vpage v = vpage w \<longleftrightarrow> table_path v = table_path w \<and> index_p1 v = index_p1 w"
  using vpage_index [of v] vpage_index [of w] by (auto simp: table_path_def index_vpage)

section \<open>find_page_entry\<close>

lemma entry_ptr_nonzero:
  assumes "table_ok s t"
  shows "entry_ptr t (index_p1 v) \<noteq> 0"
proof -
  have "unat (8 * index_p1 v) = 8 * unat (index_p1 v)" and "unat (index_p1 v) < 512"
    using index_less(4) [of v] by (simp_all add: word_less_nat_alt unat_word_ariths)
  then have "unat (entry_ptr t (index_p1 v)) = unat t + 8 * unat (index_p1 v)"
    using page_aligned_room [OF table_ok_aligned [OF assms]] by (simp add: entry_ptr_def unat_add_lt)
  moreover have "unat t \<noteq> 0" using assms by (simp add: unat_eq_zero table_ok_def)
  ultimately show ?thesis by auto
qed

lemma find_page_entry_eq:
  assumes "vm_inv s p4" and run: "find_page_entry s p4 v True = Inr (a, s')"
  obtains p3 s1 p2 s2 p1 where "find_page_table s p4 (index_p4 v) True = Inr (p3, s1)"
    "p3 \<noteq> 0 \<Longrightarrow> find_page_table s1 p3 (index_p3 v) True = Inr (p2, s2)"
    "p3 \<noteq> 0 \<Longrightarrow> p2 \<noteq> 0 \<Longrightarrow> find_page_table s2 p2 (index_p2 v) True = Inr (p1, s')"
    "p3 \<noteq> 0 \<Longrightarrow> p2 \<noteq> 0 \<Longrightarrow> p1 \<noteq> 0 \<Longrightarrow> a = entry_ptr p1 (index_p1 v)"
  using run unfolding find_page_entry_def
  by (fastforce simp: bind_r_eq_Inr split: if_splits)

lemma find_page_entry_step:
  assumes inv: "vm_inv s p4" and run: "find_page_entry s p4 v True = Inr (a, s')"
  shows "\<exists>t. vm_step s p4 s' \<and> walk (kmem s') p4 (table_path v) = Some t \<and>
    a = entry_ptr t (index_p1 v) \<and> a \<noteq> 0"
proof -
  have w0: "walk (kmem s) p4 [] = Some p4" by simp
  obtain p3 s1 p2 s2 p1 where 1: "find_page_table s p4 (index_p4 v) True = Inr (p3, s1)"
    and 2: "p3 \<noteq> 0 \<Longrightarrow> find_page_table s1 p3 (index_p3 v) True = Inr (p2, s2)"
    and 3: "p3 \<noteq> 0 \<Longrightarrow> p2 \<noteq> 0 \<Longrightarrow> find_page_table s2 p2 (index_p2 v) True = Inr (p1, s')"
    and a: "p3 \<noteq> 0 \<Longrightarrow> p2 \<noteq> 0 \<Longrightarrow> p1 \<noteq> 0 \<Longrightarrow> a = entry_ptr p1 (index_p1 v)"
    using find_page_entry_eq [OF inv run] by metis
  have w3: "vm_step s p4 s1" "walk (kmem s1) p4 ([] @ [index_p4 v]) = Some p3" "p3 \<noteq> 0"
    using find_page_table_step [OF inv w0 _ 1] by (auto simp: path_def)
  then have inv1: "vm_inv s1 p4" by (simp add: vm_step_def)
  have w2: "vm_step s1 p4 s2" "walk (kmem s2) p4 (([] @ [index_p4 v]) @ [index_p3 v]) = Some p2" "p2 \<noteq> 0"
    using find_page_table_step [OF inv1 w3(2) _ 2 [OF w3(3)]] by (auto simp: path_def)
  then have inv2: "vm_inv s2 p4" by (simp add: vm_step_def)
  have w1: "vm_step s2 p4 s'"
    "walk (kmem s') p4 ((([] @ [index_p4 v]) @ [index_p3 v]) @ [index_p2 v]) = Some p1" "p1 \<noteq> 0"
    using find_page_table_step [OF inv2 w2(2) _ 3 [OF w3(3) w2(3)]] by (auto simp: path_def)
  have tp: "walk (kmem s') p4 (table_path v) = Some p1" using w1(2) by (simp add: table_path_def)
  have "vm_inv s' p4" using w1(1) by (simp add: vm_step_def)
  then have ok: "table_ok s' p1" using path_table_path(1) tp by (rule vm_inv_table)
  have "entry_ptr p1 (index_p1 v) \<noteq> 0" using ok by (rule entry_ptr_nonzero)
  then show ?thesis
    using vm_step_trans [OF w3(1) vm_step_trans [OF w2(1) w1(1)]] tp a [OF w3(3) w2(3) w1(3)] by blast
qed

text \<open>The walk without creation: the address of the entry, or null, in an unchanged state.\<close>

lemma find_page_entry_lookup:
  assumes inv: "vm_inv s p4"
  shows "find_page_entry s p4 v False = Inr
    (case walk (kmem s) p4 (table_path v) of None \<Rightarrow> 0 | Some t \<Rightarrow> entry_ptr t (index_p1 v), s)"
proof -
  have step: "find_page_table s t i False = Inr (case next_table (kmem s) t i of None \<Rightarrow> 0 | Some u \<Rightarrow> u, s)"
    for t i by (simp add: tree_next_def find_page_table_found find_page_table_missing)
  have nonzero: "u \<noteq> 0" if "walk (kmem s) p4 is = Some u" "path is" for u "is"
    using vm_inv_table [OF inv that(2,1)] by (simp add: table_ok_def)
  show ?thesis
    using nonzero [of "[index_p4 v]"] nonzero [of "[index_p4 v, index_p3 v]"] nonzero [of "table_path v"]
    by (auto simp: find_page_entry_def step table_path_def path_def split: option.splits)
qed

section \<open>Writing a leaf entry\<close>

lemma store_leaf_entry:
  assumes inv: "vm_inv s p4" and t: "walk (kmem s) p4 (table_path v) = Some t"
    and s': "s' = store_entry s (entry_ptr t (index_p1 v)) e"
  shows "vm_inv s' p4" "pte (kmem s') p4 w = (if vpage w = vpage v then e else pte (kmem s) p4 w)"
proof -
  let ?m = "kmem s" and ?m' = "kmem s'" and ?i = "index_p1 v"
  have tok: "table_ok s t" using inv path_table_path(1) t by (rule vm_inv_table)
  have ent: "entry ?m' u j = (if u = t \<and> j = ?i then e else entry ?m u j)"
    if "table_ok s u" "j < 512" for u j
    using entry_store [OF table_ok_aligned [OF tok] table_ok_aligned [OF that(1)] index_less(4) that(2)]
    by (simp add: s')
  have ok: "table_ok s' u = table_ok s u" for u by (simp add: table_ok_def s')
  have ready: "heap_ready s' = heap_ready s" by (simp add: heap_ready_def s')
  have tree: "tree_inv table_of (entry ?m) (table_ok s) p4" using inv by (simp add: vm_inv_def)
  note leaf = kernel_tree.store_leaf [where ent' = "entry ?m'", OF tree t path_table_path ent]
  show "vm_inv s' p4" using inv leaf(2) by (simp add: vm_inv_def ready ok [abs_def])
  show "pte ?m' p4 w = (if vpage w = vpage v then e else pte ?m p4 w)"
    using leaf(3) [of "table_path w" "index_p1 w"] by (simp add: pte_def vpage_eq)
qed

section \<open>Mapping and unmapping one page\<close>

text \<open>The parts of the state that changing a mapping does not touch.\<close>

definition mapping_frame :: "kstate \<Rightarrow> kstate \<Rightarrow> bool" where
  "mapping_frame s s' \<longleftrightarrow> kernel_pmm s' = kernel_pmm s \<and> kernel_vmm s' = kernel_vmm s \<and>
     cr3 s' = cr3 s \<and> heap_limit s' = heap_limit s \<and> currentMode (kheap s') = currentMode (kheap s)"

lemma mapping_frame_refl [simp]: "mapping_frame s s"
  by (simp add: mapping_frame_def)

lemma mapping_frame_trans: "mapping_frame s t \<Longrightarrow> mapping_frame t u \<Longrightarrow> mapping_frame s u"
  by (simp add: mapping_frame_def)

lemma vm_step_pte: "vm_step s p4 s' \<Longrightarrow> pte (kmem s') p4 w = pte (kmem s) p4 w"
  by (simp add: vm_step_def pte_def)

lemma pte_at_walk:
  "walk m p4 (table_path v) = Some t \<Longrightarrow> load64 m (entry_ptr t (index_p1 v)) = pte m p4 v"
  by (simp add: pte_def tree_leaf_def entry_load)

lemma map_one_step:
  assumes inv: "vm_inv s p4" and run: "map_one s p4 v p flags = Inr s'"
  shows "vm_inv s' p4 \<and> mapping_frame s s' \<and> pte (kmem s) p4 v AND VMM_PAGE_PRESENT = 0 \<and>
    (\<forall>w. pte (kmem s') p4 w =
       (if vpage w = vpage v then VMM_PAGE_CREATE_ENTRY p (ucast flags) else pte (kmem s) p4 w))"
proof -
  from run obtain a s1 where 1: "find_page_entry s p4 v True = Inr (a, s1)" "a \<noteq> 0"
    "load64 (kmem s1) a AND VMM_PAGE_PRESENT = 0"
    "s' = store_entry s1 a (VMM_PAGE_CREATE_ENTRY p (ucast flags))"
    by (auto simp: map_one_def bind_r_eq_Inr split: if_splits)
  from find_page_entry_step [OF inv 1(1)] obtain t where t: "vm_step s p4 s1"
      "walk (kmem s1) p4 (table_path v) = Some t" "a = entry_ptr t (index_p1 v)"
    by blast
  have inv1: "vm_inv s1 p4" using t(1) by (simp add: vm_step_def)
  have "mapping_frame s s'" using t(1) by (simp add: 1(4) vm_step_def mapping_frame_def)
  moreover have "pte (kmem s) p4 v AND VMM_PAGE_PRESENT = 0"
    using 1(3) pte_at_walk [OF t(2)] vm_step_pte [OF t(1)] by (simp add: t(3))
  ultimately show ?thesis
    using store_leaf_entry [OF inv1 t(2) 1(4) [unfolded t(3)]] vm_step_pte [OF t(1)] by simp
qed

lemma unmap_one_step:
  assumes inv: "vm_inv s p4" and run: "unmap_one s p4 v = Inr s'"
  shows "vm_inv s' p4 \<and> mapping_frame s s' \<and>
    (\<forall>w. pte (kmem s') p4 w = (if vpage w = vpage v then VMM_PAGE_WRITE else pte (kmem s) p4 w))"
proof -
  from run obtain a s1 where 1: "find_page_entry s p4 v True = Inr (a, s1)" "a \<noteq> 0"
    "s' = store_entry s1 a VMM_PAGE_WRITE"
    by (auto simp: unmap_one_def bind_r_eq_Inr split: if_splits)
  from find_page_entry_step [OF inv 1(1)] obtain t where t: "vm_step s p4 s1"
      "walk (kmem s1) p4 (table_path v) = Some t" "a = entry_ptr t (index_p1 v)"
    by blast
  have inv1: "vm_inv s1 p4" using t(1) by (simp add: vm_step_def)
  have "mapping_frame s s'" using t(1) by (simp add: 1(3) vm_step_def mapping_frame_def)
  then show ?thesis
    using store_leaf_entry [OF inv1 t(2) 1(3) [unfolded t(3)]] vm_step_pte [OF t(1)] by simp
qed

section \<open>Ranges of pages\<close>

definition page_at :: "u64 \<Rightarrow> nat \<Rightarrow> u64" where
  "page_at addr k = vpage (addr + of_nat k * PAGE_SIZE)"

definition page_count :: "u64 \<Rightarrow> nat" where
  "page_count sz = (unat sz + 4095) div 4096"

lemma page_count_eq: "page_count sz = unat sz div 4096 + (if 4096 dvd unat sz then 0 else 1)"
proof -
  let ?r = "unat sz mod 4096"
  have "page_count sz = unat sz div 4096 + (?r + 4095) div 4096"
    using div_add1_eq [of "unat sz" 4095 4096] by (simp add: page_count_def)
  moreover have "(?r + 4095) div 4096 = (if ?r = 0 then 0 else 1)"
    using mod_less_divisor [of 4096 "unat sz"] by (auto intro!: div_nat_eqI)
  ultimately show ?thesis by (simp add: dvd_eq_mod_eq_0)
qed

text \<open>A range that neither wraps nor is longer than the processor's address space.\<close>

definition range_ok :: "u64 \<Rightarrow> u64 \<Rightarrow> bool" where
  "range_ok addr sz \<longleftrightarrow> unat addr + unat sz + 4095 < 2 ^ 64 \<and> unat sz \<le> 2 ^ 48"

lemma page_at_0 [simp]: "page_at addr 0 = vpage addr"
  by (simp add: page_at_def)

lemma page_at_Suc: "page_at addr (Suc k) = page_at (addr + PAGE_SIZE) k"
  by (simp add: page_at_def algebra_simps)

lemma unat_vpage: "unat (vpage v) = unat v div 4096 mod 2 ^ 36"
  by (simp add: vpage_def unsigned_drop_bit_eq unsigned_take_bit_eq drop_bit_eq_div take_bit_eq_mod
      unat_div unat_mod flip: take_bit_eq_mask)

lemma page_at_distinct:
  assumes "unat addr + 4096 * k < 2 ^ 64" and "0 < k" and "k < 2 ^ 36"
  shows "page_at addr k \<noteq> vpage addr"
proof
  assume eq: "page_at addr k = vpage addr"
  have "unat (of_nat k * PAGE_SIZE) = k * 4096"
    using assms(1) by (simp add: unat_word_ariths unat_of_nat PAGE_SIZE_def)
  then have "unat (addr + of_nat k * PAGE_SIZE) = unat addr + k * 4096"
    using assms(1) by (subst unat_add_lt) simp_all
  then have "unat (page_at addr k) = (unat addr div 4096 + k) mod 2 ^ 36"
    by (simp add: page_at_def unat_vpage add.commute)
  with eq have "(unat addr div 4096 + k) mod 2 ^ 36 = (unat addr div 4096) mod 2 ^ 36"
    by (simp add: unat_vpage)
  then have "2 ^ 36 dvd k" by (simp add: mod_eq_dvd_iff_nat)
  then show False using assms(2,3) by (auto dest: dvd_imp_le)
qed

lemma next_page:
  assumes "addr < lim" and "unat lim + 4095 < 2 ^ 64"
  shows "unat (addr + PAGE_SIZE) = unat addr + 4096"
  using assms by (intro unat_add_lt [THEN trans]) (simp_all add: word_less_nat_alt PAGE_SIZE_def)

text \<open>Entries before, after the first page and after all pages, put together.\<close>

lemma mapped_pages_Suc:
  fixes e f g :: "u64 \<Rightarrow> u64"
  assumes apart: "\<And>k. k < n \<Longrightarrow> page_at addr (Suc k) \<noteq> vpage addr"
    and free: "\<And>w. vpage w = vpage addr \<Longrightarrow> e w AND VMM_PAGE_PRESENT = 0"
    and first: "\<And>w. f w = (if vpage w = vpage addr then VMM_PAGE_CREATE_ENTRY p fl else e w)"
    and rest: "\<And>k w. k < n \<Longrightarrow> vpage w = page_at (addr + PAGE_SIZE) k \<Longrightarrow> f w AND VMM_PAGE_PRESENT = 0 \<and>
       g w = VMM_PAGE_CREATE_ENTRY (p + PAGE_SIZE + of_nat k * PAGE_SIZE) fl"
    and other: "\<And>w. (\<And>k. k < n \<Longrightarrow> vpage w \<noteq> page_at (addr + PAGE_SIZE) k) \<Longrightarrow> g w = f w"
  shows "k < Suc n \<Longrightarrow> vpage w = page_at addr k \<Longrightarrow> e w AND VMM_PAGE_PRESENT = 0 \<and>
       g w = VMM_PAGE_CREATE_ENTRY (p + of_nat k * PAGE_SIZE) fl"
    "(\<And>k. k < Suc n \<Longrightarrow> vpage w \<noteq> page_at addr k) \<Longrightarrow> g w = e w"
proof -
  assume k: "k < Suc n" and w: "vpage w = page_at addr k"
  show "e w AND VMM_PAGE_PRESENT = 0 \<and> g w = VMM_PAGE_CREATE_ENTRY (p + of_nat k * PAGE_SIZE) fl"
  proof (cases k)
    case 0
    then have "vpage w \<noteq> page_at (addr + PAGE_SIZE) j" if "j < n" for j
      using apart [OF that] w by (simp add: page_at_Suc)
    then show ?thesis using other [of w] first free w 0 by simp
  next
    case (Suc j)
    then have "vpage w \<noteq> vpage addr" using apart w k by simp
    then show ?thesis using rest [of j w] first [of w] k w Suc by (simp add: page_at_Suc algebra_simps)
  qed
next
  assume w: "\<And>k. k < Suc n \<Longrightarrow> vpage w \<noteq> page_at addr k"
  have "vpage w \<noteq> vpage addr" using w [of 0] by simp
  moreover have "vpage w \<noteq> page_at (addr + PAGE_SIZE) k" if "k < n" for k using w [of "Suc k"] that by (simp add: page_at_Suc)
  ultimately show "g w = e w" using other first by simp
qed

lemma map_loop_pages:
  assumes "vm_inv s p4" and "map_loop fuel s p4 addr lim p flags = Inr s'"
    and "unat lim + 4095 < 2 ^ 64" and "unat lim \<le> unat addr + 4096 * n" and "n \<le> 2 ^ 36"
    and "n = 0 \<or> unat addr + 4096 * (n - 1) < unat lim"
  shows "vm_inv s' p4 \<and> mapping_frame s s' \<and>
    (\<forall>k < n. \<forall>w. vpage w = page_at addr k \<longrightarrow> pte (kmem s) p4 w AND VMM_PAGE_PRESENT = 0 \<and>
       pte (kmem s') p4 w = VMM_PAGE_CREATE_ENTRY (p + of_nat k * PAGE_SIZE) (ucast flags)) \<and>
    (\<forall>w. (\<forall>k < n. vpage w \<noteq> page_at addr k) \<longrightarrow> pte (kmem s') p4 w = pte (kmem s) p4 w)"
  using assms
proof (induction n arbitrary: fuel s addr p)
  case 0
  then have "s' = s" by (subst (asm) map_loop.simps) (simp add: word_less_nat_alt)
  then show ?case using 0 by simp
next
  case (Suc n)
  have lt: "addr < lim" using Suc.prems(6) by (simp add: word_less_nat_alt)
  note nx = next_page [OF lt Suc.prems(3)]
  have fuel: "fuel \<noteq> 0" using Suc.prems(2) lt by (subst (asm) map_loop.simps) (auto split: if_splits)
  with Suc.prems(2) lt obtain s1 where s1: "map_one s p4 addr p flags = Inr s1"
      "map_loop (fuel - 1) s1 p4 (addr + PAGE_SIZE) lim (p + PAGE_SIZE) flags = Inr s'"
    by (subst (asm) map_loop.simps) (auto simp: bind_r_eq_Inr)
  note one = map_one_step [OF Suc.prems(1) s1(1)]
  have IH: "vm_inv s' p4 \<and> mapping_frame s1 s' \<and>
    (\<forall>k < n. \<forall>w. vpage w = page_at (addr + PAGE_SIZE) k \<longrightarrow> pte (kmem s1) p4 w AND VMM_PAGE_PRESENT = 0 \<and>
       pte (kmem s') p4 w = VMM_PAGE_CREATE_ENTRY (p + PAGE_SIZE + of_nat k * PAGE_SIZE) (ucast flags)) \<and>
    (\<forall>w. (\<forall>k < n. vpage w \<noteq> page_at (addr + PAGE_SIZE) k) \<longrightarrow> pte (kmem s') p4 w = pte (kmem s1) p4 w)"
    using one Suc.prems nx by (intro Suc.IH [OF _ s1(2)]) auto
  have apart: "page_at addr (Suc k) \<noteq> vpage addr" if "k < n" for k
  proof (rule page_at_distinct)
    have "4096 * Suc k \<le> 4096 * n" using that by simp
    then show "unat addr + 4096 * Suc k < 2 ^ 64" using Suc.prems(3,6) by simp
  qed (use that Suc.prems(5) in simp_all)
  have free: "pte (kmem s) p4 w AND VMM_PAGE_PRESENT = 0" if "vpage w = vpage addr" for w
    using one that vpage_eq [of w addr] by (simp add: pte_def)
  have first: "pte (kmem s1) p4 w = (if vpage w = vpage addr then VMM_PAGE_CREATE_ENTRY p (ucast flags) else pte (kmem s) p4 w)" for w
    using one by blast
  have rest: "pte (kmem s1) p4 w AND VMM_PAGE_PRESENT = 0 \<and>
      pte (kmem s') p4 w = VMM_PAGE_CREATE_ENTRY (p + PAGE_SIZE + of_nat k * PAGE_SIZE) (ucast flags)"
    if "k < n" "vpage w = page_at (addr + PAGE_SIZE) k" for k w
    using IH that by blast
  have other: "pte (kmem s') p4 w = pte (kmem s1) p4 w" if "\<And>k. k < n \<Longrightarrow> vpage w \<noteq> page_at (addr + PAGE_SIZE) k" for w
    using IH that by blast
  note all = mapped_pages_Suc [OF apart free first rest other]
  show ?case using IH one mapping_frame_trans [of s s1 s'] all by blast
qed

lemma unmap_loop_pages:
  assumes "vm_inv s p4" and "unmap_loop fuel s p4 addr lim = Inr s'"
    and "unat lim + 4095 < 2 ^ 64" and "unat lim \<le> unat addr + 4096 * n"
    and "n = 0 \<or> unat addr + 4096 * (n - 1) < unat lim"
  shows "vm_inv s' p4 \<and> mapping_frame s s' \<and>
    (\<forall>w. pte (kmem s') p4 w =
       (if \<exists>k < n. vpage w = page_at addr k then VMM_PAGE_WRITE else pte (kmem s) p4 w))"
  using assms
proof (induction n arbitrary: fuel s addr)
  case 0
  then have "s' = s" by (subst (asm) unmap_loop.simps) (simp add: word_less_nat_alt)
  then show ?case using 0 by simp
next
  case (Suc n)
  have lt: "addr < lim" using Suc.prems(5) by (simp add: word_less_nat_alt)
  note nx = next_page [OF lt Suc.prems(3)]
  have fuel: "fuel \<noteq> 0" using Suc.prems(2) lt by (subst (asm) unmap_loop.simps) (auto split: if_splits)
  with Suc.prems(2) lt obtain s1 where s1: "unmap_one s p4 addr = Inr s1"
      "unmap_loop (fuel - 1) s1 p4 (addr + PAGE_SIZE) lim = Inr s'"
    by (subst (asm) unmap_loop.simps) (auto simp: bind_r_eq_Inr)
  note one = unmap_one_step [OF Suc.prems(1) s1(1)]
  have IH: "vm_inv s' p4 \<and> mapping_frame s1 s' \<and>
    (\<forall>w. pte (kmem s') p4 w = (if \<exists>k < n. vpage w = page_at (addr + PAGE_SIZE) k then VMM_PAGE_WRITE
       else pte (kmem s1) p4 w))"
    using one Suc.prems nx by (intro Suc.IH [OF _ s1(2)]) auto
  have "pte (kmem s') p4 w =
      (if \<exists>k < Suc n. vpage w = page_at addr k then VMM_PAGE_WRITE else pte (kmem s) p4 w)" for w
  proof -
    have "(\<exists>k < Suc n. vpage w = page_at addr k) \<longleftrightarrow>
        vpage w = vpage addr \<or> (\<exists>k < n. vpage w = page_at (addr + PAGE_SIZE) k)"
      by (auto simp: less_Suc_eq_0_disj page_at_Suc)
    moreover have "pte (kmem s') p4 w = (if \<exists>k < n. vpage w = page_at (addr + PAGE_SIZE) k
        then VMM_PAGE_WRITE else pte (kmem s1) p4 w)"
      and "pte (kmem s1) p4 w = (if vpage w = vpage addr then VMM_PAGE_WRITE else pte (kmem s) p4 w)"
      using IH one by blast+
    ultimately show ?thesis by (simp only: if_True if_False split: if_split) blast
  qed
  then show ?case using IH one mapping_frame_trans [of s s1 s'] by blast
qed

text \<open>The limit and the number of rounds of a range that is \<open>range_ok\<close>.\<close>

lemma range_ok_limit:
  assumes "range_ok addr sz"
  shows "unat (addr + sz) = unat addr + unat sz" "unat (addr + sz) + 4095 < 2 ^ 64"
    "unat (addr + sz) \<le> unat addr + 4096 * page_count sz" "page_count sz \<le> 2 ^ 36"
    "page_count sz = 0 \<or> unat addr + 4096 * (page_count sz - 1) < unat (addr + sz)"
proof -
  show add: "unat (addr + sz) = unat addr + unat sz"
    using assms by (intro unat_add_lt) (simp add: range_ok_def)
  then show "unat (addr + sz) + 4095 < 2 ^ 64" using assms by (simp add: range_ok_def)
  show "unat (addr + sz) \<le> unat addr + 4096 * page_count sz" unfolding add page_count_def by linarith
  show "page_count sz = 0 \<or> unat addr + 4096 * (page_count sz - 1) < unat (addr + sz)"
    unfolding add page_count_def by linarith
  have "(unat sz + 4095) div 4096 \<le> (2 ^ 48 + 4095) div 4096"
    using assms by (intro div_le_mono) (simp add: range_ok_def)
  then show "page_count sz \<le> 2 ^ 36" by (simp add: page_count_def)
qed

section \<open>When the operations return\<close>

text \<open>The whole pages that the heap still has, and what one allocation of a page costs.\<close>

definition heap_pages :: "kstate \<Rightarrow> nat" where
  "heap_pages s = heap_limit s div 4096 - (heap_cursor s + 4095) div 4096"

lemma round_up_unique:
  assumes "4096 dvd b" and "c \<le> b" and "b < c + 4096"
  shows "(b :: nat) = 4096 * ((c + 4095) div 4096)"
proof -
  obtain k where k: "b = 4096 * k" using assms(1) by auto
  have "(c + 4095) div 4096 = k" using assms(2,3) unfolding k by (intro div_nat_eqI) simp_all
  then show ?thesis by (simp add: k)
qed

lemma kmalloc_page_early:
  assumes "heap_ready s" and "currentMode (kheap s) = EarlyBoot" and "1 \<le> heap_pages s"
  shows "\<exists>n s1. kmalloc_aligned s PAGE_SIZE 0x1000 = Inr (n, s1) \<and> heap_pages s1 = heap_pages s - 1"
proof -
  let ?n = "align_base (earlyAllocBase (kheap s)) 0x1000"
  have "heap_cursor s + 0x1000 \<le> 2 ^ 64" using assms(1) by (simp add: heap_ready_def)
  then have n: "4096 dvd unat ?n" "heap_cursor s \<le> unat ?n" "unat ?n < heap_cursor s + 4096"
    using align_base_unat [of "0x1000" "earlyAllocBase (kheap s)"] by simp_all
  have eq: "unat ?n = 4096 * ((heap_cursor s + 4095) div 4096)" using n by (rule round_up_unique)
  have fit: "unat ?n + 4096 \<le> heap_limit s"
    using assms(3) unfolding eq heap_pages_def by linarith
  then have add: "unat (?n + PAGE_SIZE) = unat ?n + 4096"
    using unat_lt_power [of "earlyAllocLimit (kheap s)"]
    by (intro unat_add_lt [THEN trans]) (simp_all add: PAGE_SIZE_def)
  then have "?n + PAGE_SIZE \<le> earlyAllocLimit (kheap s)" using fit by (simp add: word_le_nat_alt)
  then obtain s1 where run: "kmalloc_aligned s PAGE_SIZE 0x1000 = Inr (?n, s1)"
    using assms(2) by (auto simp: kmalloc_early)
  have "heap_cursor s1 = unat ?n + 4096" "heap_limit s1 = heap_limit s"
    using kmalloc_page_ready [OF assms(1) run] by simp_all
  then have "heap_pages s1 = heap_pages s - 1" by (simp add: heap_pages_def eq)
  with run show ?thesis by blast
qed

text \<open>One level of the walk costs a page at most.\<close>

lemma find_page_table_returns:
  assumes inv: "vm_inv s p4" and mode: "currentMode (kheap s) = EarlyBoot" and room: "1 \<le> heap_pages s"
    and t: "walk (kmem s) p4 is = Some t" and p: "path (is @ [i])"
  shows "\<exists>n s'. find_page_table s t i True = Inr (n, s') \<and> vm_step s p4 s' \<and>
    walk (kmem s') p4 (is @ [i]) = Some n \<and> n \<noteq> 0 \<and> heap_pages s - 1 \<le> heap_pages s'"
proof -
  have "\<exists>n s'. find_page_table s t i True = Inr (n, s') \<and> heap_pages s - 1 \<le> heap_pages s'"
  proof (cases "entry (kmem s) t i = 0")
    case True
    have "heap_ready s" using inv by (simp add: vm_inv_def)
    from kmalloc_page_early [OF this mode room] obtain n s1 where
        n: "kmalloc_aligned s PAGE_SIZE 0x1000 = Inr (n, s1)" "heap_pages s1 = heap_pages s - 1"
      by blast
    let ?s' = "store_entry (zero_page s1 n) (entry_ptr t i) (table_entry n)"
    have "find_page_table s t i True = Inr (n, ?s')" using n(1) True by (simp add: find_page_table_create)
    moreover have "heap_pages ?s' = heap_pages s1" by (simp add: heap_pages_def)
    ultimately show ?thesis using n(2) by auto
  qed (simp add: find_page_table_found)
  then show ?thesis using find_page_table_step [OF inv t p] by blast
qed

lemma find_page_entry_returns:
  assumes inv: "vm_inv s p4" and mode: "currentMode (kheap s) = EarlyBoot" and room: "3 \<le> heap_pages s"
  shows "\<exists>a s'. find_page_entry s p4 v True = Inr (a, s') \<and> heap_pages s - 3 \<le> heap_pages s'"
proof -
  have w0: "walk (kmem s) p4 [] = Some p4" by simp
  obtain p3 s1 where 1: "find_page_table s p4 (index_p4 v) True = Inr (p3, s1)" "vm_step s p4 s1"
      "walk (kmem s1) p4 ([] @ [index_p4 v]) = Some p3" "p3 \<noteq> 0" "heap_pages s - 1 \<le> heap_pages s1"
    using find_page_table_returns [OF inv mode _ w0, of "index_p4 v"] room by (auto simp: path_def)
  have s1: "vm_inv s1 p4" "currentMode (kheap s1) = EarlyBoot" using 1(2) mode by (simp_all add: vm_step_def)
  have r1: "1 \<le> heap_pages s1" using room 1(5) by linarith
  obtain p2 s2 where 2: "find_page_table s1 p3 (index_p3 v) True = Inr (p2, s2)" "vm_step s1 p4 s2"
      "walk (kmem s2) p4 (([] @ [index_p4 v]) @ [index_p3 v]) = Some p2" "p2 \<noteq> 0" "heap_pages s1 - 1 \<le> heap_pages s2"
    using find_page_table_returns [OF s1 r1 1(3), of "index_p3 v"] by (auto simp: path_def)
  have s2: "vm_inv s2 p4" "currentMode (kheap s2) = EarlyBoot" using 2(2) s1(2) by (simp_all add: vm_step_def)
  have r2: "1 \<le> heap_pages s2" using room 1(5) 2(5) by linarith
  obtain p1 s3 where 3: "find_page_table s2 p2 (index_p2 v) True = Inr (p1, s3)" "p1 \<noteq> 0"
      "heap_pages s2 - 1 \<le> heap_pages s3"
    using find_page_table_returns [OF s2 r2 2(3), of "index_p2 v"] by (auto simp: path_def)
  have "heap_pages s - 3 \<le> heap_pages s3" using 1(5) 2(5) 3(3) by linarith
  then show ?thesis using 1(1,4) 2(1,4) 3(1,2) by (auto simp: find_page_entry_def)
qed

lemma map_one_returns:
  assumes inv: "vm_inv s p4" and mode: "currentMode (kheap s) = EarlyBoot" and room: "3 \<le> heap_pages s"
    and absent: "pte (kmem s) p4 v AND VMM_PAGE_PRESENT = 0"
  shows "\<exists>s'. map_one s p4 v p flags = Inr s' \<and> heap_pages s - 3 \<le> heap_pages s'"
proof -
  obtain a s1 where 1: "find_page_entry s p4 v True = Inr (a, s1)" "heap_pages s - 3 \<le> heap_pages s1"
    using find_page_entry_returns [OF inv mode room] by blast
  from find_page_entry_step [OF inv 1(1)] obtain t where t: "vm_step s p4 s1"
      "walk (kmem s1) p4 (table_path v) = Some t" "a = entry_ptr t (index_p1 v)" "a \<noteq> 0"
    by blast
  have "load64 (kmem s1) a AND VMM_PAGE_PRESENT = 0"
    using absent pte_at_walk [OF t(2)] vm_step_pte [OF t(1)] by (simp add: t(3))
  then have "map_one s p4 v p flags = Inr (store_entry s1 a (VMM_PAGE_CREATE_ENTRY p (ucast flags)))"
    using 1(1) t(4) by (simp add: map_one_def)
  then show ?thesis using 1(2) by (auto simp: heap_pages_def)
qed

lemma map_loop_returns:
  assumes "vm_inv s p4" and "currentMode (kheap s) = EarlyBoot" and "3 * n \<le> heap_pages s"
    and "\<forall>k < n. \<forall>w. vpage w = page_at addr k \<longrightarrow> pte (kmem s) p4 w AND VMM_PAGE_PRESENT = 0"
    and "unat lim + 4095 < 2 ^ 64" and "unat lim \<le> unat addr + 4096 * n" and "n \<le> 2 ^ 36"
    and "n = 0 \<or> unat addr + 4096 * (n - 1) < unat lim" and "n \<le> fuel"
  shows "\<exists>s'. map_loop fuel s p4 addr lim p flags = Inr s' \<and> heap_pages s - 3 * n \<le> heap_pages s'"
  using assms
proof (induction n arbitrary: fuel s addr p)
  case 0
  then show ?case by (subst map_loop.simps) (simp add: word_less_nat_alt)
next
  case (Suc n)
  have lt: "addr < lim" using Suc.prems(8) by (simp add: word_less_nat_alt)
  note nx = next_page [OF lt Suc.prems(5)]
  have "pte (kmem s) p4 addr AND VMM_PAGE_PRESENT = 0" using Suc.prems(4) by (metis page_at_0 zero_less_Suc)
  moreover have "3 \<le> heap_pages s" using Suc.prems(3) by simp
  ultimately obtain s1 where s1: "map_one s p4 addr p flags = Inr s1" "heap_pages s - 3 \<le> heap_pages s1"
    using map_one_returns [OF Suc.prems(1,2)] by blast
  note one = map_one_step [OF Suc.prems(1) s1(1)]
  have apart: "page_at addr (Suc k) \<noteq> vpage addr" if "k < n" for k
  proof (rule page_at_distinct)
    have "4096 * Suc k \<le> 4096 * n" using that by simp
    then show "unat addr + 4096 * Suc k < 2 ^ 64" using Suc.prems(5,8) by simp
  qed (use that Suc.prems(7) in simp_all)
  have "\<exists>s'. map_loop (fuel - 1) s1 p4 (addr + PAGE_SIZE) lim (p + PAGE_SIZE) flags = Inr s' \<and>
      heap_pages s1 - 3 * n \<le> heap_pages s'"
  proof (rule Suc.IH)
    show "\<forall>k < n. \<forall>w. vpage w = page_at (addr + PAGE_SIZE) k \<longrightarrow> pte (kmem s1) p4 w AND VMM_PAGE_PRESENT = 0"
    proof (intro allI impI)
      fix k w assume k: "k < n" and "vpage w = page_at (addr + PAGE_SIZE) k"
      then have "vpage w = page_at addr (Suc k)" by (simp add: page_at_Suc)
      moreover from this have "vpage w \<noteq> vpage addr" using apart [OF k] by simp
      ultimately show "pte (kmem s1) p4 w AND VMM_PAGE_PRESENT = 0"
        using one Suc.prems(4) k by (metis Suc_mono)
    qed
  qed (use one Suc.prems s1(2) nx in \<open>auto simp: mapping_frame_def\<close>)
  then obtain s' where s': "map_loop (fuel - 1) s1 p4 (addr + PAGE_SIZE) lim (p + PAGE_SIZE) flags = Inr s'"
      "heap_pages s1 - 3 * n \<le> heap_pages s'"
    by blast
  have "map_loop fuel s p4 addr lim p flags = Inr s'"
    using lt s1(1) s'(1) Suc.prems(9) by (subst map_loop.simps) simp
  moreover have "heap_pages s - 3 * Suc n \<le> heap_pages s'" using s1(2) s'(2) by simp
  ultimately show ?case by blast
qed

lemma unmap_loop_returns:
  assumes "vm_inv s p4" and "currentMode (kheap s) = EarlyBoot" and "3 * n \<le> heap_pages s"
    and "unat lim + 4095 < 2 ^ 64" and "unat lim \<le> unat addr + 4096 * n"
    and "n = 0 \<or> unat addr + 4096 * (n - 1) < unat lim" and "n \<le> fuel"
  shows "\<exists>s'. unmap_loop fuel s p4 addr lim = Inr s'"
  using assms
proof (induction n arbitrary: fuel s addr)
  case 0
  then show ?case by (subst unmap_loop.simps) (simp add: word_less_nat_alt)
next
  case (Suc n)
  have lt: "addr < lim" using Suc.prems(6) by (simp add: word_less_nat_alt)
  note nx = next_page [OF lt Suc.prems(4)]
  have "3 \<le> heap_pages s" using Suc.prems(3) by simp
  from find_page_entry_returns [OF Suc.prems(1,2) this] obtain a s0 where
      a: "find_page_entry s p4 addr True = Inr (a, s0)" "heap_pages s - 3 \<le> heap_pages s0"
    by blast
  then have s1: "unmap_one s p4 addr = Inr (store_entry s0 a VMM_PAGE_WRITE)" (is "_ = Inr ?s1")
    using find_page_entry_step [OF Suc.prems(1) a(1)] by (auto simp: unmap_one_def)
  note one = unmap_one_step [OF Suc.prems(1) s1]
  have pages: "heap_pages ?s1 = heap_pages s0" by (simp add: heap_pages_def)
  have "\<exists>s'. unmap_loop (fuel - 1) ?s1 p4 (addr + PAGE_SIZE) lim = Inr s'"
    by (rule Suc.IH) (use one Suc.prems a(2) nx pages in \<open>auto simp: mapping_frame_def\<close>)
  then show ?case using lt s1 Suc.prems(7) by (subst unmap_loop.simps) auto
qed

section \<open>An empty address space\<close>

lemma empty_root:
  assumes "heap_ready s1" and "heap_cursor s1 = unat n + 0x1000" and "page_aligned n" and "n \<noteq> 0"
    and "\<And>x. in_bitset (bitmap (kernel_pmm s1)) x \<Longrightarrow> unat x < unat n"
    and "kmem t = kmem (zero_page s1 n)" and "kheap t = kheap s1" and "kernel_pmm t = kernel_pmm s1"
  shows "vm_inv t n" "pte (kmem t) n w = 0"
proof -
  have zero: "entry (kmem t) n i = 0" if "i < 512" for i
    using entry_zero_page [OF that] by (simp add: assms(6))
  have ok: "table_ok t n"
    using assms(2-5) table_range_unat [OF assms(3)] by (fastforce simp: table_ok_def assms(7,8))
  have ready: "heap_ready t" using assms(1) by (simp add: heap_ready_def assms(7,8))
  show "vm_inv t n" using tree_empty(2) [where ent = "entry (kmem t)" and ok = "table_ok t", OF ok] zero ready by (simp add: vm_inv_def)
  show "pte (kmem t) n w = 0"
    using tree_empty(3) [where ent = "entry (kmem t)" and ok = "table_ok t", OF ok] zero path_table_path(1) by (simp add: pte_def table_path_def)
qed

lemma swap_page_directory_fields [simp]:
  "kmem (swap_page_directory s p) = kmem s" "kheap (swap_page_directory s p) = kheap s"
  "kernel_pmm (swap_page_directory s p) = kernel_pmm s"
  "kernel_vmm (swap_page_directory s p) = (kernel_vmm s)\<lparr>pdir_current := p\<rparr>"
  "cr3 (swap_page_directory s p) = MEM_VIRT_TO_PHYS p" "if_flag (swap_page_directory s p)"
  by (simp_all add: swap_page_directory_def log_event_def Let_def)

lemma log_event_fields [simp]:
  "kmem (log_event s c) = kmem s" "kheap (log_event s c) = kheap s"
  "kernel_pmm (log_event s c) = kernel_pmm s" "kernel_vmm (log_event s c) = kernel_vmm s"
  "cr3 (log_event s c) = cr3 s" "if_flag (log_event s c) = if_flag s"
  by (simp_all add: log_event_def)

lemma vm_inv_cong:
  "kmem t = kmem s \<Longrightarrow> kheap t = kheap s \<Longrightarrow> kernel_pmm t = kernel_pmm s \<Longrightarrow> vm_inv t p4 = vm_inv s p4"
  by (simp add: vm_inv_def tree_inv_def heap_ready_def table_ok_def)

lemma vmm_init_early:
  assumes "\<not> m_init (kernel_vmm s)" and "heap_ready s" and "0 < heap_cursor s"
    and "currentMode (kheap s) = EarlyBoot" and "1 \<le> heap_pages s"
  shows "\<exists>t root. vmm_init s = Inr t \<and> vmm_init t = Inr t \<and> vm_inv t root \<and> heap_pages t = heap_pages s - 1 \<and>
    currentMode (kheap t) = EarlyBoot \<and>
    kernel_vmm t = \<lparr>m_init = True, pdir_kernel = root, pdir_current = root\<rparr> \<and>
    cr3 t = MEM_VIRT_TO_PHYS root \<and> (\<forall>w. pte (kmem t) root w = 0) \<and>
    kernel_pmm t = kernel_pmm s \<and> (\<forall>x. unat x < heap_cursor s \<longrightarrow> kmem t x = kmem s x) \<and>
    (\<forall>i < 512. entry (kmem t) root i = 0) \<and> page_aligned root \<and> heap_cursor s \<le> unat root \<and> unat root < heap_cursor s + 4096"
proof -
  let ?s = "s\<lparr>kernel_vmm := (kernel_vmm s)\<lparr>m_init := True\<rparr>\<rparr>"
  have ready: "heap_ready ?s" using assms(2) by (simp add: heap_ready_def)
  have "currentMode (kheap ?s) = EarlyBoot" and pages: "heap_pages ?s = heap_pages s"
    using assms(4) by (simp_all add: heap_pages_def)
  then obtain n s1 where run: "kmalloc_aligned ?s PAGE_SIZE 0x1000 = Inr (n, s1)"
      "heap_pages s1 = heap_pages s - 1"
    using kmalloc_page_early [OF ready] assms(5) by auto
  note k = kmalloc_page_ready [OF ready run(1)]
  let ?s2 = "s1\<lparr>kernel_vmm := (kernel_vmm s1)\<lparr>pdir_kernel := n\<rparr>\<rparr>"
  let ?s3 = "(zero_page ?s2 n)\<lparr>kernel_vmm := (kernel_vmm (zero_page ?s2 n))\<lparr>pdir_current := n\<rparr>\<rparr>"
  let ?t = "log_event (swap_page_directory ?s3 n)
    (Log ''vmm'' ''Switched to Kernel Page Table 0x%016p'' [IntArg n])"
  have init: "vmm_init s = Inr ?t"
    using assms(1) run(1) by (simp add: vmm_init_def init_kernel_page_directory_def PAGE_SIZE_def Let_def)
  have n0: "n \<noteq> 0" using k(2) assms(3) by auto
  have bitmap: "unat x < unat n" if "in_bitset (bitmap (kernel_pmm s1)) x" for x
    using that k(2,7) assms(2) by (auto simp: heap_ready_def intro: less_le_trans)
  have mem: "kmem ?t = kmem (zero_page s1 n)" by (simp add: zero_page_def)
  have "vm_inv ?t n" and "pte (kmem ?t) n w = 0" for w
    by (rule empty_root(1,2) [OF k(6,3,1) n0 bitmap mem]; simp)+
  moreover have "entry (kmem ?t) n i = 0" if "i < 512" for i
    using entry_zero_page [OF that] by (simp only: mem)
  moreover note k(1)
  moreover have "heap_cursor s \<le> unat n" "unat n < heap_cursor s + 4096" using k(2,11) by simp_all
  moreover have "kernel_vmm ?t = \<lparr>m_init = True, pdir_kernel = n, pdir_current = n\<rparr>"
    by (simp add: k(8))
  moreover from this have "vmm_init ?t = Inr ?t" by (simp add: vmm_init_def)
  moreover have "heap_pages ?t = heap_pages s1" by (simp add: heap_pages_def)
  moreover have "cr3 ?t = MEM_VIRT_TO_PHYS n" "currentMode (kheap ?t) = EarlyBoot"
    using k(5) assms(4) by simp_all
  moreover have "kernel_pmm ?t = kernel_pmm s" using k(7) by simp
  moreover have "kmem ?t x = kmem s x" if "unat x < heap_cursor s" for x
  proof -
    have "\<not> table_bytes n x" using that k(2) table_range_unat [OF k(1)] by simp
    moreover have "kmem s1 x = kmem s x" using kmalloc_frame [OF run(1)] assms(4) by simp
    ultimately have "kmem (zero_page s1 n) x = kmem s x" by (simp add: zero_page_other)
    then show ?thesis by (simp only: mem)
  qed
  ultimately show ?thesis using init run(2) by metis
qed

lemma map_pages_return:
  assumes "vm_inv s p4" and "range_ok addr sz" and "currentMode (kheap s) = EarlyBoot"
    and "3 * page_count sz \<le> heap_pages s"
    and "\<forall>k < page_count sz. \<forall>w. vpage w = page_at addr k \<longrightarrow> pte (kmem s) p4 w AND VMM_PAGE_PRESENT = 0"
  shows "\<exists>s'. map_pages s p4 addr p_addr sz flags = Inr s' \<and> heap_pages s - 3 * page_count sz \<le> heap_pages s'"
  using map_loop_returns [OF assms(1,3,4,5) range_ok_limit(2-5) [OF assms(2)]] range_ok_limit(4) [OF assms(2)]
  by (simp add: map_pages_def page_period_def)

lemma unmap_pages_return:
  assumes "vm_inv s p4" and "range_ok addr sz" and "currentMode (kheap s) = EarlyBoot"
    and "3 * page_count sz \<le> heap_pages s"
  shows "\<exists>s'. unmap_pages s p4 addr sz = Inr s'"
  using unmap_loop_returns [OF assms(1,3,4) range_ok_limit(2,3,5) [OF assms(2)]] range_ok_limit(4) [OF assms(2)]
  by (simp add: unmap_pages_def page_period_def)

definition early_heap :: kstate where
  "early_heap = sample_heap (KERNEL_VMB + 0x300000) (KERNEL_VMB + 0x400000) EarlyBoot
     \<lparr>kernel_pmm := pmm_initial\<lparr>bitmap := \<lparr>m_ptr = KERNEL_VMB + 0x100000, m_length = 16\<rparr>, m_numPages := 16\<rparr>\<rparr>"

lemma early_heap_ready:
  "\<not> m_init (kernel_vmm early_heap)" "heap_ready early_heap" "0 < heap_cursor early_heap"
  "currentMode (kheap early_heap) = EarlyBoot" "heap_pages early_heap = 256"
proof -
  let ?b = "\<lparr>m_ptr = KERNEL_VMB + 0x100000, m_length = 16\<rparr>"
  have "in_bitset ?b x \<longleftrightarrow> in_range x (KERNEL_VMB + 0x100000) 3" for x
    by (simp add: in_bitset_def)
  moreover have "in_range x (KERNEL_VMB + 0x100000) 3 \<longleftrightarrow>
      unat (KERNEL_VMB + 0x100000) \<le> unat x \<and> unat x < unat (KERNEL_VMB + 0x100000) + 3" for x
    by (rule in_range_unat) (simp add: KERNEL_VMB_def)
  ultimately have "in_bitset ?b x \<Longrightarrow> unat x < 0xffffffff80300000" for x
    by (simp add: KERNEL_VMB_def)
  then show "heap_ready early_heap"
    by (simp add: early_heap_def sample_heap_def heap_ready_def KERNEL_VMB_def)
  show "\<not> m_init (kernel_vmm early_heap)" "0 < heap_cursor early_heap"
    "currentMode (kheap early_heap) = EarlyBoot" "heap_pages early_heap = 256"
    by (simp_all add: early_heap_def sample_heap_def heap_pages_def KERNEL_VMB_def vmm_initial_def)
qed

text \<open>A concrete address space, right after \<open>vmm::init\<close> on the sample heap.\<close>

lemma early_space:
  obtains t root where "vmm_init early_heap = Inr t" "vm_inv t root" "heap_pages t = 255"
    "currentMode (kheap t) = EarlyBoot" "pdir_current (kernel_vmm t) = root"
    "\<And>w. pte (kmem t) root w = 0" "pmm_below_4g t" "num_bits t = 16" "\<not> used t 0"
proof -
  have "1 \<le> heap_pages early_heap" by (simp add: early_heap_ready(5))
  from vmm_init_early [OF early_heap_ready(1-4) this] obtain t root where t:
    "vmm_init early_heap = Inr t" "vm_inv t root" "heap_pages t = 255"
    "currentMode (kheap t) = EarlyBoot" "pdir_current (kernel_vmm t) = root"
    "\<And>w. pte (kmem t) root w = 0" "kernel_pmm t = kernel_pmm early_heap"
    "\<And>x. unat x < heap_cursor early_heap \<Longrightarrow> kmem t x = kmem early_heap x"
    by (auto simp: early_heap_ready(5))
  have "pmm_below_4g t" "num_bits t = 16"
    by (simp_all add: pmm_below_4g_def t(7) early_heap_def)
  moreover have "kmem t (KERNEL_VMB + 0x100000) = 0"
    using t(8) [of "KERNEL_VMB + 0x100000"] by (simp add: early_heap_def sample_heap_def KERNEL_VMB_def)
  then have "\<not> used t 0"
    by (simp add: used_def page_used_def bitset_bit_def t(7)) (simp add: early_heap_def)
  ultimately show thesis using that t by blast
qed

section \<open>Changing the physical bitmap\<close>

text \<open>The bitmap lies outside the tables, so the physical manager does not disturb them.\<close>

lemma bitmap_change:
  assumes inv: "vm_inv s p4" and same: "same_but_bitmap s t"
  shows "vm_inv t p4" "pte (kmem t) p4 w = pte (kmem s) p4 w"
proof -
  note f = same_but_bitmap_fields [OF same]
  have ent: "entry (kmem t) u j = entry (kmem s) u j" if "table_ok s u" "j < 512" for u j
    using that(1) same by (intro slot_cong [OF that(2)]) (auto simp: table_ok_def same_but_bitmap_def)
  have ok: "table_ok t u = table_ok s u" "heap_ready t = heap_ready s" for u
    by (simp_all add: table_ok_def heap_ready_def f)
  have "tree_inv table_of (entry (kmem s)) (table_ok s) p4" using inv by (simp add: vm_inv_def)
  note tree = tree_same [where ent' = "entry (kmem t)", OF this ent]
  show "vm_inv t p4" using inv tree(2) by (simp add: vm_inv_def ok [abs_def])
  show "pte (kmem t) p4 w = pte (kmem s) p4 w" using tree(3) by (simp add: pte_def)
qed

text \<open>The tables of a present page exist, so the walk to it allocates nothing, whatever the heap.\<close>

lemma map_one_remap:
  assumes inv: "vm_inv s p4" and present: "pte (kmem s) p4 addr AND VMM_PAGE_PRESENT \<noteq> 0"
  shows "map_one s p4 addr p flags = Inl (Panic ''vmm: Attempted to remap a page!'')"
proof -
  have "pte (kmem s) p4 addr \<noteq> 0" using present by auto
  then obtain t where t: "walk (kmem s) p4 (table_path addr) = Some t"
    by (cases "walk (kmem s) p4 (table_path addr)") (auto simp: pte_def tree_leaf_def)
  have look: "find_page_entry s p4 addr False = Inr (entry_ptr t (index_p1 addr), s)"
    using find_page_entry_lookup [OF inv] t by simp
  obtain p3 p2 where levels: "entry (kmem s) p4 (index_p4 addr) \<noteq> 0" "p3 = table_of (entry (kmem s) p4 (index_p4 addr))"
      "entry (kmem s) p3 (index_p3 addr) \<noteq> 0" "p2 = table_of (entry (kmem s) p3 (index_p3 addr))"
      "entry (kmem s) p2 (index_p2 addr) \<noteq> 0"
    using t by (auto simp: table_path_def tree_next_def split: if_splits option.splits)
  then have "find_page_entry s p4 addr True = find_page_entry s p4 addr False"
    by (simp add: find_page_entry_def find_page_table_found)
  moreover have "entry_ptr t (index_p1 addr) \<noteq> 0"
    using entry_ptr_nonzero [OF vm_inv_table [OF inv path_table_path(1) t]] by simp
  ultimately show ?thesis using look present pte_at_walk [OF t] by (simp add: map_one_def)
qed

lemma map_loop_remap:
  assumes "vm_inv s p4" and "k = 0 \<or> currentMode (kheap s) = EarlyBoot \<and> 3 * k \<le> heap_pages s"
    and "vpage w = page_at addr k" and "pte (kmem s) p4 w AND VMM_PAGE_PRESENT \<noteq> 0"
    and "unat addr + 4096 * k < unat lim" and "unat lim + 4095 < 2 ^ 64" and "k < fuel"
  shows "map_loop fuel s p4 addr lim p flags = Inl (Panic ''vmm: Attempted to remap a page!'')"
  using assms
proof (induction k arbitrary: fuel s addr p)
  case 0
  have "pte (kmem s) p4 w = pte (kmem s) p4 addr" using 0(3) vpage_eq [of w addr] by (simp add: pte_def)
  then have "pte (kmem s) p4 addr AND VMM_PAGE_PRESENT \<noteq> 0" using 0(4) by simp
  from map_one_remap [OF 0(1) this] show ?case using 0(5,7) by (subst map_loop.simps) (simp add: word_less_nat_alt)
next
  case (Suc k)
  have lt: "addr < lim" using Suc.prems(5) by (simp add: word_less_nat_alt)
  show ?case
  proof (cases "pte (kmem s) p4 addr AND VMM_PAGE_PRESENT = 0")
    case False
    from map_one_remap [OF Suc.prems(1) this] show ?thesis
      using lt Suc.prems(7) by (subst map_loop.simps) simp
  next
    case True
    have mode: "currentMode (kheap s) = EarlyBoot" and room: "3 \<le> heap_pages s" "3 * k \<le> heap_pages s - 3"
      using Suc.prems(2) by auto
    obtain s1 where s1: "map_one s p4 addr p flags = Inr s1" "heap_pages s - 3 \<le> heap_pages s1"
      using map_one_returns [OF Suc.prems(1) mode room(1) True] by blast
    note one = map_one_step [OF Suc.prems(1) s1(1)]
    have "vpage w \<noteq> vpage addr" using True Suc.prems(4) vpage_eq [of w addr] by (auto simp: pte_def)
    then have "pte (kmem s1) p4 w = pte (kmem s) p4 w" using one by simp
    then have "map_loop (fuel - 1) s1 p4 (addr + PAGE_SIZE) lim (p + PAGE_SIZE) flags
        = Inl (Panic ''vmm: Attempted to remap a page!'')"
      using one Suc.prems mode room(2) s1(2) next_page [OF lt Suc.prems(6)]
      by (intro Suc.IH) (auto simp: mapping_frame_def page_at_Suc)
    then show ?thesis using lt s1(1) Suc.prems(7) by (subst map_loop.simps) simp
  qed
qed

text \<open>Asked for no page, the allocator takes one.\<close>

lemma pmm_allocate_zero: "pmm_allocate s 0 = pmm_allocate s 1"
proof -
  have "allocate_from s 0 idx = allocate_from s 1 idx" for idx
  proof (induction "unat (m_numPages (kernel_pmm s)) - unat idx" arbitrary: idx rule: less_induct)
    case less
    have "allocate_from s 0 (idx + 1) = allocate_from s 1 (idx + 1)" if "idx < m_numPages (kernel_pmm s)"
      using less [of "idx + 1"] counter_step [OF that] by simp
    then show ?case
      by (subst (1 2) allocate_from.simps) (auto simp: Let_def intro: bind_r_cong)
  qed
  then show ?thesis by (simp add: pmm_allocate_def)
qed

section \<open>Properties\<close>

text \<open>C1. A call of \<open>map_pages\<close> that returns is an update of the abstract address space: every page
  of the range was not present before and afterwards has the entry that carries its own frame (the
  first one for the first page, the next for the next) and the flags; every other page of the whole
  address space has the entry it had; the tables stay well formed.\<close>

theorem map_pages_refines:
  assumes "vm_inv s p4" and "range_ok addr sz" and "map_pages s p4 addr p_addr sz flags = Inr s'"
  shows "vm_inv s' p4 \<and> mapping_frame s s' \<and>
    (\<forall>k < page_count sz. \<forall>w. vpage w = page_at addr k \<longrightarrow>
       pte (kmem s) p4 w AND VMM_PAGE_PRESENT = 0 \<and>
       pte (kmem s') p4 w = VMM_PAGE_CREATE_ENTRY (p_addr + of_nat k * PAGE_SIZE) (ucast flags)) \<and>
    (\<forall>w. (\<forall>k < page_count sz. vpage w \<noteq> page_at addr k) \<longrightarrow> pte (kmem s') p4 w = pte (kmem s) p4 w)"
  using map_loop_pages [OF assms(1) assms(3) [unfolded map_pages_def]] range_ok_limit [OF assms(2)]
  by blast

theorem map_pages_refines_witness:
  "\<exists>t root u. vmm_init early_heap = Inr t \<and> map_pages t root KERNEL_VMB 0 0x2000 3 = Inr u \<and>
     pte (kmem u) root (KERNEL_VMB + 0x1234) = 0x1003"
proof -
  obtain t root where t: "vmm_init early_heap = Inr t" "vm_inv t root" "heap_pages t = 255"
    "currentMode (kheap t) = EarlyBoot" "\<And>w. pte (kmem t) root w = 0"
    by (rule early_space) blast
  have r: "range_ok KERNEL_VMB 0x2000" and pc: "page_count 0x2000 = 2"
    by (simp_all add: range_ok_def KERNEL_VMB_def page_count_def)
  obtain u where u: "map_pages t root KERNEL_VMB 0 0x2000 3 = Inr u"
    using map_pages_return [OF t(2) r t(4), of 0 3] t(3,5) by (auto simp: pc)
  have "vpage (KERNEL_VMB + 0x1234) = page_at KERNEL_VMB 1"
    by (simp add: page_at_def vpage_def KERNEL_VMB_def PAGE_SIZE_def mask_eq_exp_minus_1)
  then have "pte (kmem u) root (KERNEL_VMB + 0x1234) = VMM_PAGE_CREATE_ENTRY (0 + of_nat 1 * PAGE_SIZE) (ucast (3 :: u8))"
    using map_pages_refines [OF t(2) r u, THEN conjunct2, THEN conjunct2, THEN conjunct1, rule_format, of 1]
    by (simp add: pc)
  then show ?thesis using t(1) u by (auto simp: VMM_PAGE_CREATE_ENTRY_def PAGE_SIZE_def)
qed

text \<open>C9. Unmapping after mapping: when \<open>map_pages\<close> and then \<open>unmap_pages\<close> of the same range return,
  no page of the range is present, every other page has the entry it had before both, and the range
  can be mapped again: no entry in it makes a later \<open>map_pages\<close> panic.\<close>

theorem map_unmap_roundtrip:
  assumes "vm_inv s p4" and "range_ok addr sz" and "map_pages s p4 addr p_addr sz flags = Inr s1"
    and "unmap_pages s1 p4 addr sz = Inr s2"
  shows "vm_inv s2 p4 \<and>
    (\<forall>w. pte (kmem s2) p4 w =
       (if \<exists>k < page_count sz. vpage w = page_at addr k then VMM_PAGE_WRITE else pte (kmem s) p4 w)) \<and>
    (\<forall>k < page_count sz. \<forall>w. vpage w = page_at addr k \<longrightarrow> pte (kmem s2) p4 w AND VMM_PAGE_PRESENT = 0)"
proof -
  note r = range_ok_limit [OF assms(2)]
  have m: "vm_inv s1 p4"
    "\<And>w. (\<forall>k < page_count sz. vpage w \<noteq> page_at addr k) \<Longrightarrow> pte (kmem s1) p4 w = pte (kmem s) p4 w"
    using map_loop_pages [OF assms(1) assms(3) [unfolded map_pages_def] r(2-5)] by blast+
  have u: "vm_inv s2 p4"
    "\<And>w. pte (kmem s2) p4 w =
       (if \<exists>k < page_count sz. vpage w = page_at addr k then VMM_PAGE_WRITE else pte (kmem s1) p4 w)"
    using unmap_loop_pages [OF m(1) assms(4) [unfolded unmap_pages_def] r(2,3,5)] by blast+
  have "VMM_PAGE_WRITE AND VMM_PAGE_PRESENT = 0" by (simp add: VMM_PAGE_WRITE_def VMM_PAGE_PRESENT_def)
  then show ?thesis using u m(2) by auto
qed

theorem map_unmap_roundtrip_witness:
  "\<exists>t root u v. map_pages t root KERNEL_VMB 0 0x2000 3 = Inr u \<and>
     unmap_pages u root KERNEL_VMB 0x2000 = Inr v \<and> pte (kmem v) root KERNEL_VMB AND VMM_PAGE_PRESENT = 0"
proof -
  obtain t root where t: "vm_inv t root" "heap_pages t = 255"
    "currentMode (kheap t) = EarlyBoot" "\<And>w. pte (kmem t) root w = 0"
    by (rule early_space) blast
  have r: "range_ok KERNEL_VMB 0x2000" and pc: "page_count 0x2000 = 2"
    by (simp_all add: range_ok_def KERNEL_VMB_def page_count_def)
  obtain u where u: "map_pages t root KERNEL_VMB 0 0x2000 3 = Inr u" "249 \<le> heap_pages u"
    using map_pages_return [OF t(1) r t(3), of 0 3] t(2,4) by (auto simp: pc)
  have m: "vm_inv u root" "currentMode (kheap u) = EarlyBoot"
    using map_loop_pages [OF t(1) u(1) [unfolded map_pages_def] range_ok_limit(2-5) [OF r]] t(3)
    by (simp_all add: mapping_frame_def)
  obtain v where v: "unmap_pages u root KERNEL_VMB 0x2000 = Inr v"
    using unmap_pages_return [OF m(1) r m(2)] u(2) by (auto simp: pc)
  have "pte (kmem v) root KERNEL_VMB AND VMM_PAGE_PRESENT = 0"
    using map_unmap_roundtrip [OF t(1) r u(1) v, THEN conjunct2, THEN conjunct2, rule_format, of 0]
    by (simp add: pc)
  then show ?thesis using u(1) v by blast
qed

text \<open>C11. \<open>vmm::init\<close> succeeds in early boot when the heap has a page, establishes the invariant of
  the tables and loads the new root into the page-table register; a second call does nothing.  The
  address space it switches to is empty: no page is present, the kernel's own code, the heap and
  the stack included.\<close>

theorem vmm_init_empty:
  assumes "\<not> m_init (kernel_vmm s)" and "heap_ready s" and "0 < heap_cursor s"
    and "currentMode (kheap s) = EarlyBoot" and "1 \<le> heap_pages s"
  shows "\<exists>t root. vmm_init s = Inr t \<and> vmm_init t = Inr t \<and> vm_inv t root \<and> heap_pages t = heap_pages s - 1 \<and>
    currentMode (kheap t) = EarlyBoot \<and>
    kernel_vmm t = \<lparr>m_init = True, pdir_kernel = root, pdir_current = root\<rparr> \<and>
    cr3 t = MEM_VIRT_TO_PHYS root \<and> (\<forall>w. pte (kmem t) root w = 0)"
  using vmm_init_early [OF assms] by blast

theorem vmm_init_empty_witness:
  "\<exists>t root. vmm_init early_heap = Inr t \<and> cr3 t = MEM_VIRT_TO_PHYS root \<and>
     pte (kmem t) root KERNEL_VMA = 0"
  using vmm_init_empty [OF early_heap_ready(1-4)] early_heap_ready(5) by auto

text \<open>C8. In early boot \<open>map_pages\<close> returns, for every range that holds no present page, as soon as
  the heap has three pages for each page mapped (one for each level that may be missing).\<close>

theorem map_pages_returns:
  assumes "vm_inv s p4" and "range_ok addr sz" and "currentMode (kheap s) = EarlyBoot"
    and "3 * page_count sz \<le> heap_pages s"
    and "\<forall>k < page_count sz. \<forall>w. vpage w = page_at addr k \<longrightarrow> pte (kmem s) p4 w AND VMM_PAGE_PRESENT = 0"
  shows "\<exists>s'. map_pages s p4 addr p_addr sz flags = Inr s'"
  using map_pages_return [OF assms] by blast

theorem map_pages_returns_witness:
  "\<exists>t root u. vmm_init early_heap = Inr t \<and> map_pages t root KERNEL_VMB 0 0x2000 3 = Inr u"
proof -
  obtain t root where t: "vmm_init early_heap = Inr t" "vm_inv t root" "heap_pages t = 255"
    "currentMode (kheap t) = EarlyBoot" "\<And>w. pte (kmem t) root w = 0"
    by (rule early_space) blast
  have "range_ok KERNEL_VMB 0x2000" by (simp add: range_ok_def KERNEL_VMB_def)
  then show ?thesis
    using map_pages_returns [OF t(2) _ t(4), of KERNEL_VMB "0x2000" 0 3] t(1,3,5)
    by (auto simp: page_count_def)
qed

text \<open>C10. A range that holds a present page is not mapped.  Whatever the heap, \<open>map_pages\<close> does not
  return; and it panics with the message that says so when the present page is the first of the range
  (its tables exist, so nothing is allocated before) or, for the page with number \<open>k\<close>, when in early boot
  the heap has the three pages that each page before it may need.\<close>

theorem map_pages_remap_panics:
  assumes "vm_inv s p4" and "range_ok addr sz" and "k < page_count sz" and "vpage w = page_at addr k"
    and "pte (kmem s) p4 w AND VMM_PAGE_PRESENT \<noteq> 0"
  shows "(\<forall>s'. map_pages s p4 addr p_addr sz flags \<noteq> Inr s') \<and>
    (k = 0 \<or> currentMode (kheap s) = EarlyBoot \<and> 3 * k \<le> heap_pages s \<longrightarrow>
       map_pages s p4 addr p_addr sz flags = Inl (Panic ''vmm: Attempted to remap a page!''))"
proof (intro conjI allI impI notI)
  note r = range_ok_limit [OF assms(2)]
  show False if "map_pages s p4 addr p_addr sz flags = Inr s'" for s'
    using map_loop_pages [OF assms(1) that [unfolded map_pages_def] r(2-5)] assms(3-5) by blast
  assume room: "k = 0 \<or> currentMode (kheap s) = EarlyBoot \<and> 3 * k \<le> heap_pages s"
  have "unat addr + 4096 * k < unat (addr + sz)" using r(5) assms(3) by simp
  moreover have "k < page_period" using r(4) assms(3) by (simp add: page_period_def)
  ultimately show "map_pages s p4 addr p_addr sz flags = Inl (Panic ''vmm: Attempted to remap a page!'')"
    unfolding map_pages_def by (intro map_loop_remap [OF assms(1) room assms(4,5)] r(2))
qed

theorem map_pages_remap_panics_witness:
  "\<exists>t root u. map_pages t root (KERNEL_VMB + 0x1000) 0 0x1000 3 = Inr u \<and>
     map_pages u root KERNEL_VMB 0x8000 0x2000 3 = Inl (Panic ''vmm: Attempted to remap a page!'')"
proof -
  obtain t root where t: "vm_inv t root" "heap_pages t = 255"
    "currentMode (kheap t) = EarlyBoot" "\<And>w. pte (kmem t) root w = 0"
    by (rule early_space) blast
  have r: "range_ok (KERNEL_VMB + 0x1000) 0x1000" "range_ok KERNEL_VMB 0x2000"
    and pc: "page_count 0x1000 = 1" "1 < page_count 0x2000"
    by (simp_all add: range_ok_def KERNEL_VMB_def page_count_def)
  obtain u where u: "map_pages t root (KERNEL_VMB + 0x1000) 0 0x1000 3 = Inr u" "252 \<le> heap_pages u"
    using map_pages_return [OF t(1) r(1) t(3), of 0 3] t(2,4) by (auto simp: pc)
  note m = map_loop_pages [OF t(1) u(1) [unfolded map_pages_def] range_ok_limit(2-5) [OF r(1)]]
  have "pte (kmem u) root (KERNEL_VMB + 0x1000) = VMM_PAGE_CREATE_ENTRY 0 3"
    using m [THEN conjunct2, THEN conjunct2, THEN conjunct1, rule_format, of 0] by (simp add: pc)
  then have present: "pte (kmem u) root (KERNEL_VMB + 0x1000) AND VMM_PAGE_PRESENT \<noteq> 0"
    by (simp add: VMM_PAGE_CREATE_ENTRY_def VMM_PAGE_PRESENT_def)
  have "vm_inv u root" "currentMode (kheap u) = EarlyBoot" using m t(3) by (simp_all add: mapping_frame_def)
  moreover have "vpage (KERNEL_VMB + 0x1000) = page_at KERNEL_VMB 1" by (simp add: page_at_def PAGE_SIZE_def)
  ultimately have "map_pages u root KERNEL_VMB 0x8000 0x2000 3 = Inl (Panic ''vmm: Attempted to remap a page!'')"
    using map_pages_remap_panics [OF _ r(2) pc(2) _ present, of "0x8000" 3] u(2) by simp
  then show ?thesis using u(1) by blast
qed

text \<open>A range that ends at the top of the address space is not mapped: the limit wraps to zero (or
  below the start), the loop does not run, and the call returns as if it had succeeded.\<close>

theorem map_pages_top:
  assumes "addr + sz \<le> addr"
  shows "map_pages s p4 addr p_addr sz flags = Inr s \<and> unmap_pages s p4 addr sz = Inr s"
proof -
  have no: "\<not> addr < addr + sz" using assms by simp
  have "map_loop page_period s p4 addr (addr + sz) p_addr flags = Inr s"
    by (subst map_loop.simps) (simp only: no if_False)
  moreover have "unmap_loop page_period s p4 addr (addr + sz) = Inr s"
    by (subst unmap_loop.simps) (simp only: no if_False)
  ultimately show ?thesis by (simp add: map_pages_def unmap_pages_def)
qed

theorem map_pages_top_witness:
  "map_pages early_heap 0x9000 0xFFFFFFFFFFFFF000 0x5000 0x1000 3 = Inr early_heap"
  using map_pages_top [of "0xFFFFFFFFFFFFF000" "0x1000" early_heap "0x9000" "0x5000" 3] by simp

text \<open>C12. With less than 4 GiB of memory, \<open>vmm::map\<close> without an address, for the kernel region, takes the
  first run of \<open>length / 0x1000\<close> free frames, or one frame where that is zero, and maps the length, rounded
  up to pages, frame by frame at the kernel's window on physical memory.  So from one page on, a length
  that is not a multiple of the page size has its last page on a frame that was not allocated; below one
  page the one frame taken is the one mapped, and for length zero the frame is taken and nothing mapped.\<close>

theorem vmm_map_backed:
  assumes inv: "vm_inv s (pdir_current (kernel_vmm s))" and pmm: "pmm_below_4g s" and range: "range_ok v len"
    and run: "vmm_map s 0 len perm VMM_MAP_REGION_KERNEL = Inr (v, t)"
  shows "\<exists>k s1. pmm_allocate s (len div 0x1000) = Inr (of_nat k * 0x1000, s1) \<and>
    (\<forall>j < 2 ^ 64. used s1 j \<longleftrightarrow> k \<le> j \<and> j < k + max 1 (unat len div 4096) \<or> used s j) \<and>
    v = MEM_PHYS_TO_VIRT (of_nat k * 0x1000) \<and> vm_inv t (pdir_current (kernel_vmm s)) \<and>
    (\<forall>i < page_count len. \<forall>w. vpage w = page_at v i \<longrightarrow>
       pte (kmem t) (pdir_current (kernel_vmm s)) w =
         VMM_PAGE_CREATE_ENTRY (of_nat (k + i) * 0x1000) (ucast (ucast perm :: u8))) \<and>
    page_count len = unat len div 4096 + (if 4096 dvd unat len then 0 else 1)"
proof -
  let ?root = "pdir_current (kernel_vmm s)" and ?n = "max 1 (unat len div 4096)"
  from run obtain p s1 s2 where p: "pmm_allocate s (len div 0x1000) = Inr (p, s1)"
      "v = MEM_PHYS_TO_VIRT p" and m: "map_pages s1 (pdir_current (kernel_vmm s1)) v p len (ucast perm) = Inr s2"
      "t = swap_page_directory s2 (pdir_current (kernel_vmm s2))"
    by (auto simp: vmm_map_def map_target_def VMM_MAP_UNBACKED_def VMM_MAP_REGION_KERNEL_def bind_r_eq_Inr)
  have n: "unat (max 1 (len div 0x1000)) = ?n" by (simp add: max_def unat_div word_le_nat_alt)
  have "pmm_allocate s (max 1 (len div 0x1000)) = Inr (p, s1)"
    using p(1) pmm_allocate_zero [of s] by (cases "len div 0x1000 = 0") (auto simp: max_def word_le_nat_alt Suc_le_eq unat_gt_0)
  moreover have "unat len div 4096 < 2 ^ 63" using unat_lt_power [of len] by simp
  then have "unat (max 1 (len div 0x1000)) < 2 ^ 63" by (simp add: n)
  moreover have "1 \<le> max 1 (len div 0x1000)" by simp
  ultimately obtain k where k: "p = of_nat k * 0x1000" "same_but_bitmap s s1"
      "\<And>j. j < 2 ^ 64 \<Longrightarrow> used s1 j \<longleftrightarrow> k \<le> j \<and> j < k + ?n \<or> used s j"
    using pmm_allocate_run [OF pmm, of "max 1 (len div 0x1000)" p s1] unfolding n by blast
  have vmm: "kernel_vmm s1 = kernel_vmm s" using same_but_bitmap_fields(3) [OF k(2)] .
  have m1: "map_pages s1 ?root v p len (ucast perm) = Inr s2" using m(1) by (simp add: vmm)
  note s2 = map_loop_pages [OF bitmap_change(1) [OF inv k(2)] m1 [unfolded map_pages_def] range_ok_limit(2-5) [OF range]]
  have "pte (kmem t) ?root w = VMM_PAGE_CREATE_ENTRY (of_nat (k + i) * 0x1000) (ucast (ucast perm :: u8))"
    if "i < page_count len" "vpage w = page_at v i" for i w
    using s2 [THEN conjunct2, THEN conjunct2, THEN conjunct1, rule_format, OF that]
    by (simp add: m(2) k(1) PAGE_SIZE_def algebra_simps)
  moreover have "vm_inv t ?root"
    using s2 vm_inv_cong [of t s2] by (simp add: m(2))
  moreover have "page_count len = unat len div 4096 + (if 4096 dvd unat len then 0 else 1)"
    by (rule page_count_eq)
  moreover have "pmm_allocate s (len div 0x1000) = Inr (of_nat k * 0x1000, s1)"
    and "v = MEM_PHYS_TO_VIRT (of_nat k * 0x1000)"
    using p k(1) by simp_all
  ultimately show ?thesis using k(3) by (intro exI [of _ k] exI [of _ s1]) simp
qed

theorem vmm_map_backed_witness:
  "\<exists>t u root. vmm_init early_heap = Inr t \<and> vmm_map t 0 0x1800 3 VMM_MAP_REGION_KERNEL = Inr (KERNEL_VMB, u) \<and>
     pte (kmem u) root (KERNEL_VMB + 0x1000) = 0x1003"
proof -
  obtain t root where t: "vmm_init early_heap = Inr t" "vm_inv t root" "heap_pages t = 255"
    "currentMode (kheap t) = EarlyBoot" "pdir_current (kernel_vmm t) = root"
    "\<And>w. pte (kmem t) root w = 0" "pmm_below_4g t" "num_bits t = 16" "\<not> used t 0"
    by (rule early_space) blast
  have r: "range_ok KERNEL_VMB 0x1800" and pc: "page_count 0x1800 = 2"
    by (simp_all add: range_ok_def KERNEL_VMB_def page_count_def)
  have free: "free_run t 0 1" using t(8,9) by (simp add: free_run_def)
  have "search_result t 1 0 (pmm_allocate t 1)"
    using allocate_from_search [OF t(7), of 1 0] by (simp add: pmm_allocate_def)
  then obtain k0 s1 where k0: "pmm_allocate t 1 = Inr (of_nat k0 * 0x1000, s1)" "found_run t 1 0 k0 s1"
    using free by (auto simp: search_result_def)
  then have "k0 = 0" and "same_but_bitmap t s1"
    using free by (auto simp: found_run_def)
  then have s1: "pmm_allocate t 1 = Inr (0, s1)" "same_but_bitmap t s1" using k0(1) by simp_all
  note f = same_but_bitmap_fields [OF s1(2)]
  have "heap_pages s1 = heap_pages t" by (simp add: heap_pages_def f)
  then obtain s2 where s2: "map_pages s1 root KERNEL_VMB 0 0x1800 3 = Inr s2"
    using map_pages_return [OF bitmap_change(1) [OF t(2) s1(2)] r, of 0 3] t(3,4,6)
      bitmap_change(2) [OF t(2) s1(2)] by (auto simp: pc f)
  let ?u = "swap_page_directory s2 (pdir_current (kernel_vmm s2))"
  have run: "vmm_map t 0 0x1800 3 VMM_MAP_REGION_KERNEL = Inr (KERNEL_VMB, ?u)"
    using s1(1) s2 t(5) by (simp add: vmm_map_def map_target_def VMM_MAP_UNBACKED_def
        VMM_MAP_REGION_KERNEL_def MEM_PHYS_TO_VIRT_def f)
  have inv: "vm_inv t (pdir_current (kernel_vmm t))" using t(2,5) by simp
  obtain k s1' where k: "pmm_allocate t (0x1800 div 0x1000) = Inr (of_nat k * 0x1000, s1')"
    and pt: "\<forall>i < page_count 0x1800. \<forall>w. vpage w = page_at KERNEL_VMB i \<longrightarrow>
       pte (kmem ?u) (pdir_current (kernel_vmm t)) w =
         VMM_PAGE_CREATE_ENTRY (of_nat (k + i) * 0x1000) (ucast (ucast (3 :: u32) :: u8))"
    using vmm_map_backed [OF inv t(7) r run] by (elim exE conjE)
  have k0: "of_nat k * 0x1000 = (0 :: u64)" using k s1(1) by simp
  have v1: "vpage (KERNEL_VMB + 0x1000) = page_at KERNEL_VMB 1"
    by (simp add: page_at_def PAGE_SIZE_def)
  have one: "1 < page_count 0x1800" by (simp add: pc)
  have "of_nat (k + 1) * 0x1000 = of_nat k * 0x1000 + (0x1000 :: u64)" by (simp add: distrib_right)
  then have k1: "of_nat (k + 1) * 0x1000 = (0x1000 :: u64)" by (simp only: k0 add_0)
  have "pte (kmem ?u) root (KERNEL_VMB + 0x1000) = 0x1003"
    using pt [rule_format, OF one v1] unfolding k1 t(5) by (simp add: VMM_PAGE_CREATE_ENTRY_def)
  then show ?thesis using t(1) run by blast
qed

end
