(* ===== verification/Linked_List.thy ===== *)
theory Linked_List
  imports Kheap
begin

text \<open>
  \<open>common::single_linked_list\<close> (src/lobo/include/common/single_linked_list.h) for pointers, the only
  element type the kernel uses.  The nodes are a typed heap, a function of their addresses, beside
  the byte memory; the addresses come from the kernel's \<open>kmalloc\<close>.  The class has no destructor
  and the kernel frees no memory.  \<open>pop_back\<close> names a member that a node does not have and returns
  nothing: it cannot be instantiated, the kernel does not call it, and it is not modelled.
\<close>

record linked_list_node =
  m_value :: u64
  m_next :: u64

record single_linked_list =
  m_head :: u64
  m_tail :: u64
  m_size :: u64

type_synonym nodes = "u64 \<Rightarrow> linked_list_node"

definition empty_list :: single_linked_list where
  "empty_list = \<lparr>m_head = 0, m_tail = 0, m_size = 0\<rparr>"

text \<open>The state of a list: the kernel, whose heap it takes its nodes from, the nodes, the object.\<close>

type_synonym list_state = "kstate \<times> nodes \<times> single_linked_list"

definition NODE_SIZE :: u64 where "NODE_SIZE = 16"

section \<open>The code\<close>

definition create_head :: "list_state \<Rightarrow> u64 \<Rightarrow> kpanic + list_state" where
  "create_head st val = (case st of (s, h, l) \<Rightarrow>
     bind_r (kmalloc s NODE_SIZE) (\<lambda>(node, s).
     let l = l\<lparr>m_head := node\<rparr>;
         h = h(m_head l := \<lparr>m_value = val, m_next = 0\<rparr>)
     in Inr (s, h, l\<lparr>m_size := 1, m_tail := m_head l\<rparr>)))"

definition push_back :: "list_state \<Rightarrow> u64 \<Rightarrow> kpanic + list_state" where
  "push_back st val = (case st of (s, h, l) \<Rightarrow>
     if m_head l = 0 then create_head st val
     else
       bind_r (kmalloc s NODE_SIZE) (\<lambda>(new_node, s).
       let h = h(new_node := \<lparr>m_value = val, m_next = 0\<rparr>);
           h = h(m_tail l := (h (m_tail l))\<lparr>m_next := new_node\<rparr>)
       in Inr (s, h, l\<lparr>m_tail := new_node, m_size := m_size l + 1\<rparr>)))"

definition push_front :: "list_state \<Rightarrow> u64 \<Rightarrow> kpanic + list_state" where
  "push_front st val = (case st of (s, h, l) \<Rightarrow>
     if m_head l = 0 then create_head st val
     else
       bind_r (kmalloc s NODE_SIZE) (\<lambda>(new_node, s).
       let h = h(new_node := \<lparr>m_value = val, m_next = m_head l\<rparr>)
       in Inr (s, h, l\<lparr>m_head := new_node, m_size := m_size l + 1\<rparr>)))"

definition list_size :: "single_linked_list \<Rightarrow> u64" where
  "list_size l = m_size l"

text \<open>The iterator is a node's address; advancing a null iterator leaves it null.\<close>

definition list_begin :: "single_linked_list \<Rightarrow> u64" where
  "list_begin l = m_head l"

definition list_end :: u64 where "list_end = 0"

definition iterator_next :: "nodes \<Rightarrow> u64 \<Rightarrow> u64" where
  "iterator_next h node = (if node \<noteq> 0 then m_next (h node) else node)"

definition iterator_deref :: "nodes \<Rightarrow> u64 \<Rightarrow> kpanic + u64" where
  "iterator_deref h node = bind_r (guard Null_dereference (node \<noteq> 0)) (\<lambda>_. Inr (m_value (h node)))"

function advance :: "nodes \<Rightarrow> u64 \<Rightarrow> u64 \<Rightarrow> u64 \<Rightarrow> u64" where
  "advance h itr i index = (if i < index then advance h (iterator_next h itr) (i + 1) index else itr)"
  by pat_completeness auto
termination
  by (relation "measure (\<lambda>(h, itr, i, index). unat index - unat i)")
    (auto simp: unat_Suc_less word_less_nat_alt)

declare advance.simps [simp del]

definition list_at :: "nodes \<Rightarrow> single_linked_list \<Rightarrow> u64 \<Rightarrow> kpanic + u64" where
  "list_at h l index =
     (if index \<ge> m_size l then Inr 0
      else iterator_deref h (advance h (list_begin l) 0 index))"

section \<open>The sequence of nodes\<close>

primrec chain :: "nodes \<Rightarrow> u64 \<Rightarrow> u64 list \<Rightarrow> bool" where
  "chain h p [] \<longleftrightarrow> p = 0"
| "chain h p (q # qs) \<longleftrightarrow> p = q \<and> q \<noteq> 0 \<and> chain h (m_next (h q)) qs"

text \<open>A heap that is set up and cannot wrap for the small requests of the kernel's objects.\<close>

definition heap_usable :: "kstate \<Rightarrow> bool" where
  "heap_usable s \<longleftrightarrow> 0 < heap_cursor s \<and> heap_cursor s \<le> heap_limit s \<and> heap_limit s + 0x10000 \<le> 2 ^ 64"

lemma kmalloc_usable:
  assumes "heap_usable s" and "kmalloc s sz = Inr (b, t)" and "unat sz \<le> 0x8000"
  shows "heap_usable t" "heap_cursor s \<le> unat b" "heap_cursor t = unat b + unat sz" "b \<noteq> 0" "8 dvd unat b"
proof -
  have "admissible_request (heap_limit s) sz 8" and "heap_cursor s \<le> heap_limit s" "0 < heap_cursor s"
    using assms(1,3) by (simp_all add: heap_usable_def admissible_request_def)
  note k = kmalloc_admissible [OF assms(2) [unfolded kmalloc_def] this(2,1)]
  show "heap_cursor s \<le> unat b" "heap_cursor t = unat b + unat sz" "8 dvd unat b" using k by simp_all
  show "b \<noteq> 0" using k(2) \<open>0 < heap_cursor s\<close> by auto
  show "heap_usable t" using k assms(1) by (simp add: heap_usable_def)
qed

definition list_nodes_ok :: "list_state \<Rightarrow> u64 list \<Rightarrow> bool" where
  "list_nodes_ok st ps \<longleftrightarrow> (case st of (s, h, l) \<Rightarrow>
     heap_usable s \<and> chain h (m_head l) ps \<and> (ps \<noteq> [] \<longrightarrow> m_tail l = last ps) \<and>
     unat (m_size l) = length ps \<and> distinct ps \<and> (\<forall>p \<in> set ps. unat p < heap_cursor s))"

text \<open>The list as a value: the object holds the elements \<open>xs\<close>.\<close>

definition list_holds :: "list_state \<Rightarrow> u64 list \<Rightarrow> bool" where
  "list_holds st xs \<longleftrightarrow> (\<exists>ps. list_nodes_ok st ps \<and> xs = map (\<lambda>p. m_value ((fst (snd st)) p)) ps)"

lemma chain_update: "p \<notin> set ps \<Longrightarrow> chain (h(p := n)) q ps = chain h q ps"
  by (induction ps arbitrary: q) auto

lemma chain_append_last:
  "chain h q ps \<Longrightarrow> ps \<noteq> [] \<Longrightarrow> distinct ps \<Longrightarrow> n \<noteq> 0 \<Longrightarrow> m_next (h n) = 0 \<Longrightarrow> n \<notin> set ps \<Longrightarrow>
     chain (h(last ps := (h (last ps))\<lparr>m_next := n\<rparr>)) q (ps @ [n])"
proof (induction ps arbitrary: q)
  case (Cons p ps)
  show ?case
  proof (cases "ps = []")
    case False
    then have "last ps \<noteq> p" using Cons.prems(3) by auto
    then show ?thesis using Cons False by simp
  qed (use Cons.prems in auto)
qed simp

lemma chain_nonzero: "chain h q ps \<Longrightarrow> p \<in> set ps \<Longrightarrow> p \<noteq> 0"
  by (induction ps arbitrary: q) auto

lemma chain_head_0: "chain h 0 ps \<Longrightarrow> ps = []"
  by (cases ps) auto

lemma advance_chain:
  "chain h q ps \<Longrightarrow> unat index - unat i < length ps \<Longrightarrow> i \<le> index \<Longrightarrow>
     advance h q i index = ps ! (unat index - unat i)"
proof (induction ps arbitrary: q i)
  case (Cons p ps)
  show ?case
  proof (cases "i < index")
    case True
    have suc: "unat (i + 1) = Suc (unat i)" using True by (rule unat_Suc_less)
    then have "i + 1 \<le> index" using True by (simp add: word_le_nat_alt word_less_nat_alt)
    moreover have d: "unat index - unat i = Suc (unat index - unat (i + 1))"
      using True suc by (simp add: word_less_nat_alt)
    ultimately have "advance h (m_next (h p)) (i + 1) index = ps ! (unat index - unat (i + 1))"
      using Cons by simp
    then show ?thesis using Cons.prems True d by (subst advance.simps) (simp add: iterator_next_def)
  next
    case False
    then show ?thesis using Cons.prems by (subst advance.simps) simp
  qed
qed simp

section \<open>The interface of a sequence\<close>

text \<open>What the scheduler relies on: appending, reading by index, and the size.\<close>

locale sequence =
  fixes holds :: "'s \<Rightarrow> 'a list \<Rightarrow> bool"
    and append_op :: "'s \<Rightarrow> 'a \<Rightarrow> 'e + 's"
    and read :: "'s \<Rightarrow> nat \<Rightarrow> 'e + 'a"
    and count :: "'s \<Rightarrow> nat"
  assumes count: "holds s xs \<Longrightarrow> count s = length xs"
    and append_op: "holds s xs \<Longrightarrow> append_op s x = Inr t \<Longrightarrow> Suc (length xs) < 2 ^ 64 \<Longrightarrow> holds t (xs @ [x])"
    and read: "holds s xs \<Longrightarrow> i < length xs \<Longrightarrow> read s i = Inr (xs ! i)"
begin

lemma fold_append:
  "holds s xs \<Longrightarrow> fold_r append_op ys s = Inr t \<Longrightarrow> length xs + length ys < 2 ^ 64 \<Longrightarrow> holds t (xs @ ys)"
proof (induction ys arbitrary: s xs)
  case (Cons y ys)
  then obtain u where u: "append_op s y = Inr u" "fold_r append_op ys u = Inr t"
    by (auto simp: bind_r_eq_Inr)
  have "holds u (xs @ [y])" using Cons.prems u(1) append_op by simp
  from Cons.IH [OF this u(2)] show ?case using Cons.prems(3) by simp
qed simp

lemma fold_append_read:
  assumes "holds s []" and "fold_r append_op ys s = Inr t" and "length ys < 2 ^ 64" and "i < length ys"
  shows "read t i = Inr (ys ! i)"
  using fold_append [OF assms(1,2)] assms(3,4) read [of t ys i] by simp

end

section \<open>The list keeps its nodes\<close>

lemma fresh_node:
  assumes "list_nodes_ok (s, h, l) ps" and "kmalloc s NODE_SIZE = Inr (n, t)"
  shows "heap_usable t" "n \<noteq> 0" "n \<notin> set ps" "unat n < heap_cursor t" "\<forall>p \<in> set ps. unat p < heap_cursor t"
proof -
  have "heap_usable s" and old: "\<forall>p \<in> set ps. unat p < heap_cursor s"
    using assms(1) by (simp_all add: list_nodes_ok_def)
  note k = kmalloc_usable [OF this(1) assms(2), unfolded NODE_SIZE_def, simplified]
  show "heap_usable t" "n \<noteq> 0" using k by simp_all
  show "n \<notin> set ps" using k(2) old by auto
  show "unat n < heap_cursor t" using k(3) by simp
  show "\<forall>p \<in> set ps. unat p < heap_cursor t" using k(2,3) old by auto
qed

lemma create_head_ok:
  assumes "list_nodes_ok (s, h, l) []" and "create_head (s, h, l) v = Inr st"
  shows "\<exists>n. list_nodes_ok st [n] \<and> m_value ((fst (snd st)) n) = v"
proof -
  from assms(2) obtain n t where n: "kmalloc s NODE_SIZE = Inr (n, t)"
      "st = (t, h(n := \<lparr>m_value = v, m_next = 0\<rparr>), l\<lparr>m_head := n, m_size := 1, m_tail := n\<rparr>)"
    by (auto simp: create_head_def bind_r_eq_Inr Let_def)
  then show ?thesis using fresh_node [OF assms(1) n(1)] by (auto simp: list_nodes_ok_def)
qed

lemma size_Suc: "unat w = n \<Longrightarrow> Suc n < 2 ^ 64 \<Longrightarrow> unat ((w :: u64) + 1) = Suc n"
  by (subst unat_add_lt) simp_all

lemma push_back_ok:
  assumes ok: "list_nodes_ok (s, h, l) ps" and run: "push_back (s, h, l) v = Inr st"
    and room: "Suc (length ps) < 2 ^ 64"
  shows "\<exists>n. list_nodes_ok st (ps @ [n]) \<and> map (\<lambda>p. m_value ((fst (snd st)) p)) (ps @ [n]) =
    map (\<lambda>p. m_value (h p)) ps @ [v]"
proof (cases "m_head l = 0")
  case True
  then have ps: "ps = []" using ok by (auto simp: list_nodes_ok_def dest: chain_head_0)
  then show ?thesis using create_head_ok [of s h l v st] ok run True by (auto simp: push_back_def)
next
  case False
  then obtain n t where n: "kmalloc s NODE_SIZE = Inr (n, t)"
    and st: "st = (t, (let h = h(n := \<lparr>m_value = v, m_next = 0\<rparr>) in h(m_tail l := (h (m_tail l))\<lparr>m_next := n\<rparr>)),
      l\<lparr>m_tail := n, m_size := m_size l + 1\<rparr>)"
    using run by (auto simp: push_back_def bind_r_eq_Inr Let_def)
  note f = fresh_node [OF ok n]
  have c: "chain h (m_head l) ps" and ne: "ps \<noteq> []" and tail: "m_tail l = last ps"
    and d: "distinct ps" and sz: "unat (m_size l) = length ps"
    using ok False by (auto simp: list_nodes_ok_def)
  let ?h = "h(n := \<lparr>m_value = v, m_next = 0\<rparr>)"
  let ?h' = "?h(last ps := (?h (last ps))\<lparr>m_next := n\<rparr>)"
  have "chain ?h' (m_head l) (ps @ [n])"
    using c ne d f(2,3) by (intro chain_append_last) (auto simp: chain_update)
  moreover have "m_value (?h' p) = m_value (h p)" if "p \<in> set ps" for p using that f(3) by auto
  moreover have "m_value (?h' n) = v" using f(3) ne by auto
  ultimately show ?thesis
    using f d tail size_Suc [OF sz room] by (auto simp: list_nodes_ok_def st Let_def intro!: exI [of _ n])
qed

lemma push_front_ok:
  assumes ok: "list_nodes_ok (s, h, l) ps" and run: "push_front (s, h, l) v = Inr st"
    and room: "Suc (length ps) < 2 ^ 64"
  shows "\<exists>n. list_nodes_ok st (n # ps) \<and> map (\<lambda>p. m_value ((fst (snd st)) p)) (n # ps) =
    v # map (\<lambda>p. m_value (h p)) ps"
proof (cases "m_head l = 0")
  case True
  then have ps: "ps = []" using ok by (auto simp: list_nodes_ok_def dest: chain_head_0)
  then show ?thesis using create_head_ok [of s h l v st] ok run True by (auto simp: push_front_def)
next
  case False
  then obtain n t where n: "kmalloc s NODE_SIZE = Inr (n, t)"
    and st: "st = (t, h(n := \<lparr>m_value = v, m_next = m_head l\<rparr>), l\<lparr>m_head := n, m_size := m_size l + 1\<rparr>)"
    using run by (auto simp: push_front_def bind_r_eq_Inr Let_def)
  note f = fresh_node [OF ok n]
  have ne: "ps \<noteq> []" and sz: "unat (m_size l) = length ps"
    using ok False by (auto simp: list_nodes_ok_def)
  then show ?thesis
    using ok f size_Suc [OF sz room] by (auto simp: list_nodes_ok_def st chain_update)
qed

lemma list_at_ok:
  assumes "list_nodes_ok (s, h, l) ps" and "i < length ps" and "length ps < 2 ^ 64"
  shows "list_at h l (of_nat i) = Inr (m_value (h (ps ! i)))"
proof -
  have i: "unat (of_nat i :: u64) = i" using assms(2,3) by (simp add: unat_of_nat)
  have c: "chain h (m_head l) ps" and sz: "unat (m_size l) = length ps"
    using assms(1) by (auto simp: list_nodes_ok_def)
  have "advance h (m_head l) 0 (of_nat i) = ps ! i"
    using advance_chain [OF c, of "of_nat i" 0] assms(2) by (simp add: i)
  moreover have "ps ! i \<noteq> 0"
    using chain_nonzero [OF c] assms(2) by simp
  ultimately show ?thesis
    using assms(2) sz by (simp add: list_at_def iterator_deref_def list_begin_def word_le_nat_alt i)
qed

text \<open>The class is a sequence, with the state of the kernel, the nodes and the object as its state.\<close>

definition list_read :: "list_state \<Rightarrow> nat \<Rightarrow> kpanic + u64" where
  "list_read st i = list_at (fst (snd st)) (snd (snd st)) (of_nat i)"

definition list_count :: "list_state \<Rightarrow> nat" where
  "list_count st = unat (list_size (snd (snd st)))"

lemma list_holds_bound: "list_holds st xs \<Longrightarrow> length xs < 2 ^ 64 \<and> list_count st = length xs"
  using unat_lt_power [of "m_size (snd (snd st))"]
  by (cases st) (auto simp: list_holds_def list_nodes_ok_def list_count_def list_size_def)

lemma push_back_holds:
  assumes "list_holds st xs" and "push_back st x = Inr t" and "Suc (length xs) < 2 ^ 64"
  shows "list_holds t (xs @ [x])"
proof -
  obtain s h l where st: "st = (s, h, l)" by (cases st)
  with assms(1) obtain ps where ps: "list_nodes_ok (s, h, l) ps" "xs = map (\<lambda>p. m_value (h p)) ps"
    by (auto simp: list_holds_def)
  from push_back_ok [OF ps(1) assms(2) [unfolded st]] assms(3) ps(2) show ?thesis
    unfolding list_holds_def by (metis length_map)
qed

lemma list_read_holds:
  assumes "list_holds st xs" and "i < length xs"
  shows "list_read st i = Inr (xs ! i)"
proof -
  obtain s h l where st: "st = (s, h, l)" by (cases st)
  with assms(1) obtain ps where ps: "list_nodes_ok (s, h, l) ps" "xs = map (\<lambda>p. m_value (h p)) ps"
    by (auto simp: list_holds_def)
  show ?thesis
    using list_at_ok [OF ps(1), of i] list_holds_bound [OF assms(1)] assms(2) ps(2)
    by (simp add: st list_read_def)
qed

lemma list_holds_cong:
  "kheap s = kheap s' \<Longrightarrow> list_holds (s, h, l) xs \<longleftrightarrow> list_holds (s', h, l) xs"
  by (simp add: list_holds_def list_nodes_ok_def heap_usable_def)

lemma list_holds_grow:
  assumes "list_holds (s, h, l) xs" and "heap_usable s'" and "heap_cursor s \<le> heap_cursor s'"
  shows "list_holds (s', h, l) xs"
  using assms by (fastforce simp: list_holds_def list_nodes_ok_def)

lemma list_holds_empty: "heap_usable s \<Longrightarrow> list_holds (s, h, empty_list) []"
  by (auto simp: list_holds_def list_nodes_ok_def empty_list_def)

lemma list_holds_room:
  assumes "list_holds (s, h, l) xs"
  shows "length xs + 0x10000 \<le> 2 ^ 64"
proof -
  from assms obtain ps where ps: "list_nodes_ok (s, h, l) ps" "length xs = length ps"
    by (auto simp: list_holds_def)
  then have "unat ` set ps \<subseteq> {..<heap_cursor s}" and d: "distinct ps" and u: "heap_usable s"
    by (auto simp: list_nodes_ok_def)
  from card_mono [OF _ this(1)] have "length ps \<le> heap_cursor s"
    using distinct_card [OF d] card_image [of unat "set ps"] by (simp add: inj_on_def word_unat_eq_iff)
  then show ?thesis using u ps(2) by (simp add: heap_usable_def)
qed

lemma push_back_heap:
  assumes "push_back (s, h, l) x = Inr (s', h', l')" and "heap_usable s"
  shows "heap_usable s'" "heap_cursor s \<le> heap_cursor s'"
proof -
  from assms(1) obtain b where k: "kmalloc s NODE_SIZE = Inr (b, s')"
    by (auto simp: push_back_def create_head_def bind_r_eq_Inr Let_def split: if_splits)
  note k = kmalloc_usable [OF assms(2) k]
  show "heap_usable s'" "heap_cursor s \<le> heap_cursor s'" using k by (simp_all add: NODE_SIZE_def)
qed

interpretation slist: sequence list_holds push_back list_read list_count
  by unfold_locales (auto simp: list_holds_bound list_read_holds intro: push_back_holds)

section \<open>Properties\<close>

text \<open>C26. Appending any sequence of pointers to a list that starts empty keeps them all in order: when the
  calls of \<open>push_back\<close> return, the size is their number, \<open>at(i)\<close> returns the \<open>i\<close>-th one and \<open>at\<close> of
  an index that is not below the size returns null; \<open>push_front\<close> puts its argument before them.\<close>

theorem list_keeps_order:
  assumes "heap_usable s" and "fold_r push_back xs (s, h, empty_list) = Inr t" and "length xs < 2 ^ 63"
  shows "list_count t = length xs \<and> (\<forall>i < length xs. list_read t i = Inr (xs ! i)) \<and>
    (\<forall>i. list_size (snd (snd t)) \<le> i \<longrightarrow> list_at (fst (snd t)) (snd (snd t)) i = Inr 0) \<and>
    (\<forall>x u. push_front t x = Inr u \<longrightarrow> list_holds u (x # xs))"
proof -
  have "list_nodes_ok (s, h, empty_list) []" using assms(1) by (simp add: list_nodes_ok_def empty_list_def)
  then have "list_holds (s, h, empty_list) []" by (auto simp: list_holds_def)
  from slist.fold_append [OF this assms(2)] assms(3) have t: "list_holds t xs" by simp
  have "list_holds u (x # xs)" if "push_front t x = Inr u" for x u
  proof -
    obtain s' h' l' where t': "t = (s', h', l')" by (cases t)
    with t obtain ps where ps: "list_nodes_ok (s', h', l') ps" "xs = map (\<lambda>p. m_value (h' p)) ps"
      by (auto simp: list_holds_def)
    have "Suc (length ps) < 2 ^ 64" using assms(3) by (simp add: ps(2))
    from push_front_ok [OF ps(1) that [unfolded t'] this] obtain n where
      "list_nodes_ok u (n # ps)" "map (\<lambda>p. m_value ((fst (snd u)) p)) (n # ps) = x # map (\<lambda>p. m_value (h' p)) ps"
      by (elim exE conjE)
    then show ?thesis unfolding list_holds_def ps(2) by (intro exI [of _ "n # ps"]) simp
  qed
  then show ?thesis
    using list_holds_bound [OF t] list_read_holds [OF t] by (auto simp: list_at_def list_size_def)
qed

theorem list_keeps_order_witness:
  "\<exists>t. fold_r push_back [0x111, 0x222] (sample_heap 0x1000 0x8000 EarlyBoot, \<lambda>_. \<lparr>m_value = 0, m_next = 0\<rparr>, empty_list)
     = Inr t \<and> list_read t 1 = Inr 0x222"
proof -
  let ?s = "sample_heap 0x1000 0x8000 EarlyBoot" and ?h = "\<lambda>_. \<lparr>m_value = 0, m_next = 0\<rparr>"
  have "heap_usable ?s" by (simp add: heap_usable_def sample_heap_def)
  moreover obtain t where run: "fold_r push_back [0x111, 0x222] (?s, ?h, empty_list) = Inr t"
    by (simp add: push_back_def create_head_def kmalloc_def kmalloc_aligned_def sample_heap_def align_base_def
        empty_list_def NODE_SIZE_def Let_def set_base_def log_event_def)
  ultimately show ?thesis using list_keeps_order [of ?s "[0x111, 0x222]" ?h t] by auto
qed

end
