(* ===== verification/Drivers.thy ===== *)
theory Drivers
  imports Linked_List
begin

text \<open>
  The driver registry: src/lobo/drivers/driver_registry.cpp, with the driver class of
  include/kernel/driver.h.  Driver objects are a typed heap; the registry is the kernel's linked
  list of their addresses.  \<open>driver::init\<close> and \<open>driver::call\<close> have empty bodies.
\<close>

datatype driver_type = IN_KERNEL | LOADABLE

record driver =
  m_name :: string
  m_type :: driver_type

type_synonym driver_heap = "u64 \<Rightarrow> driver"

record driver_registry =
  driver_list :: single_linked_list

definition registry_initial :: driver_registry where
  "registry_initial = \<lparr>driver_list = empty_list\<rparr>"

definition registry_add :: "kstate \<Rightarrow> nodes \<Rightarrow> driver_registry \<Rightarrow> u64 \<Rightarrow> kpanic + (kstate \<times> nodes \<times> driver_registry)" where
  "registry_add s h r drv =
     bind_r (push_back (s, h, driver_list r) drv) (\<lambda>(s, h, l). Inr (s, h, r\<lparr>driver_list := l\<rparr>))"

text \<open>A loop over a list's nodes from an iterator to the end: the body runs on each node's value.  A
  list whose nodes form a cycle is never finished.\<close>

partial_function (option) walk_nodes ::
    "('s \<Rightarrow> u64 \<Rightarrow> kpanic + 's) \<Rightarrow> nodes \<Rightarrow> u64 \<Rightarrow> 's \<Rightarrow> (kpanic + 's) option" where
  "walk_nodes body h itr s =
     (if itr = list_end then Some (Inr s)
      else case body s (m_value (h itr)) of
        Inl e \<Rightarrow> Some (Inl e)
      | Inr s \<Rightarrow> walk_nodes body h (iterator_next h itr) s)"

definition for_each :: "('s \<Rightarrow> u64 \<Rightarrow> kpanic + 's) \<Rightarrow> nodes \<Rightarrow> single_linked_list \<Rightarrow> 's \<Rightarrow> kpanic + 's" where
  "for_each body h l s = (case walk_nodes body h (list_begin l) s of Some r \<Rightarrow> r | None \<Rightarrow> Inl Diverges)"

lemma walk_nodes_chain:
  "chain h q ps \<Longrightarrow> walk_nodes body h q s = Some (fold_r body (map (\<lambda>p. m_value (h p)) ps) s)"
proof (induction ps arbitrary: q s)
  case Nil
  then show ?case by (subst walk_nodes.simps) (simp add: list_end_def)
next
  case (Cons p ps)
  then show ?case
    by (subst walk_nodes.simps, cases "body s (m_value (h p))") (auto simp: list_end_def iterator_next_def)
qed

lemma for_each_holds:
  assumes "list_holds (k, h, l) xs"
  shows "for_each body h l s = fold_r body xs s"
proof -
  from assms obtain ps where "chain h (m_head l) ps" "xs = map (\<lambda>p. m_value (h p)) ps"
    by (auto simp: list_holds_def list_nodes_ok_def)
  from walk_nodes_chain [OF this(1), of body s] this(2) show ?thesis
    by (simp add: for_each_def list_begin_def)
qed

end
