(* ===== verification/Thread_Switch.thy ===== *)
theory Thread_Switch
  imports Kernel_Base
begin

text \<open>
  src/lobo/arch/x86_64/switch_thread.s: the two routines the scheduler calls to change threads and
  address spaces, instruction by instruction.  The machine is the sixteen general registers, the
  instruction pointer, \<open>cr3\<close> and the stack memory.  A thread or task control block is reached by
  its address; the routines use one field of each, at offset 0, so the blocks are here the two
  functions \<open>stack_tops\<close> and \<open>task_vas\<close> of the address.
\<close>

datatype reg = RAX | RCX | RDX | RBX | RSP | RBP | RSI | RDI | R8 | R9 | R10 | R11 | R12 | R13 | R14 | R15

record machine =
  regs :: "reg \<Rightarrow> u64"
  rip :: u64
  mcr3 :: u64
  stack_mem :: "64 bytes"
  stack_tops :: "u64 \<Rightarrow> u64"
  task_vas :: "u64 \<Rightarrow> u64"

section \<open>The instructions\<close>

definition set_reg :: "machine \<Rightarrow> reg \<Rightarrow> u64 \<Rightarrow> machine" where
  "set_reg m r v = m\<lparr>regs := (regs m)(r := v)\<rparr>"

definition push_word :: "machine \<Rightarrow> u64 \<Rightarrow> machine" where
  "push_word m v =
     (let sp = regs m RSP - 8
      in set_reg (m\<lparr>stack_mem := store64 (stack_mem m) sp v\<rparr>) RSP sp)"

definition push_reg :: "machine \<Rightarrow> reg \<Rightarrow> machine" where
  "push_reg m r = push_word m (regs m r)"

definition pop_reg :: "machine \<Rightarrow> reg \<Rightarrow> machine" where
  "pop_reg m r =
     (let sp = regs m RSP; v = load64 (stack_mem m) sp
      in set_reg (set_reg m RSP (sp + 8)) r v)"

definition ret :: "machine \<Rightarrow> machine" where
  "ret m = (let sp = regs m RSP in (set_reg m RSP (sp + 8))\<lparr>rip := load64 (stack_mem m) sp\<rparr>)"

definition saved_regs :: "reg list" where
  "saved_regs = [RAX, RCX, RDX, RBX, RBP, RSI, RDI, R8, R9, R10, R11, R12, R13, R14, R15]"

section \<open>The routines\<close>

text \<open>\<open>rdi\<close> is the address of the new thread's block, \<open>rsi\<close> that of the current one.\<close>

definition switch_thread :: "machine \<Rightarrow> machine" where
  "switch_thread m =
     (let m = foldl push_reg m saved_regs;
          m = m\<lparr>stack_tops := (stack_tops m)(regs m RSI := regs m RSP)\<rparr>;
          m = set_reg m RSP (stack_tops m (regs m RDI));
          m = foldl pop_reg m (rev saved_regs)
      in ret m)"

definition switch_task_vas :: "machine \<Rightarrow> machine" where
  "switch_task_vas m =
     (let m = set_reg m RCX (task_vas m (regs m RDI));
          m = set_reg m RAX (mcr3 m);
          m = (if regs m RAX = regs m RCX then m else m\<lparr>mcr3 := regs m RAX\<rparr>)
      in ret m)"

section \<open>Frames on the stack\<close>

text \<open>The words that stand from an address upwards.\<close>

primrec words_at :: "64 bytes \<Rightarrow> u64 \<Rightarrow> u64 list \<Rightarrow> bool" where
  "words_at m p [] \<longleftrightarrow> True"
| "words_at m p (v # vs) \<longleftrightarrow> load64 m p = v \<and> words_at m (p + 8) vs"

lemma set_reg_simps [simp]:
  "regs (set_reg m r v) = (regs m)(r := v)" "stack_mem (set_reg m r v) = stack_mem m"
  "rip (set_reg m r v) = rip m" "mcr3 (set_reg m r v) = mcr3 m"
  "stack_tops (set_reg m r v) = stack_tops m" "task_vas (set_reg m r v) = task_vas m"
  by (simp_all add: set_reg_def)

lemma push_reg_simps [simp]:
  "regs (push_reg m r) = (regs m)(RSP := regs m RSP - 8)"
  "stack_mem (push_reg m r) = store64 (stack_mem m) (regs m RSP - 8) (regs m r)"
  "rip (push_reg m r) = rip m" "mcr3 (push_reg m r) = mcr3 m"
  "stack_tops (push_reg m r) = stack_tops m" "task_vas (push_reg m r) = task_vas m"
  by (simp_all add: push_reg_def push_word_def Let_def)

lemma pop_reg_simps [simp]:
  "regs (pop_reg m r) = (regs m)(RSP := regs m RSP + 8, r := load64 (stack_mem m) (regs m RSP))"
  "stack_mem (pop_reg m r) = stack_mem m" "rip (pop_reg m r) = rip m" "mcr3 (pop_reg m r) = mcr3 m"
  "stack_tops (pop_reg m r) = stack_tops m" "task_vas (pop_reg m r) = task_vas m"
  by (simp_all add: pop_reg_def Let_def)

lemma words_apart:
  fixes a :: u64
  assumes "8 \<le> c" and "c + 8 \<le> 2 ^ 64"
  shows "disjoint_ranges a 8 (a + of_nat c) 8"
  unfolding disjoint_ranges_def
proof (intro allI notI, elim conjE)
  fix x assume "in_range x a 8" and "in_range x (a + of_nat c) 8"
  then have d: "unat (x - a) < 8" and e: "unat (x - a - of_nat c) < 8"
    by (simp_all add: in_range_def diff_diff_eq)
  have "unat (of_nat c :: u64) = c" using assms(2) by (simp add: unat_of_nat)
  then have "unat (x - a - of_nat c) = 2 ^ 64 + unat (x - a) - c"
    using d assms(1) by (subst unat_sub_gt) simp_all
  then show False using e assms by linarith
qed

lemma words_at_store:
  assumes "words_at m (p + of_nat (8 * k)) vs" and "1 \<le> k" and "8 * (k + length vs) \<le> 2 ^ 64 - 8"
  shows "words_at (store64 m p v) (p + of_nat (8 * k)) vs"
  using assms
proof (induction vs arbitrary: k)
  case (Cons w vs)
  have "load64 (store64 m p v) (p + of_nat (8 * k)) = load64 m (p + of_nat (8 * k))"
    using Cons.prems by (intro load_store_disjoint words_apart) simp_all
  moreover have "p + of_nat (8 * k) + 8 = p + of_nat (8 * Suc k)" by simp
  ultimately show ?case using Cons.prems Cons.IH [of "Suc k"] by (simp add: algebra_simps)
qed simp

lemma words_at_append:
  "words_at m p (vs @ ws) \<longleftrightarrow> words_at m p vs \<and> words_at m (p + of_nat (8 * length vs)) ws"
  by (induction vs arbitrary: p) (simp_all add: algebra_simps)

lemma words_at_cong:
  assumes "\<And>x. in_range x p (8 * length vs) \<Longrightarrow> m x = m' x" and "8 * length vs \<le> 2 ^ 64"
  shows "words_at m p vs \<longleftrightarrow> words_at m' p vs"
  using assms
proof (induction vs arbitrary: p)
  case (Cons v vs)
  have "load64 m p = (load64 m' p :: u64)"
    using Cons.prems(1) in_range_mono [of _ p 8 "8 * length (v # vs)"] by (intro load_le_cong) simp_all
  moreover have "words_at m (p + 8) vs \<longleftrightarrow> words_at m' (p + 8) vs"
  proof (rule Cons.IH)
    fix x assume "in_range x (p + 8) (8 * length vs)"
    then have "unat (x - p - 8) < 8 * length vs" by (simp add: in_range_def diff_diff_eq)
    moreover have "unat (x - p) \<le> unat (x - p - 8) + 8"
      using unat_add_lt [of "x - p - 8" 8] unat_lt_power [of "x - p"]
      by (cases "unat (x - p - 8) + 8 < 2 ^ 64") simp_all
    ultimately show "m x = m' x" using Cons.prems(1) [of x] by (simp add: in_range_def)
  qed (use Cons.prems(2) in simp)
  ultimately show ?case by simp
qed simp

section \<open>Pushing and popping lists of registers\<close>

lemma push_all:
  assumes "RSP \<notin> set rs" and "words_at (stack_mem m) (regs m RSP) vs"
    and "8 * (length rs + length vs) \<le> 2 ^ 64 - 16"
  shows "regs (foldl push_reg m rs) = (regs m)(RSP := regs m RSP - of_nat (8 * length rs)) \<and>
    words_at (stack_mem (foldl push_reg m rs)) (regs m RSP - of_nat (8 * length rs)) (rev (map (regs m) rs) @ vs) \<and>
    stack_tops (foldl push_reg m rs) = stack_tops m \<and> mcr3 (foldl push_reg m rs) = mcr3 m \<and>
    task_vas (foldl push_reg m rs) = task_vas m"
  using assms
proof (induction rs arbitrary: m vs)
  case (Cons r rs)
  let ?m = "push_reg m r"
  have "words_at (store64 (stack_mem m) (regs m RSP - 8) (regs m r)) (regs m RSP - 8 + of_nat (8 * 1)) vs"
    by (rule words_at_store) (use Cons.prems in simp_all)
  then have w: "words_at (stack_mem ?m) (regs ?m RSP) (regs m r # vs)" by simp
  have eq: "map (regs ?m) rs = map (regs m) rs" using Cons.prems(1) by auto
  have "RSP \<notin> set rs" and "8 * (length rs + length (regs m r # vs)) \<le> 2 ^ 64 - 16"
    using Cons.prems by simp_all
  from Cons.IH [OF this(1) w this(2), unfolded eq] show ?case by (auto simp: algebra_simps fun_eq_iff)
qed simp

lemma pop_all_frame:
  "stack_mem (foldl pop_reg m rs) = stack_mem m \<and> stack_tops (foldl pop_reg m rs) = stack_tops m \<and>
   mcr3 (foldl pop_reg m rs) = mcr3 m \<and> task_vas (foldl pop_reg m rs) = task_vas m"
  by (induction rs arbitrary: m) simp_all

lemma pop_all_regs:
  assumes "RSP \<notin> set rs" and "distinct rs" and "words_at (stack_mem m) (regs m RSP) (map f rs)"
  shows "regs (foldl pop_reg m rs) =
      (\<lambda>r. if r \<in> set rs then f r else if r = RSP then regs m RSP + of_nat (8 * length rs) else regs m r)"
  using assms
proof (induction rs arbitrary: m)
  case (Cons r rs)
  let ?m = "pop_reg m r"
  have w: "words_at (stack_mem ?m) (regs ?m RSP) (map f rs)"
    and v: "load64 (stack_mem m) (regs m RSP) = f r" and rs: "RSP \<notin> set rs" "distinct rs"
    using Cons.prems by simp_all
  show ?case using Cons.IH [OF rs w] Cons.prems(1,2) v by (auto simp: fun_eq_iff algebra_simps)
qed auto

lemma push_all_frame:
  assumes "8 * length rs < 2 ^ 64" and "\<not> in_range x (regs m RSP - of_nat (8 * length rs)) (8 * length rs)"
  shows "stack_mem (foldl push_reg m rs) x = stack_mem m x"
  using assms
proof (induction rs arbitrary: m)
  case (Cons r rs)
  let ?sp = "regs m RSP" and ?n = "8 * length rs"
  have out: "\<not> unat (x - ?sp + of_nat (?n + 8)) < ?n + 8"
    using Cons.prems(2) by (simp add: in_range_def algebra_simps)
  have n: "unat (of_nat ?n :: u64) = ?n" "unat (of_nat (?n + 8) :: u64) = ?n + 8"
    using Cons.prems(1) by (subst unat_of_nat; simp)+
  have "\<not> in_range x (regs (push_reg m r) RSP - of_nat ?n) ?n"
    using out by (simp add: in_range_def algebra_simps)
  then have "stack_mem (foldl push_reg (push_reg m r) rs) x = stack_mem (push_reg m r) x"
    using Cons.prems(1) by (intro Cons.IH) simp_all
  also have "\<not> in_range x (?sp - 8) 8"
  proof
    assume "in_range x (?sp - 8) 8"
    then have d: "unat (x - ?sp + 8) < 8" by (simp add: in_range_def algebra_simps)
    have "x - ?sp + of_nat (?n + 8) = (x - ?sp + 8) + of_nat ?n" by simp
    then have "unat (x - ?sp + of_nat (?n + 8)) = unat (x - ?sp + 8) + ?n"
      using d Cons.prems(1) n(1) by (simp only:) (subst unat_add_lt, simp_all)
    then show False using out d by linarith
  qed
  then have "stack_mem (push_reg m r) x = stack_mem m x" by (simp add: store_le_def)
  finally show ?case by simp
qed simp

section \<open>The effect of switch_thread\<close>

lemma saved_regs_simps [simp]:
  "RSP \<notin> set saved_regs" "distinct saved_regs" "length saved_regs = 15"
  "r \<in> set saved_regs \<longleftrightarrow> r \<noteq> RSP"
  by (auto simp: saved_regs_def) (cases r; simp)

text \<open>The frame that a switch leaves on the old stack: the registers, and above them the return address.\<close>

definition thread_frame :: "(reg \<Rightarrow> u64) \<Rightarrow> u64 \<Rightarrow> u64 list" where
  "thread_frame f ra = map f (rev saved_regs) @ [ra]"

lemma switch_thread_eq:
  fixes m :: machine
  defines "sp \<equiv> regs m RSP - 120" and "tops \<equiv> (stack_tops m)(regs m RSI := regs m RSP - 120)"
    and "mem \<equiv> stack_mem (foldl push_reg m saved_regs)"
  shows "words_at mem sp (thread_frame (regs m) (load64 (stack_mem m) (regs m RSP)))"
    and "\<not> in_range x sp 120 \<Longrightarrow> mem x = stack_mem m x"
    and "words_at mem (tops (regs m RDI)) (thread_frame f ra) \<Longrightarrow>
       switch_thread m = m\<lparr>regs := (\<lambda>r. if r = RSP then tops (regs m RDI) + 128 else f r),
         rip := ra, stack_mem := mem, stack_tops := tops\<rparr>"
proof -
  let ?p = "foldl push_reg m saved_regs"
  have p: "regs ?p = (regs m)(RSP := sp)" "stack_tops ?p = stack_tops m" "mcr3 ?p = mcr3 m" "task_vas ?p = task_vas m"
    using push_all [of saved_regs m "[]"] by (simp_all add: sp_def)
  show "words_at mem sp (thread_frame (regs m) (load64 (stack_mem m) (regs m RSP)))"
    using push_all [of saved_regs m "[load64 (stack_mem m) (regs m RSP)]"]
    by (simp add: sp_def mem_def thread_frame_def rev_map)
  show "\<not> in_range x sp 120 \<Longrightarrow> mem x = stack_mem m x"
    using push_all_frame [of saved_regs x m] by (simp add: sp_def mem_def)
  show "switch_thread m = m\<lparr>regs := (\<lambda>r. if r = RSP then tops (regs m RDI) + 128 else f r),
         rip := ra, stack_mem := mem, stack_tops := tops\<rparr>"
    if w: "words_at mem (tops (regs m RDI)) (thread_frame f ra)"
  proof -
    let ?q = "set_reg (?p\<lparr>stack_tops := tops\<rparr>) RSP (tops (regs m RDI))"
    let ?r = "foldl pop_reg ?q (rev saved_regs)"
    have q: "regs ?q RSP = tops (regs m RDI)" "stack_mem ?q = mem" by (simp_all add: mem_def)
    have w': "words_at mem (tops (regs m RDI)) (map f (rev saved_regs))"
      "load64 mem (tops (regs m RDI) + 120) = ra"
      using w by (simp_all add: thread_frame_def words_at_append)
    have r: "regs ?r = (\<lambda>r. if r = RSP then tops (regs m RDI) + 120 else f r)"
    proof -
      have "words_at (stack_mem ?q) (regs ?q RSP) (map f (rev saved_regs))" unfolding q by (rule w'(1))
      from pop_all_regs [OF _ _ this] show ?thesis by (simp add: fun_eq_iff)
    qed
    have rf: "stack_mem ?r = mem" "stack_tops ?r = tops" "mcr3 ?r = mcr3 m" "task_vas ?r = task_vas m"
      using pop_all_frame [of ?q "rev saved_regs"] q p by simp_all
    have "switch_thread m = ret ?r"
      by (simp add: switch_thread_def Let_def p tops_def sp_def)
    also have "\<dots> = m\<lparr>regs := (\<lambda>r. if r = RSP then tops (regs m RDI) + 128 else f r),
         rip := ra, stack_mem := mem, stack_tops := tops\<rparr>"
      using w'(2) by (intro machine.equality) (auto simp: ret_def Let_def r rf fun_eq_iff)
    finally show ?thesis .
  qed
qed

lemma thread_frame_length [simp]: "length (thread_frame f ra) = 16"
  by (simp add: thread_frame_def)

section \<open>Properties\<close>

text \<open>C27. A thread that was switched away from continues where it was: if \<open>A\<close> calls \<open>switch_thread\<close> and,
  after any run of other threads that leaves \<open>A\<close>'s block and its 128 bytes of frame alone, another
  thread switches to \<open>A\<close>, then the call returns to its return address with every register as it was
  and the stack pointer just above that address.\<close>

theorem switch_thread_resumes:
  assumes call: "m1 = switch_thread m" "regs m RSI = A"
    and first: "words_at (stack_mem (foldl push_reg m saved_regs)) (stack_tops m (regs m RDI)) (thread_frame f ra)"
      "regs m RDI \<noteq> A"
    and kept: "stack_tops m2 A = stack_tops m1 A"
      "\<forall>x. in_range x (regs m RSP - 120) 128 \<longrightarrow> stack_mem m2 x = stack_mem m1 x"
    and again: "regs m2 RDI = A" "regs m2 RSI \<noteq> A"
      "disjoint_ranges (regs m2 RSP - 120) 120 (regs m RSP - 120) 128"
  shows "rip (switch_thread m2) = load64 (stack_mem m) (regs m RSP) \<and>
    (\<forall>r. r \<noteq> RSP \<longrightarrow> regs (switch_thread m2) r = regs m r) \<and>
    regs (switch_thread m2) RSP = regs m RSP + 8"
proof -
  let ?sp = "regs m RSP - 120"
  let ?frame = "thread_frame (regs m) (load64 (stack_mem m) (regs m RSP))"
  have "words_at (stack_mem (foldl push_reg m saved_regs)) (((stack_tops m)(regs m RSI := ?sp)) (regs m RDI))
      (thread_frame f ra)"
    using first call(2) by simp
  from switch_thread_eq(3) [OF this] have m1: "stack_mem m1 = stack_mem (foldl push_reg m saved_regs)"
      "stack_tops m1 A = ?sp"
    using call by simp_all
  have "words_at (stack_mem m1) ?sp ?frame" unfolding m1 by (rule switch_thread_eq(1))
  moreover have "stack_mem (foldl push_reg m2 saved_regs) x = stack_mem m1 x" if x: "in_range x ?sp 128" for x
  proof -
    have "\<not> in_range x (regs m2 RSP - 120) 120" using again(3) x by (auto simp: disjoint_ranges_def)
    from switch_thread_eq(2) [OF this] show ?thesis using kept(2) x by simp
  qed
  then have "words_at (stack_mem (foldl push_reg m2 saved_regs)) ?sp ?frame \<longleftrightarrow> words_at (stack_mem m1) ?sp ?frame"
    by (intro words_at_cong) simp_all
  ultimately have "words_at (stack_mem (foldl push_reg m2 saved_regs))
      (((stack_tops m2)(regs m2 RSI := regs m2 RSP - 120)) (regs m2 RDI)) ?frame"
    using kept(1) again(1,2) m1(2) by simp
  from switch_thread_eq(3) [OF this] show ?thesis
    using kept(1) again(1,2) m1(2) by (simp add: algebra_simps)
qed

definition sample_machine :: "u64 \<Rightarrow> u64 \<Rightarrow> u64 \<Rightarrow> machine" where
  "sample_machine sp new cur =
     \<lparr>regs = (\<lambda>r. case r of RSP \<Rightarrow> sp | RDI \<Rightarrow> new | RSI \<Rightarrow> cur | _ \<Rightarrow> 7), rip = 0, mcr3 = 0x5000,
      stack_mem = (\<lambda>_. 0), stack_tops = (\<lambda>t. t), task_vas = (\<lambda>_. 0x6000)\<rparr>"

lemma zero_frame:
  assumes "\<And>x. in_range x p 128 \<Longrightarrow> m x = 0"
  shows "words_at m p (thread_frame (\<lambda>_. 0) 0)"
proof -
  have "words_at m p (thread_frame (\<lambda>_. 0) 0) \<longleftrightarrow> words_at (\<lambda>_. 0) p (thread_frame (\<lambda>_. 0) 0)"
    using assms by (intro words_at_cong) simp_all
  moreover have "load64 (\<lambda>_. 0) q = (0 :: u64)" for q :: u64 by (rule load_le_zero) simp_all
  ultimately show ?thesis by (simp add: thread_frame_def saved_regs_def)
qed

lemma sample_ranges: "disjoint_ranges 8072 120 (3976 :: u64) 128"
  by (subst disjoint_ranges_sym) (rule disjoint_ranges_below, simp_all)

theorem switch_thread_resumes_witness:
  "\<exists>m2. rip (switch_thread m2) = 0 \<and> regs (switch_thread m2) RSP = 0x1008"
proof -
  let ?m = "sample_machine 0x1000 0x8000 0x9000"
  let ?m1 = "switch_thread ?m"
  let ?m2 = "?m1\<lparr>regs := (\<lambda>r. case r of RSP \<Rightarrow> 0x2000 | RDI \<Rightarrow> 0x9000 | _ \<Rightarrow> 0)\<rparr>"
  have "stack_mem (foldl push_reg ?m saved_regs) x = 0" if "in_range x 0x8000 128" for x
  proof -
    have "disjoint_ranges (0x1000 - 120) 120 (0x8000 :: u64) 128" by (rule disjoint_ranges_below) simp_all
    then have "\<not> in_range x (regs ?m RSP - 120) 120"
      using that by (auto simp: disjoint_ranges_def sample_machine_def)
    from switch_thread_eq(2) [OF this] show ?thesis by (simp add: sample_machine_def)
  qed
  then have f: "words_at (stack_mem (foldl push_reg ?m saved_regs)) (stack_tops ?m (regs ?m RDI)) (thread_frame (\<lambda>_. 0) 0)"
    by (intro zero_frame) (simp add: sample_machine_def)
  have "rip (switch_thread ?m2) = load64 (stack_mem ?m) (regs ?m RSP) \<and>
    (\<forall>r. r \<noteq> RSP \<longrightarrow> regs (switch_thread ?m2) r = regs ?m r) \<and> regs (switch_thread ?m2) RSP = regs ?m RSP + 8"
    by (rule switch_thread_resumes [OF refl _ f, of "0x9000"])
      (simp_all add: sample_machine_def sample_ranges)
  moreover have "load64 (stack_mem ?m) (regs ?m RSP) = (0 :: u64)"
    by (rule load_le_zero) (simp_all add: sample_machine_def)
  ultimately show ?thesis by (intro exI [of _ ?m2]) (simp add: sample_machine_def)
qed

text \<open>The address-space switch switches nothing: for every pair of tasks and every state
  \<open>switch_task_vas\<close> leaves \<open>cr3\<close> as it is, because it writes back the value it has just read from
  there; it returns to its caller and changes no register but \<open>rax\<close>, \<open>rcx\<close> and the stack pointer.\<close>

theorem switch_task_vas_keeps_cr3:
  "mcr3 (switch_task_vas m) = mcr3 m \<and> rip (switch_task_vas m) = load64 (stack_mem m) (regs m RSP) \<and>
   regs (switch_task_vas m) RSP = regs m RSP + 8 \<and> stack_mem (switch_task_vas m) = stack_mem m \<and>
   regs (switch_task_vas m) RCX = task_vas m (regs m RDI) \<and>
   regs (switch_task_vas m) RAX = mcr3 m \<and>
   (r \<notin> {RAX, RCX, RSP} \<longrightarrow> regs (switch_task_vas m) r = regs m r)"
  by (auto simp: switch_task_vas_def ret_def Let_def)

theorem switch_task_vas_keeps_cr3_witness:
  "mcr3 (switch_task_vas (sample_machine 0x1000 0x8000 0x9000)) = 0x5000 \<and>
   regs (switch_task_vas (sample_machine 0x1000 0x8000 0x9000)) RBX = 7"
  using switch_task_vas_keeps_cr3 [of "sample_machine 0x1000 0x8000 0x9000" RBX]
  by (simp add: sample_machine_def)

end
