(* ===== verification/Scheduler.thy ===== *)
theory Scheduler
  imports Linked_List Thread_Switch
begin

text \<open>
  The scheduler, src/lobo/task/scheduler.cpp with include/kernel/task.h and scheduler.h.  Control
  blocks are typed heaps, functions of their addresses; the thread and task lists are the kernel's
  linked lists; stacks are in the byte memory.  \<open>switch_thread\<close> and \<open>switch_task_vas\<close> are the
  routines of the theory of thread switching, run on the processor state that the scheduler's state
  contains.  A call that switches threads is followed to the point where the new thread continues.
\<close>

datatype TCBState = Ready | Running | Waiting | Dead

record ThreadControlBlock =
  stack_top :: u64
  state :: TCBState
  threadName :: string
  threadID :: u64
  thread_taskID :: u64

record TaskControlBlock =
  vas :: u64
  taskID :: u64
  task_state :: TCBState
  taskName :: string

text \<open>The members of the class; \<open>idleThread\<close> and \<open>kernelTask\<close> are the addresses of the two embedded
  blocks, which the linker fixes.\<close>

record Scheduler =
  schedulingEnabled :: bool
  idleThread :: u64
  currentThread :: u64
  threads :: single_linked_list
  tasks :: single_linked_list
  kernelTask :: u64
  currentTask :: u64
  currentThreadIndex :: u64

record sched_state =
  sys :: kstate
  list_heap :: nodes
  tcbs :: "u64 \<Rightarrow> ThreadControlBlock"
  task_blocks :: "u64 \<Rightarrow> TaskControlBlock"
  sched :: Scheduler
  next_tid :: u32
  cpu :: "reg \<Rightarrow> u64"
  cpu_rip :: u64

section \<open>Calling the assembly routines\<close>

definition machine_of :: "sched_state \<Rightarrow> machine" where
  "machine_of st = \<lparr>regs = cpu st, rip = cpu_rip st, mcr3 = cr3 (sys st), stack_mem = kmem (sys st),
     stack_tops = (\<lambda>p. stack_top (tcbs st p)), task_vas = (\<lambda>p. vas (task_blocks st p))\<rparr>"

definition of_machine :: "sched_state \<Rightarrow> machine \<Rightarrow> sched_state" where
  "of_machine st m = st\<lparr>cpu := regs m, cpu_rip := rip m, sys := (sys st)\<lparr>kmem := stack_mem m, cr3 := mcr3 m\<rparr>,
     tcbs := (\<lambda>p. (tcbs st p)\<lparr>stack_top := stack_tops m p\<rparr>)\<rparr>"

text \<open>The C call: the two arguments in \<open>rdi\<close> and \<open>rsi\<close>, the return address on the stack.\<close>

definition call_routine :: "(machine \<Rightarrow> machine) \<Rightarrow> sched_state \<Rightarrow> u64 \<Rightarrow> u64 \<Rightarrow> u64 \<Rightarrow> sched_state" where
  "call_routine f st a b ret_addr =
     of_machine st (f (push_word (set_reg (set_reg (machine_of st) RDI a) RSI b) ret_addr))"

section \<open>The code\<close>

definition set_state :: "sched_state \<Rightarrow> u64 \<Rightarrow> TCBState \<Rightarrow> sched_state" where
  "set_state st p v = st\<lparr>tcbs := (tcbs st)(p := (tcbs st p)\<lparr>state := v\<rparr>)\<rparr>"

definition SwitchTask :: "u64 \<Rightarrow> sched_state \<Rightarrow> u64 \<Rightarrow> kpanic + sched_state" where
  "SwitchTask ret_addr st task =
     bind_r (assert (task \<noteq> 0)) (\<lambda>_.
     let curTask = currentTask (sched st);
         st = st\<lparr>sched := (sched st)\<lparr>currentTask := task\<rparr>\<rparr>
     in Inr (call_routine switch_task_vas st task curTask ret_addr))"

definition SwitchThread :: "u64 \<Rightarrow> sched_state \<Rightarrow> u64 \<Rightarrow> kpanic + sched_state" where
  "SwitchThread ret_addr st newThread =
     bind_r (assert (newThread \<noteq> 0)) (\<lambda>_.
     let curThread = currentThread (sched st);
         st = st\<lparr>sched := (sched st)\<lparr>currentThread := newThread\<rparr>\<rparr>
     in Inr (call_routine switch_thread st newThread curThread ret_addr))"

definition push_thread :: "sched_state \<Rightarrow> u64 \<Rightarrow> kpanic + sched_state" where
  "push_thread st p =
     bind_r (push_back (sys st, list_heap st, threads (sched st)) p) (\<lambda>(s, h, l).
     Inr (st\<lparr>sys := s, list_heap := h, sched := (sched st)\<lparr>threads := l\<rparr>\<rparr>))"

definition push_task :: "sched_state \<Rightarrow> u64 \<Rightarrow> kpanic + sched_state" where
  "push_task st p =
     bind_r (push_back (sys st, list_heap st, tasks (sched st)) p) (\<lambda>(s, h, l).
     Inr (st\<lparr>sys := s, list_heap := h, sched := (sched st)\<lparr>tasks := l\<rparr>\<rparr>))"

definition PrintThreadInfo :: "sched_state \<Rightarrow> u64 \<Rightarrow> kpanic + sched_state" where
  "PrintThreadInfo st tcb =
     bind_r (assert (tcb \<noteq> 0)) (\<lambda>_.
     let t = tcbs st tcb
     in Inr (st\<lparr>sys := log_event (sys st) (Log ''sched'' ''Thread %s: TID %d, Stack: 0x%016p''
               [StrArg (threadName t), IntArg (threadID t), IntArg (stack_top t)])\<rparr>))"

definition Scheduler_Init :: "u64 \<Rightarrow> u64 \<Rightarrow> sched_state \<Rightarrow> kpanic + sched_state" where
  "Scheduler_Init ret_task ret_thread st =
     (let kt = kernelTask (sched st); it = idleThread (sched st);
          st = st\<lparr>task_blocks := (task_blocks st)(kt := \<lparr>vas = MEM_VIRT_TO_PHYS (pdir_kernel (kernel_vmm (sys st))),
                 taskID = 0, task_state = Running, taskName = ''Lobo Kernel''\<rparr>)\<rparr> in
      bind_r (push_task st kt) (\<lambda>st.
      let st = st\<lparr>tcbs := (tcbs st)(it := (tcbs st it)\<lparr>stack_top := 0, threadName := ''k/idle'', thread_taskID := 0\<rparr>),
                  sched := (sched st)\<lparr>currentThread := it, currentTask := kt\<rparr>\<rparr> in
      bind_r (SwitchTask ret_task st kt) (\<lambda>st.
      bind_r (SwitchThread ret_thread st it) (\<lambda>st.
      push_thread st it))))"

definition TCB_SIZE :: u64 where "TCB_SIZE = 40"

definition new_stack :: "u64 \<Rightarrow> u64 \<Rightarrow> u64 list" where
  "new_stack stk function = [0, 0, 0, 0, 0, 0, 0, 0, 0, 0, stk, 0, 0, 0, 0, function]"

fun store_words :: "64 bytes \<Rightarrow> u64 \<Rightarrow> u64 list \<Rightarrow> 64 bytes" where
  "store_words m p [] = m"
| "store_words m p (v # vs) = store_words (store64 m p v) (p + 8) vs"

definition CreateThread :: "sched_state \<Rightarrow> string \<Rightarrow> u64 \<Rightarrow> kpanic + (u64 \<times> sched_state)" where
  "CreateThread st name function =
     bind_r (kmalloc (sys st) TCB_SIZE) (\<lambda>(toCreate, s).
     let s = log_event s (Log ''thread'' ''Creating thread %s => 0x%16p'' [StrArg name, IntArg function]) in
     bind_r (kmalloc s THREAD_STACK_SIZE) (\<lambda>(block, s).
     let stackAddr = block + THREAD_STACK_SIZE;
         stk = stackAddr - 0x8 * 0x10;
         tcb = \<lparr>stack_top = stk, state = Ready, threadName = name, threadID = scast (next_tid st),
                thread_taskID = taskID (task_blocks st (currentTask (sched st)))\<rparr>;
         s = s\<lparr>kmem := store_words (kmem s) stk (new_stack stk function)\<rparr> in
     bind_r (push_thread (st\<lparr>sys := s, tcbs := (tcbs st)(toCreate := tcb), next_tid := next_tid st + 1\<rparr>) toCreate) (\<lambda>st.
     Inr (toCreate, st))))"

definition EnableScheduling :: "sched_state \<Rightarrow> sched_state" where
  "EnableScheduling st = st\<lparr>sched := (sched st)\<lparr>schedulingEnabled := True\<rparr>\<rparr>"

definition DisableScheduling :: "sched_state \<Rightarrow> sched_state" where
  "DisableScheduling st = st\<lparr>sched := (sched st)\<lparr>schedulingEnabled := False\<rparr>\<rparr>"

definition thread_at :: "sched_state \<Rightarrow> u64 \<Rightarrow> kpanic + u64" where
  "thread_at st i = list_at (list_heap st) (threads (sched st)) i"

definition next_index :: "sched_state \<Rightarrow> u64" where
  "next_index st = (let i = currentThreadIndex (sched st) + 1
     in if i \<ge> list_size (threads (sched st)) then 0 else i)"

definition maxTries :: nat where "maxTries = 500"

text \<open>The loop of \<open>Schedule\<close>; \<open>tries\<close> counts the threads that were not ready.\<close>

function schedule_loop :: "u64 \<Rightarrow> sched_state \<Rightarrow> nat \<Rightarrow> kpanic + sched_state" where
  "schedule_loop ret_addr st tries =
     (let st = st\<lparr>sched := (sched st)\<lparr>currentThreadIndex := next_index st\<rparr>\<rparr> in
      bind_r (thread_at st (currentThreadIndex (sched st))) (\<lambda>new_thread.
      bind_r (guard Null_dereference (new_thread \<noteq> 0)) (\<lambda>_.
      if state (tcbs st new_thread) \<noteq> Ready
      then if tries + 1 > maxTries then Inr st else schedule_loop ret_addr st (tries + 1)
      else
        let st = set_state st (currentThread (sched st)) Ready;
            st = set_state st new_thread Running in
        bind_r (thread_at st (currentThreadIndex (sched st))) (\<lambda>t.
        SwitchThread ret_addr st t))))"
  by pat_completeness auto
termination
  by (relation "measure (\<lambda>(r, st, tries). maxTries - tries)") auto

declare schedule_loop.simps [simp del]

definition Schedule :: "u64 \<Rightarrow> sched_state \<Rightarrow> kpanic + sched_state" where
  "Schedule ret_addr st = (if \<not> schedulingEnabled (sched st) then Inr st else schedule_loop ret_addr st 0)"

definition Yield :: "u64 \<Rightarrow> sched_state \<Rightarrow> kpanic + sched_state" where
  "Yield ret_addr st = Schedule ret_addr st"

end
