(* ===== verification/Scheduling.thy ===== *)
theory Scheduling
  imports Scheduler
begin

text \<open>
  What the scheduler of src/lobo/task/scheduler.cpp guarantees: the order in which \<open>Schedule\<close> takes
  the threads, the invariant of every state reachable after \<open>Init\<close>, that no live thread starves, and how
  a new thread starts.  The steps between the scheduler's calls are arbitrary code, which changes
  registers and byte memory, and allocations from the kernel heap.
\<close>

section \<open>The list of threads\<close>

text \<open>The scheduler's list holds the addresses \<open>ts\<close> of the control blocks.\<close>

definition holds_threads :: "sched_state \<Rightarrow> u64 list \<Rightarrow> bool" where
  "holds_threads st ts \<longleftrightarrow> list_holds (sys st, list_heap st, threads (sched st)) ts"

text \<open>A position of the round: index \<open>i\<close> of the list of threads \<open>ts\<close>, none of which is null.\<close>

definition at_thread :: "sched_state \<Rightarrow> u64 list \<Rightarrow> nat \<Rightarrow> bool" where
  "at_thread st ts i \<longleftrightarrow> holds_threads st ts \<and> 0 \<notin> set ts \<and> i < length ts \<and>
     currentThreadIndex (sched st) = of_nat i"

definition set_index :: "sched_state \<Rightarrow> nat \<Rightarrow> sched_state" where
  "set_index st i = st\<lparr>sched := (sched st)\<lparr>currentThreadIndex := of_nat i\<rparr>\<rparr>"

lemma set_index_fields [simp]:
  "sys (set_index st i) = sys st" "list_heap (set_index st i) = list_heap st" "tcbs (set_index st i) = tcbs st"
  "threads (sched (set_index st i)) = threads (sched st)" "currentThreadIndex (sched (set_index st i)) = of_nat i"
  "currentThread (sched (set_index st i)) = currentThread (sched st)"
  "holds_threads (set_index st i) ts = holds_threads st ts"
  "set_index (set_index st i) j = set_index st j"
  by (simp_all add: set_index_def holds_threads_def)

lemma holds_threads_at:
  assumes "holds_threads st ts" and "i < length ts"
  shows "thread_at st (of_nat i) = Inr (ts ! i)"
  using list_read_holds [OF assms(1) [unfolded holds_threads_def] assms(2)]
  by (simp add: list_read_def thread_at_def)

lemma holds_threads_size: "holds_threads st ts \<Longrightarrow> unat (list_size (threads (sched st))) = length ts"
  using list_holds_bound by (fastforce simp: holds_threads_def list_count_def)

lemma next_index_at:
  assumes "at_thread st ts i"
  shows "next_index st = of_nat (Suc i mod length ts)"
proof -
  have i: "i < length ts" and h: "holds_threads st ts" and idx: "currentThreadIndex (sched st) = of_nat i"
    using assms by (simp_all add: at_thread_def)
  have sz: "unat (list_size (threads (sched st))) = length ts" by (rule holds_threads_size [OF h])
  then have bound: "length ts < 2 ^ 64" using unat_lt_power [of "list_size (threads (sched st))"] by simp
  have "unat (of_nat i + 1 :: u64) = Suc i"
    using i bound by (subst add.commute, subst of_nat_Suc [symmetric], simp only: unat_of_nat) simp
  then have "list_size (threads (sched st)) \<le> of_nat i + 1 \<longleftrightarrow> length ts \<le> Suc i"
    by (simp add: word_le_nat_alt sz)
  then show ?thesis using i by (cases "length ts = Suc i") (auto simp: next_index_def idx Let_def)
qed

section \<open>The search\<close>

text \<open>The switch to the thread at position \<open>j\<close>: what the critical section of \<open>Schedule\<close> does.\<close>

definition dispatch :: "u64 \<Rightarrow> sched_state \<Rightarrow> u64 list \<Rightarrow> nat \<Rightarrow> sched_state" where
  "dispatch ret_addr st ts j =
     (let st = set_state (set_state (set_index st j) (currentThread (sched st)) Ready) (ts ! j) Running
      in call_routine switch_thread (st\<lparr>sched := (sched st)\<lparr>currentThread := ts ! j\<rparr>\<rparr>) (ts ! j)
           (currentThread (sched st)) ret_addr)"

lemma set_state_fields [simp]:
  "sys (set_state st p v) = sys st" "list_heap (set_state st p v) = list_heap st"
  "sched (set_state st p v) = sched st" "thread_at (set_state st p v) i = thread_at st i"
  by (simp_all add: set_state_def thread_at_def)

lemma schedule_step:
  assumes "at_thread st ts i"
  defines "j \<equiv> Suc i mod length ts"
  shows "schedule_loop r st tries =
    (if state (tcbs st (ts ! j)) = Ready then Inr (dispatch r st ts j)
     else if maxTries \<le> tries then Inr (set_index st j)
     else schedule_loop r (set_index st j) (Suc tries))"
    and "at_thread (set_index st j) ts j"
proof -
  have j: "j < length ts" using assms(1) unfolding j_def at_thread_def by (intro mod_less_divisor) linarith
  have h: "holds_threads st ts" and nz: "0 \<notin> set ts" using assms(1) by (simp_all add: at_thread_def)
  show "at_thread (set_index st j) ts j" using j h nz by (simp add: at_thread_def)
  have "ts ! j \<noteq> 0" using nz nth_mem [OF j] by auto
  moreover have "thread_at (set_index st j) (of_nat j) = Inr (ts ! j)"
    using h j by (intro holds_threads_at) simp_all
  moreover have "st\<lparr>sched := (sched st)\<lparr>currentThreadIndex := next_index st\<rparr>\<rparr> = set_index st j"
    by (simp add: set_index_def next_index_at [OF assms(1)] j_def)
  ultimately show "schedule_loop r st tries =
    (if state (tcbs st (ts ! j)) = Ready then Inr (dispatch r st ts j)
     else if maxTries \<le> tries then Inr (set_index st j)
     else schedule_loop r (set_index st j) (Suc tries))"
    by (subst schedule_loop.simps)
      (simp add: Let_def dispatch_def SwitchThread_def not_less less_Suc_eq_le)
qed

text \<open>The reference: the first ready position after \<open>i\<close> in cyclic order, among the first \<open>k\<close>.\<close>

definition first_ready :: "sched_state \<Rightarrow> u64 list \<Rightarrow> nat \<Rightarrow> nat \<Rightarrow> nat option" where
  "first_ready st ts i k =
     find (\<lambda>j. state (tcbs st (ts ! j)) = Ready) (map (\<lambda>d. (i + d) mod length ts) [1..<Suc k])"

lemma first_ready_Suc:
  "first_ready st ts i (Suc k) =
     (if state (tcbs st (ts ! (Suc i mod length ts))) = Ready then Some (Suc i mod length ts)
      else first_ready st ts (Suc i mod length ts) k)"
proof -
  have "map (\<lambda>d. (i + d) mod length ts) [1..<Suc (Suc k)] =
      Suc i mod length ts # map (\<lambda>d. (Suc i mod length ts + d) mod length ts) [1..<Suc k]"
    by (rule nth_equalityI) (auto simp: nth_Cons' mod_add_left_eq simp del: upt_Suc)
  then show ?thesis by (simp add: first_ready_def del: upt_Suc)
qed

lemma dispatch_index [simp]: "dispatch r (set_index st i) ts j = dispatch r st ts j"
  by (simp add: dispatch_def Let_def)

lemma first_ready_index [simp]: "first_ready (set_index st i) ts = first_ready st ts"
  by (simp add: first_ready_def fun_eq_iff)

lemma schedule_loop_first:
  assumes "at_thread st ts i" and "tries + k = Suc maxTries" and "0 < k"
  shows "schedule_loop r st tries = (case first_ready st ts i k of
      Some j \<Rightarrow> Inr (dispatch r st ts j)
    | None \<Rightarrow> Inr (set_index st ((i + k) mod length ts)))"
  using assms
proof (induction k arbitrary: st i tries)
  case (Suc k)
  let ?j = "Suc i mod length ts"
  note step = schedule_step(1) [OF Suc.prems(1), of r tries] and at = schedule_step(2) [OF Suc.prems(1)]
  show ?case
  proof (cases "state (tcbs st (ts ! ?j)) = Ready")
    case False
    show ?thesis
    proof (cases "k = 0")
      case True
      then have "first_ready st ts i (Suc k) = None"
        using False by (simp add: first_ready_Suc) (simp add: first_ready_def)
      then show ?thesis using Suc.prems(2) False True by (subst step) simp
    next
      case k: False
      have "schedule_loop r (set_index st ?j) (Suc tries) = (case first_ready st ts ?j k of
          Some j \<Rightarrow> Inr (dispatch r st ts j) | None \<Rightarrow> Inr (set_index st ((?j + k) mod length ts)))"
        using Suc.IH [OF at, of "Suc tries"] Suc.prems(2) k by (simp cong: option.case_cong)
      then show ?thesis
        using Suc.prems(2) False k by (simp add: step first_ready_Suc mod_simps split: option.split)
    qed
  qed (simp add: step first_ready_Suc)
qed simp

lemma first_ready_round:
  assumes "0 < length ts" and "length ts \<le> k"
  shows "first_ready st ts i k = first_ready st ts i (length ts)"
proof -
  let ?P = "\<lambda>j. state (tcbs st (ts ! j)) = Ready" and ?f = "\<lambda>d. (i + d) mod length ts" and ?n = "length ts"
  have split: "[1..<Suc k] = [1..<Suc ?n] @ [Suc ?n..<Suc k]"
    using upt_add_eq_append [of 1 "Suc ?n" "k - ?n"] assms by (simp del: upt_Suc)
  have none: "find ?P (map ?f [Suc ?n..<Suc k]) = None" if n: "find ?P (map ?f [1..<Suc ?n]) = None"
  proof -
    have "\<not> ?P (?f d)" if "0 < d" for d
    proof -
      define e where "e = (if d mod ?n = 0 then ?n else d mod ?n)"
      have eq: "?f e = ?f d"
        unfolding e_def by simp (metis add_0_right mod_add_right_eq)
      have "e \<in> set [1..<Suc ?n]"
        unfolding e_def using assms(1) by (auto simp: less_imp_le Suc_le_eq)
      then have "?f e \<in> set (map ?f [1..<Suc ?n])" unfolding set_map by (rule imageI)
      then show ?thesis using n unfolding find_None_iff eq by blast
    qed
    then show ?thesis by (auto simp: find_None_iff simp del: upt_Suc)
  qed
  show ?thesis
    unfolding first_ready_def split map_append find_append
    using none by (simp split: option.split del: upt_Suc)
qed

section \<open>What a switch leaves\<close>

lemma call_routine_fields [simp]:
  "sched (call_routine f st a b r) = sched st" "list_heap (call_routine f st a b r) = list_heap st"
  "next_tid (call_routine f st a b r) = next_tid st" "kheap (sys (call_routine f st a b r)) = kheap (sys st)"
  "state (tcbs (call_routine f st a b r) p) = state (tcbs st p)"
  "task_blocks (call_routine f st a b r) = task_blocks st"
  by (simp_all add: call_routine_def of_machine_def)

lemma holds_threads_cong:
  "kheap (sys st) = kheap (sys st') \<Longrightarrow> list_heap st = list_heap st' \<Longrightarrow> threads (sched st) = threads (sched st') \<Longrightarrow>
     holds_threads st ts \<longleftrightarrow> holds_threads st' ts"
  by (simp add: holds_threads_def list_holds_cong [of "sys st" "sys st'"])

lemma dispatch_fields:
  "currentThread (sched (dispatch r st ts j)) = ts ! j"
  "currentThreadIndex (sched (dispatch r st ts j)) = of_nat j"
  "schedulingEnabled (sched (dispatch r st ts j)) = schedulingEnabled (sched st)"
  "holds_threads (dispatch r st ts j) ts' = holds_threads st ts'"
  "kheap (sys (dispatch r st ts j)) = kheap (sys st)"
  "state (tcbs (dispatch r st ts j) p) =
     (if p = ts ! j then Running else if p = currentThread (sched st) then Ready else state (tcbs st p))"
  by (simp_all add: dispatch_def Let_def set_state_def set_index_def cong: holds_threads_cong)


section \<open>The steps of the scheduler's life\<close>

text \<open>Code that runs between the scheduler's calls: it changes registers and the byte memory; the
  control blocks, the lists and the heap's globals are the kernel's own.\<close>

definition run_code :: "sched_state \<Rightarrow> (reg \<Rightarrow> u64) \<Rightarrow> u64 \<Rightarrow> 64 bytes \<Rightarrow> sched_state" where
  "run_code st rs pc m = st\<lparr>cpu := rs, cpu_rip := pc, sys := (sys st)\<lparr>kmem := m\<rparr>\<rparr>"

inductive sched_step :: "sched_state \<Rightarrow> sched_state \<Rightarrow> bool" where
  schedule: "Schedule r st = Inr st' \<Longrightarrow> sched_step st st'"
| yield: "Yield r st = Inr st' \<Longrightarrow> sched_step st st'"
| create: "CreateThread st name function = Inr (p, st') \<Longrightarrow> sched_step st st'"
| enable: "sched_step st (EnableScheduling st)"
| disable: "sched_step st (DisableScheduling st)"
| info: "PrintThreadInfo st p = Inr st' \<Longrightarrow> sched_step st st'"
| alloc: "kmalloc (sys st) n = Inr (p, s) \<Longrightarrow> unat n \<le> 0x8000 \<Longrightarrow> sched_step st (st\<lparr>sys := s\<rparr>)"
| run: "sched_step st (run_code st rs pc m)"
| mark: "p \<noteq> currentThread (sched st) \<Longrightarrow> v \<in> {Waiting, Dead} \<Longrightarrow> sched_step st (set_state st p v)"

text \<open>The invariant: the list holds distinct blocks below the heap's base, the current thread is one
  of them, and only the current thread may be running.\<close>

definition sched_ok :: "sched_state \<Rightarrow> u64 list \<Rightarrow> nat \<Rightarrow> bool" where
  "sched_ok st ts i \<longleftrightarrow> at_thread st ts i \<and> distinct ts \<and> heap_usable (sys st) \<and> currentThread (sched st) \<in> set ts \<and>
     (\<forall>p \<in> set ts. unat p < heap_cursor (sys st) \<and> (state (tcbs st p) = Running \<longrightarrow> p = currentThread (sched st)))"

text \<open>All threads are live: none waits or is dead, and the current index is the current thread's.\<close>

definition sched_inv :: "sched_state \<Rightarrow> u64 list \<Rightarrow> nat \<Rightarrow> bool" where
  "sched_inv st ts i \<longleftrightarrow> sched_ok st ts i \<and> currentThread (sched st) = ts ! i \<and>
     (\<forall>p \<in> set ts. state (tcbs st p) = Ready \<or> state (tcbs st p) = Running \<and> p = ts ! i)"

text \<open>A thread that waits or is dead and does not have the processor.\<close>

definition parked :: "sched_state \<Rightarrow> u64 \<Rightarrow> bool" where
  "parked st p \<longleftrightarrow> p \<noteq> currentThread (sched st) \<and> state (tcbs st p) \<in> {Waiting, Dead}"

definition same_sched :: "sched_state \<Rightarrow> sched_state \<Rightarrow> bool" where
  "same_sched st st' \<longleftrightarrow> kheap (sys st') = kheap (sys st) \<and> list_heap st' = list_heap st \<and>
     threads (sched st') = threads (sched st) \<and> currentThread (sched st') = currentThread (sched st) \<and>
     currentThreadIndex (sched st') = currentThreadIndex (sched st) \<and> (\<forall>p. state (tcbs st' p) = state (tcbs st p))"

lemma same_sched_frame:
  assumes "same_sched st st'"
  shows "sched_ok st' ts i = sched_ok st ts i" "sched_inv st' ts i = sched_inv st ts i" "parked st' p = parked st p"
  using assms holds_threads_cong [of st' st]
  by (simp_all add: same_sched_def sched_ok_def sched_inv_def parked_def at_thread_def heap_usable_def)

lemma same_sched_steps:
  "same_sched st (EnableScheduling st)" "same_sched st (DisableScheduling st)" "same_sched st (run_code st rs pc m)"
  "PrintThreadInfo st p = Inr st' \<Longrightarrow> same_sched st st'"
  by (auto simp: same_sched_def EnableScheduling_def DisableScheduling_def run_code_def PrintThreadInfo_def
      bind_r_eq_Inr Let_def log_event_def)

lemma Schedule_cases:
  assumes "at_thread st ts i" and "Schedule r st = Inr st'"
  obtains "st' = st"
    | j where "j < length ts" "state (tcbs st (ts ! j)) = Ready" "st' = dispatch r st ts j"
    | j where "j < length ts" "st' = set_index st j"
proof (cases "schedulingEnabled (sched st)")
  case True
  have ts: "0 < length ts" using assms(1) by (auto simp: at_thread_def)
  have S: "(Inr st' :: kpanic + sched_state) = (case first_ready st ts i (Suc maxTries) of
      Some j \<Rightarrow> Inr (dispatch r st ts j) | None \<Rightarrow> Inr (set_index st ((i + Suc maxTries) mod length ts)))"
    using schedule_loop_first [OF assms(1), of 0] assms(2) [symmetric] True by (simp add: Schedule_def)
  show thesis
  proof (cases "first_ready st ts i (Suc maxTries)")
    case None
    then show thesis using S that(3) [of "(i + Suc maxTries) mod length ts"] ts by simp
  next
    case (Some j)
    then have "j < length ts \<and> state (tcbs st (ts ! j)) = Ready"
      using ts by (auto simp: first_ready_def find_Some_iff simp del: upt_Suc)
    then show thesis using S Some that(2) [of j] by simp
  qed
next
  case False
  then have "st' = st" using assms(2) by (simp add: Schedule_def)
  then show thesis by (rule that(1))
qed

lemma sched_ok_dispatch:
  assumes "sched_ok st ts i" and "j < length ts"
  shows "sched_ok (dispatch r st ts j) ts j"
  using assms nth_mem [OF assms(2)]
  by (auto simp: sched_ok_def at_thread_def dispatch_fields heap_usable_def)

lemma sched_ok_schedule:
  assumes "sched_ok st ts i" and run: "Schedule r st = Inr st'"
  shows "\<exists>j. sched_ok st' ts j"
proof -
  have "at_thread st ts i" using assms(1) by (simp add: sched_ok_def)
  from this run show ?thesis
  proof (cases rule: Schedule_cases)
    case (3 j)
    then have "sched_ok st' ts j" using assms(1) by (simp add: sched_ok_def at_thread_def)
    then show ?thesis ..
  qed (use assms(1) sched_ok_dispatch in blast)+
qed

lemma parked_schedule:
  assumes "sched_ok st ts i" and "Schedule r st = Inr st'" and "parked st p"
  shows "parked st' p"
proof -
  have "at_thread st ts i" using assms(1) by (simp add: sched_ok_def)
  from this assms(2) show ?thesis
    by (cases rule: Schedule_cases) (use assms(3) in \<open>auto simp: parked_def dispatch_fields\<close>)
qed

lemma sched_inv_next:
  assumes "sched_inv st ts i" and "schedulingEnabled (sched st)"
  shows "Schedule r st = Inr (dispatch r st ts (Suc i mod length ts)) \<or>
    length ts = 1 \<and> Schedule r st = Inr st"
    and "Schedule r st = Inr st' \<Longrightarrow> sched_inv st' ts (Suc i mod length ts)"
proof -
  let ?j = "Suc i mod length ts"
  have at: "at_thread st ts i" and cur: "currentThread (sched st) = ts ! i" and d: "distinct ts"
    and st: "\<And>p. p \<in> set ts \<Longrightarrow> state (tcbs st p) = Ready \<or> state (tcbs st p) = Running \<and> p = ts ! i"
    using assms(1) by (simp_all add: sched_inv_def sched_ok_def)
  have i: "i < length ts" and idx: "currentThreadIndex (sched st) = of_nat i"
    using at by (simp_all add: at_thread_def)
  have j: "?j < length ts" using i by (intro mod_less_divisor) linarith
  have S: "Schedule r st = (case first_ready st ts i (Suc maxTries) of
      Some j \<Rightarrow> Inr (dispatch r st ts j) | None \<Rightarrow> Inr (set_index st ((i + Suc maxTries) mod length ts)))"
    using schedule_loop_first [OF at, of 0] assms(2) by (simp add: Schedule_def)
  show *: "Schedule r st = Inr (dispatch r st ts ?j) \<or> length ts = 1 \<and> Schedule r st = Inr st"
  proof (cases "state (tcbs st (ts ! ?j)) = Ready")
    case True
    then show ?thesis by (simp add: S first_ready_Suc)
  next
    case False
    then have "ts ! ?j = ts ! i" using st [OF nth_mem [OF j]] by auto
    then have "?j = i" using d i j by (simp add: nth_eq_iff_index_eq)
    then have n: "length ts = 1" using i by (cases "Suc i = length ts") auto
    then have "first_ready st ts i (Suc maxTries) = first_ready st ts i (Suc 0)"
      using first_ready_round [of ts "Suc maxTries"] by simp
    then have "first_ready st ts i (Suc maxTries) = None"
      using False by (simp only: first_ready_Suc) (simp add: first_ready_def)
    moreover have "set_index st ((i + Suc maxTries) mod length ts) = st"
      using n i idx by (simp add: set_index_def)
    ultimately show ?thesis using n by (simp add: S)
  qed
  show "sched_inv st' ts ?j" if run: "Schedule r st = Inr st'"
    using *
  proof (elim disjE conjE)
    assume "Schedule r st = Inr (dispatch r st ts ?j)"
    then have st': "st' = dispatch r st ts ?j" using run by simp
    show ?thesis using assms(1) sched_ok_dispatch [OF _ j] unfolding sched_inv_def st' dispatch_fields
      by (auto simp: cur)
  qed (use assms(1) run i in auto)
qed


section \<open>Creating a thread\<close>

lemma push_thread_holds:
  assumes run: "push_thread st p = Inr st'" and "holds_threads st ts" and "heap_usable (sys st)"
  shows "holds_threads st' (ts @ [p])" "heap_usable (sys st')" "heap_cursor (sys st) \<le> heap_cursor (sys st')"
    "tcbs st' = tcbs st" "next_tid st' = next_tid st" "cpu st' = cpu st"
    "\<exists>l. sched st' = (sched st)\<lparr>threads := l\<rparr>"
proof -
  from run obtain s h l where p: "push_back (sys st, list_heap st, threads (sched st)) p = Inr (s, h, l)"
    and st': "st' = st\<lparr>sys := s, list_heap := h, sched := (sched st)\<lparr>threads := l\<rparr>\<rparr>"
    by (auto simp: push_thread_def bind_r_eq_Inr)
  have "Suc (length ts) < 2 ^ 64"
    using list_holds_room [OF assms(2) [unfolded holds_threads_def]] by simp
  from push_back_holds [OF assms(2) [unfolded holds_threads_def] p this]
  show "holds_threads st' (ts @ [p])" by (simp add: st' holds_threads_def)
  show "heap_usable (sys st')" "heap_cursor (sys st) \<le> heap_cursor (sys st')"
    using push_back_heap [OF p assms(3)] by (simp_all add: st')
  show "tcbs st' = tcbs st" "next_tid st' = next_tid st" "cpu st' = cpu st" by (simp_all add: st')
  show "\<exists>l. sched st' = (sched st)\<lparr>threads := l\<rparr>" by (auto simp: st')
qed


definition creates :: "sched_state \<Rightarrow> u64 list \<Rightarrow> u64 \<Rightarrow> sched_state \<Rightarrow> bool" where
  "creates st ts p st' \<longleftrightarrow> holds_threads st' (ts @ [p]) \<and> p \<noteq> 0 \<and> heap_cursor (sys st) \<le> unat p \<and>
     heap_usable (sys st') \<and> unat p < heap_cursor (sys st') \<and> heap_cursor (sys st) \<le> heap_cursor (sys st') \<and>
     state (tcbs st' p) = Ready \<and> (\<forall>q. q \<noteq> p \<longrightarrow> tcbs st' q = tcbs st q) \<and>
     (\<exists>l. sched st' = (sched st)\<lparr>threads := l\<rparr>)"

text \<open>The state in which \<open>CreateThread\<close> has filled in the block at \<open>p\<close> and the stack above \<open>block\<close>.\<close>

definition with_thread :: "sched_state \<Rightarrow> string \<Rightarrow> u64 \<Rightarrow> u64 \<Rightarrow> u64 \<Rightarrow> kstate \<Rightarrow> sched_state" where
  "with_thread st name function p block s =
     (let stk = block + THREAD_STACK_SIZE - 128
      in st\<lparr>sys := s\<lparr>kmem := store_words (kmem s) stk (new_stack stk function)\<rparr>,
           tcbs := (tcbs st)(p := \<lparr>stack_top = stk, state = Ready, threadName = name,
             threadID = scast (next_tid st), thread_taskID = taskID (task_blocks st (currentTask (sched st)))\<rparr>),
           next_tid := next_tid st + 1\<rparr>)"

lemma CreateThread_cases:
  "CreateThread st name function = Inr (p, st') \<longleftrightarrow> (\<exists>s block s2. kmalloc (sys st) TCB_SIZE = Inr (p, s) \<and>
     kmalloc (log_event s (Log ''thread'' ''Creating thread %s => 0x%16p'' [StrArg name, IntArg function]))
       THREAD_STACK_SIZE = Inr (block, s2) \<and>
     push_thread (with_thread st name function p block s2) p = Inr st')"
  by (auto simp: CreateThread_def Let_def bind_r_eq_Inr with_thread_def)

lemma with_thread_fields [simp]:
  "list_heap (with_thread st name f p b s) = list_heap st" "sched (with_thread st name f p b s) = sched st"
  "kheap (sys (with_thread st name f p b s)) = kheap s" "cpu (with_thread st name f p b s) = cpu st"
  "q \<noteq> p \<Longrightarrow> tcbs (with_thread st name f p b s) q = tcbs st q"
  "state (tcbs (with_thread st name f p b s) p) = Ready"
  "threadID (tcbs (with_thread st name f p b s) p) = scast (next_tid st)"
  "stack_top (tcbs (with_thread st name f p b s) p) = b + THREAD_STACK_SIZE - 128"
  by (simp_all add: with_thread_def Let_def)

text \<open>The two allocations of \<open>CreateThread\<close> leave a usable heap, and the block is new.\<close>

lemma CreateThread_heap:
  assumes "heap_usable (sys st)" and "kmalloc (sys st) TCB_SIZE = Inr (p, s)"
    and "kmalloc (log_event s c) THREAD_STACK_SIZE = Inr (block, s2)"
  shows "heap_usable s2" "heap_cursor (sys st) \<le> unat p" "unat p + 40 \<le> unat block" "p \<noteq> 0"
    "heap_cursor s2 = unat block + 0x4000"
proof -
  note k1 = kmalloc_usable [OF assms(1,2), unfolded TCB_SIZE_def, simplified]
  have e: "kheap (log_event s c) = kheap s" by (simp add: log_event_def)
  then have "heap_usable (log_event s c)" using k1(1) by (simp add: heap_usable_def)
  note k2 = kmalloc_usable [OF this assms(3), unfolded THREAD_STACK_SIZE_def PAGE_SIZE_def e, simplified]
  show "heap_usable s2" "heap_cursor (sys st) \<le> unat p" "unat p + 40 \<le> unat block" "p \<noteq> 0"
    "heap_cursor s2 = unat block + 0x4000"
    using k1 k2 by simp_all
qed

lemma CreateThread_creates:
  assumes run: "CreateThread st name function = Inr (p, st')" and h: "holds_threads st ts"
    and u: "heap_usable (sys st)"
  shows "creates st ts p st'"
proof -
  obtain s block s2 where k: "kmalloc (sys st) TCB_SIZE = Inr (p, s)"
    "kmalloc (log_event s (Log ''thread'' ''Creating thread %s => 0x%16p'' [StrArg name, IntArg function]))
       THREAD_STACK_SIZE = Inr (block, s2)"
    and push: "push_thread (with_thread st name function p block s2) p = Inr st'" (is "push_thread ?st p = _")
    using run by (auto simp: CreateThread_cases)
  note k = CreateThread_heap [OF u k]
  have grow: "heap_usable (sys ?st)" "heap_cursor (sys st) \<le> heap_cursor (sys ?st)"
    using k by (simp_all add: heap_usable_def)
  have "holds_threads ?st ts"
    using list_holds_grow [OF h [unfolded holds_threads_def] grow] by (simp add: holds_threads_def)
  from push_thread_holds [OF push this grow(1)] show ?thesis
    using k by (simp add: creates_def)
qed

lemma sched_ok_creates:
  assumes "sched_ok st ts i" and "creates st ts p st'"
  shows "sched_ok st' (ts @ [p]) i"
proof -
  have new: "p \<notin> set ts" using assms by (auto simp: sched_ok_def creates_def)
  moreover have "tcbs st' q = tcbs st q" if "q \<in> set ts" for q
    using assms(2) that new by (auto simp: creates_def)
  ultimately show ?thesis
    using assms unfolding sched_ok_def creates_def at_thread_def
    by (auto intro: less_le_trans)
qed

lemma sched_ok_alloc:
  assumes "sched_ok st ts i" and "kmalloc (sys st) n = Inr (p, s)" and "unat n \<le> 0x8000"
  shows "sched_ok (st\<lparr>sys := s\<rparr>) ts i"
proof -
  have "heap_usable (sys st)" using assms(1) by (simp add: sched_ok_def)
  note k = kmalloc_usable [OF this assms(2,3)]
  then have le: "heap_cursor (sys st) \<le> heap_cursor s" by simp
  have "holds_threads (st\<lparr>sys := s\<rparr>) ts"
    using assms(1) list_holds_grow [OF _ k(1) le] by (auto simp: sched_ok_def at_thread_def holds_threads_def)
  with assms(1) k(1) le show ?thesis
    by (auto simp: sched_ok_def at_thread_def intro: less_le_trans)
qed

lemma sched_ok_mark:
  assumes "sched_ok st ts i" and "p \<noteq> currentThread (sched st)" and "v \<in> {Waiting, Dead}"
  shows "sched_ok (set_state st p v) ts i"
  using assms by (auto simp: sched_ok_def at_thread_def holds_threads_def set_state_def)

lemma sched_ok_step:
  assumes "sched_step st st'" and "sched_ok st ts i"
  shows "\<exists>ts' j. sched_ok st' (ts @ ts') j \<and> (\<forall>p \<in> set ts. parked st p \<longrightarrow> parked st' p)"
proof -
  have same: ?thesis if "sched_ok st' ts j" "\<forall>p \<in> set ts. parked st p \<longrightarrow> parked st' p" for j
    using that by (intro exI [of _ "[]"] exI [of _ j]) simp
  have schedule: ?thesis if "Schedule r st = Inr st'" for r
    using sched_ok_schedule [OF assms(2) that] parked_schedule [OF assms(2) that] same by blast
  have frame: ?thesis if "same_sched st st'"
    by (rule same [of i]) (use assms(2) same_sched_frame [OF that] in simp_all)
  from assms(1) show ?thesis
  proof (cases rule: sched_step.cases)
    case (create name f p)
    have c: "creates st ts p st'"
      by (rule CreateThread_creates [OF create]) (use assms(2) in \<open>simp_all add: sched_ok_def at_thread_def\<close>)
    have "p \<notin> set ts" using assms(2) c by (auto simp: sched_ok_def creates_def)
    then have "\<forall>q \<in> set ts. parked st q \<longrightarrow> parked st' q" using c by (auto simp: creates_def parked_def)
    with sched_ok_creates [OF assms(2) c] show ?thesis by blast
  next
    case (yield r)
    then show ?thesis by (intro schedule [of r]) (simp add: Yield_def)
  next
    case (alloc n p s)
    then show ?thesis using same [of i] sched_ok_alloc [OF assms(2)] by (simp add: parked_def)
  next
    case (mark p v)
    have "\<forall>q. parked st q \<longrightarrow> parked (set_state st p v) q" using mark by (auto simp: parked_def set_state_def)
    then show ?thesis using same [of i] sched_ok_mark [OF assms(2)] mark by simp
  qed (use schedule frame same_sched_steps in blast)+
qed

section \<open>From the start\<close>

text \<open>The static objects before \<open>Init\<close>: empty lists, index 0, a zeroed idle thread, a usable heap that
  lies above the kernel's image.\<close>

definition sched_start :: "sched_state \<Rightarrow> bool" where
  "sched_start st \<longleftrightarrow> threads (sched st) = empty_list \<and> tasks (sched st) = empty_list \<and>
     currentThreadIndex (sched st) = 0 \<and> idleThread (sched st) \<noteq> 0 \<and>
     state (tcbs st (idleThread (sched st))) = Ready \<and> heap_usable (sys st) \<and>
     unat (idleThread (sched st)) < heap_cursor (sys st)"

lemma Scheduler_Init_inv:
  assumes "sched_start st" and "Scheduler_Init r1 r2 st = Inr st'"
  shows "sched_inv st' [idleThread (sched st)] 0"
proof -
  let ?it = "idleThread (sched st)"
  have s: "threads (sched st) = empty_list" "currentThreadIndex (sched st) = 0" "?it \<noteq> 0"
    "state (tcbs st ?it) = Ready" "heap_usable (sys st)" "unat ?it < heap_cursor (sys st)"
    using assms(1) by (simp_all add: sched_start_def)
  from assms(2) obtain st1 st2 st3 where p: "push_task (st\<lparr>task_blocks := (task_blocks st)(kernelTask (sched st) :=
      \<lparr>vas = MEM_VIRT_TO_PHYS (pdir_kernel (kernel_vmm (sys st))), taskID = 0, task_state = Running,
       taskName = ''Lobo Kernel''\<rparr>)\<rparr>) (kernelTask (sched st)) = Inr st1"
    and t: "SwitchTask r1 (st1\<lparr>tcbs := (tcbs st1)(?it := (tcbs st1 ?it)\<lparr>stack_top := 0, threadName := ''k/idle'', thread_taskID := 0\<rparr>),
       sched := (sched st1)\<lparr>currentThread := ?it, currentTask := kernelTask (sched st)\<rparr>\<rparr>) (kernelTask (sched st)) = Inr st2"
    and w: "SwitchThread r2 st2 ?it = Inr st3" and q: "push_thread st3 ?it = Inr st'"
    unfolding Scheduler_Init_def Let_def bind_r_eq_Inr by (elim exE conjE)
  from p obtain s1 h l where pb: "push_back (sys st, list_heap st, tasks (sched st)) (kernelTask (sched st)) = Inr (s1, h, l)"
    and st1: "sys st1 = s1" "tcbs st1 = tcbs st" "sched st1 = (sched st)\<lparr>tasks := l\<rparr>"
    by (auto simp: push_task_def bind_r_eq_Inr)
  note heap = push_back_heap [OF pb s(5)]
  have st3: "kheap (sys st3) = kheap s1" "threads (sched st3) = empty_list" "currentThreadIndex (sched st3) = 0"
    "state (tcbs st3 ?it) = Ready" "currentThread (sched st3) = ?it"
    using t w s st1 by (auto simp: SwitchTask_def SwitchThread_def Let_def bind_r_eq_Inr)
  have u: "heap_usable (sys st3)" using heap(1) by (simp add: heap_usable_def st3)
  then have "holds_threads st3 []" by (simp add: holds_threads_def st3 list_holds_empty)
  note new = push_thread_holds [OF q this u]
  then show ?thesis
    using s heap st3 by (auto simp: sched_inv_def sched_ok_def at_thread_def intro: less_le_trans)
qed

section \<open>The first switch to a new thread\<close>

lemma store_words_other:
  assumes "1 \<le> k" and "8 * (k + length vs) \<le> 2 ^ 64 - 8"
  shows "load64 (store_words m (p + of_nat (8 * k)) vs) p = load64 m p"
  using assms
proof (induction vs arbitrary: m k)
  case (Cons v vs)
  define a where "a = p + of_nat (8 * k)"
  have a8: "a + 8 = p + of_nat (8 * Suc k)" by (simp add: a_def)
  have "disjoint_ranges a 8 p 8"
    unfolding a_def using Cons.prems by (subst disjoint_ranges_sym) (intro words_apart; simp)
  then have "load64 (store64 m a v) p = load64 m p" by (rule load_store_disjoint) simp
  moreover have "load64 (store_words (store64 m a v) (p + of_nat (8 * Suc k)) vs) p = load64 (store64 m a v) p"
    by (rule Cons.IH) (use Cons.prems in simp_all)
  ultimately show ?case by (simp only: store_words.simps a8 flip: a_def)
qed simp

lemma words_at_store_words:
  "8 * length vs \<le> 2 ^ 64 - 8 \<Longrightarrow> words_at (store_words m p vs) p vs"
proof (induction vs arbitrary: m p)
  case (Cons v vs)
  then show ?case using store_words_other [of 1 vs "store64 m p v" p] by simp
qed simp

definition start_regs :: "u64 \<Rightarrow> reg \<Rightarrow> u64" where
  "start_regs stk r = (if r = RBP then stk else 0)"

lemma new_stack_frame: "new_stack stk function = thread_frame (start_regs stk) function"
  by (simp add: new_stack_def thread_frame_def saved_regs_def start_regs_def)

lemma SwitchThread_resumes:
  assumes "p \<noteq> 0" and "currentThread (sched st) \<noteq> p"
    and w: "words_at (kmem (sys st)) (stack_top (tcbs st p)) (thread_frame f ra)"
    and apart: "disjoint_ranges (cpu st RSP - 128) 128 (stack_top (tcbs st p)) 128"
  shows "\<exists>st'. SwitchThread r st p = Inr st' \<and> cpu_rip st' = ra \<and> cpu st' RSP = stack_top (tcbs st p) + 128 \<and>
    (\<forall>q. q \<noteq> RSP \<longrightarrow> cpu st' q = f q) \<and> currentThread (sched st') = p"
proof -
  let ?cur = "currentThread (sched st)" and ?stk = "stack_top (tcbs st p)"
  let ?st = "st\<lparr>sched := (sched st)\<lparr>currentThread := p\<rparr>\<rparr>"
  define m where "m = push_word (set_reg (set_reg (machine_of ?st) RDI p) RSI ?cur) r"
  have m: "regs m RDI = p" "regs m RSI = ?cur" "regs m RSP = cpu st RSP - 8" "stack_tops m p = ?stk"
    "stack_mem m = store64 (kmem (sys st)) (cpu st RSP - 8) r"
    by (simp_all add: m_def push_word_def machine_of_def Let_def)
  have same: "stack_mem (foldl push_reg m saved_regs) x = kmem (sys st) x" if x: "in_range x ?stk 128" for x
  proof -
    have out: "\<not> in_range x (cpu st RSP - 128) 128" using apart x by (auto simp: disjoint_ranges_def)
    then have "\<not> in_range x (cpu st RSP - 128 + of_nat 120) 8"
      using in_range_inside [of x "cpu st RSP - 128" 120 8 128] by auto
    then have "\<not> in_range x (cpu st RSP - 8) 8" by simp
    moreover have "\<not> in_range x (regs m RSP - 120) 120"
      using out in_range_mono [of x _ 120 128] by (auto simp: m algebra_simps)
    ultimately show ?thesis
      using switch_thread_eq(2) [of x m] by (simp add: m store_le_def)
  qed
  have "words_at (stack_mem (foldl push_reg m saved_regs)) ?stk (thread_frame f ra)"
    using w same by (subst words_at_cong [where m' = "kmem (sys st)"]) simp_all
  then have "words_at (stack_mem (foldl push_reg m saved_regs))
      (((stack_tops m)(regs m RSI := regs m RSP - 120)) (regs m RDI)) (thread_frame f ra)"
    using assms(2) m by simp
  note sw = switch_thread_eq(3) [OF this]
  have "SwitchThread r st p = Inr (of_machine ?st (switch_thread m))"
    using assms(1) by (simp add: SwitchThread_def call_routine_def Let_def m_def)
  then show ?thesis using assms(2) m by (auto simp: of_machine_def sw)
qed


lemma push_thread_mem:
  assumes "push_thread st p = Inr st'"
    and "\<not> (currentMode (kheap (sys st)) = Full \<and> in_bitset (bitmap (kernel_pmm (sys st))) x)"
  shows "kmem (sys st') x = kmem (sys st) x"
proof -
  from assms(1) obtain b s h l where "push_back (sys st, list_heap st, threads (sched st)) p = Inr (s, h, l)"
    and st': "sys st' = s"
    by (auto simp: push_thread_def bind_r_eq_Inr)
  then obtain b where "kmalloc (sys st) NODE_SIZE = Inr (b, s)"
    by (auto simp: push_back_def create_head_def bind_r_eq_Inr Let_def split: if_splits)
  from kmalloc_frame [OF this [unfolded kmalloc_def]] assms(2) show ?thesis by (simp add: st')
qed

lemma CreateThread_frame:
  assumes run: "CreateThread st name function = Inr (p, st1)" and h: "holds_threads st ts"
    and u: "heap_usable (sys st)"
    and apart: "\<forall>x. in_range x (stack_top (tcbs st1 p)) 128 \<longrightarrow> \<not> in_bitset (bitmap (kernel_pmm (sys st))) x"
  shows "words_at (kmem (sys st1)) (stack_top (tcbs st1 p))
    (thread_frame (start_regs (stack_top (tcbs st1 p))) function)" (is "words_at _ ?stk _")
    and "threadID (tcbs st1 p) = scast (next_tid st)"
proof -
  obtain s block s2 where k: "kmalloc (sys st) TCB_SIZE = Inr (p, s)"
    "kmalloc (log_event s (Log ''thread'' ''Creating thread %s => 0x%16p'' [StrArg name, IntArg function]))
       THREAD_STACK_SIZE = Inr (block, s2)"
    and push: "push_thread (with_thread st name function p block s2) p = Inr st1" (is "push_thread ?st p = _")
    using run by (auto simp: CreateThread_cases)
  have tcbs: "tcbs st1 = tcbs ?st" using push by (auto simp: push_thread_def bind_r_eq_Inr)
  then show "threadID (tcbs st1 p) = scast (next_tid st)" by simp
  have stk: "?stk = block + THREAD_STACK_SIZE - 128" by (simp add: tcbs)
  have mem: "kmem (sys ?st) = store_words (kmem s2) ?stk (new_stack ?stk function)"
    by (simp add: with_thread_def Let_def stk)
  have "kernel_pmm (sys ?st) = kernel_pmm (sys st)"
    using kmalloc_frame [OF k(1) [unfolded kmalloc_def]] kmalloc_frame [OF k(2) [unfolded kmalloc_def]]
    by (simp add: with_thread_def Let_def log_event_def)
  then have same: "kmem (sys st1) x = kmem (sys ?st) x" if "in_range x ?stk 128" for x
    using push_thread_mem [OF push] apart that by simp
  show "words_at (kmem (sys st1)) ?stk (thread_frame (start_regs ?stk) function)"
    by (subst words_at_cong [where m' = "kmem (sys ?st)"])
      (use same words_at_store_words [of "thread_frame (start_regs ?stk) function" "kmem s2" ?stk]
        in \<open>simp_all add: mem new_stack_frame\<close>)
qed

text \<open>The name and the first frame of a thread, at a place that later allocations leave alone.\<close>

definition bitmap_below :: "sched_state \<Rightarrow> bool" where
  "bitmap_below st \<longleftrightarrow> (\<forall>x. in_bitset (bitmap (kernel_pmm (sys st))) x \<longrightarrow> unat x < heap_cursor (sys st))"

definition created_on :: "sched_state \<Rightarrow> u64 \<Rightarrow> string \<Rightarrow> u64 \<Rightarrow> bool" where
  "created_on st p name function \<longleftrightarrow> threadName (tcbs st p) = name \<and>
     words_at (kmem (sys st)) (stack_top (tcbs st p)) (new_stack (stack_top (tcbs st p)) function)"

definition frame_apart :: "sched_state \<Rightarrow> u64 \<Rightarrow> bool" where
  "frame_apart st p \<longleftrightarrow> (\<forall>x. in_range x (stack_top (tcbs st p)) 128 \<longrightarrow>
     unat x < heap_cursor (sys st) \<and> \<not> in_bitset (bitmap (kernel_pmm (sys st))) x)"

lemma store_words_outside:
  "\<not> in_range x p (8 * length vs) \<Longrightarrow> 8 * length vs < 2 ^ 64 \<Longrightarrow> store_words m p vs x = m x"
proof (induction vs arbitrary: m p)
  case (Cons v vs)
  have "\<not> in_range x (p + of_nat 8) (8 * length vs)"
    using Cons.prems in_range_inside [of x p 8 "8 * length vs" "8 * length (v # vs)"] by auto
  then have "store_words (store64 m p v) (p + 8) vs x = store64 m p v x"
    using Cons.prems(2) by (intro Cons.IH) simp_all
  moreover have "\<not> in_range x p 8" using Cons.prems(1) by (auto simp: in_range_def)
  ultimately show ?case by (simp add: store_le_def)
qed simp

lemma CreateThread_memory:
  assumes run: "CreateThread st name function = Inr (p, st')" and h: "holds_threads st ts" and u: "heap_usable (sys st)"
  shows "kernel_pmm (sys st') = kernel_pmm (sys st)" "threadName (tcbs st' p) = name"
    "heap_cursor (sys st) \<le> heap_cursor (sys st')"
    "in_range x (stack_top (tcbs st' p)) 128 \<Longrightarrow> heap_cursor (sys st) \<le> unat x \<and> unat x < heap_cursor (sys st')"
    "unat x < heap_cursor (sys st) \<Longrightarrow> \<not> in_bitset (bitmap (kernel_pmm (sys st))) x \<Longrightarrow> kmem (sys st') x = kmem (sys st) x"
proof -
  obtain s block s2 where k: "kmalloc (sys st) TCB_SIZE = Inr (p, s)"
    "kmalloc (log_event s (Log ''thread'' ''Creating thread %s => 0x%16p'' [StrArg name, IntArg function]))
       THREAD_STACK_SIZE = Inr (block, s2)"
    and push: "push_thread (with_thread st name function p block s2) p = Inr st'" (is "push_thread ?st p = _")
    using run by (auto simp: CreateThread_cases)
  note b = CreateThread_heap [OF u k]
  note f1 = kmalloc_frame [OF k(1) [unfolded kmalloc_def]] and f2 = kmalloc_frame [OF k(2) [unfolded kmalloc_def]]
  have u': "heap_usable (sys ?st)" using b(1) by (simp add: heap_usable_def)
  have grow0: "heap_usable (sys ?st)" "heap_cursor (sys st) \<le> heap_cursor (sys ?st)" using b by (simp_all add: heap_usable_def)
  have "holds_threads ?st ts"
    using list_holds_grow [OF h [unfolded holds_threads_def] grow0] by (simp add: holds_threads_def)
  note ph = push_thread_holds [OF push this u']
  have pmm: "kernel_pmm (sys ?st) = kernel_pmm (sys st)" using f1 f2 by (simp add: with_thread_def Let_def log_event_def)
  show "kernel_pmm (sys st') = kernel_pmm (sys st)"
  proof -
    from push obtain c where "kmalloc (sys ?st) NODE_SIZE = Inr (c, sys st')"
      by (auto simp: push_thread_def push_back_def create_head_def bind_r_eq_Inr Let_def split: if_splits)
    from kmalloc_frame [OF this [unfolded kmalloc_def]] show ?thesis by (simp add: pmm)
  qed
  show "threadName (tcbs st' p) = name" by (simp add: ph(4)) (simp add: with_thread_def Let_def)
  show "heap_cursor (sys st) \<le> heap_cursor (sys st')" using ph(3) b by simp
  have stk: "stack_top (tcbs st' p) = block + THREAD_STACK_SIZE - 128" by (simp add: ph(4))
  have top: "unat block + 0x4000 < 2 ^ 64" using b(1,5) by (simp add: heap_usable_def)
  have "unat (block + THREAD_STACK_SIZE - 128) = unat block + 0x3F80"
  proof -
    have "block + THREAD_STACK_SIZE - 128 = block + 0x3F80" by (simp add: THREAD_STACK_SIZE_def PAGE_SIZE_def)
    then show ?thesis using top by (simp only:) (simp add: unat_add_lt)
  qed
  note stk' = this
  have range: "in_range x (block + THREAD_STACK_SIZE - 128) 128 \<longleftrightarrow> unat block + 0x3F80 \<le> unat x \<and> unat x < unat block + 0x4000" for x
    using in_range_unat [of "block + THREAD_STACK_SIZE - 128" 128 x] stk' top by auto
  show "heap_cursor (sys st) \<le> unat x \<and> unat x < heap_cursor (sys st')" if "in_range x (stack_top (tcbs st' p)) 128"
    using that ph(3) b unfolding stk range by simp
  show "kmem (sys st') x = kmem (sys st) x" if x: "unat x < heap_cursor (sys st)" "\<not> in_bitset (bitmap (kernel_pmm (sys st))) x"
  proof -
    have "\<not> in_range x (block + THREAD_STACK_SIZE - 128) 128" using x(1) b unfolding range by simp
    then have "kmem (sys ?st) x = kmem s2 x"
      using store_words_outside [of x "block + THREAD_STACK_SIZE - 128" "new_stack (block + THREAD_STACK_SIZE - 128) function" "kmem s2"]
      by (simp add: with_thread_def Let_def new_stack_frame thread_frame_def saved_regs_def)
    moreover have "kmem (sys st') x = kmem (sys ?st) x" using push_thread_mem [OF push, of x] x(2) pmm by simp
    moreover have "kmem s2 x = kmem (sys st) x" using f1 f2 x(2) by (simp add: log_event_def)
    ultimately show ?thesis by simp
  qed
qed

lemma CreateThread_created:
  assumes run: "CreateThread st name function = Inr (p, st')" and h: "holds_threads st ts" and u: "heap_usable (sys st)"
    and below: "bitmap_below st"
  shows "created_on st' p name function" "frame_apart st' p" "bitmap_below st'"
    "q \<noteq> p \<Longrightarrow> frame_apart st q \<Longrightarrow> frame_apart st' q \<and> (created_on st q n g \<longrightarrow> created_on st' q n g)"
proof -
  note c = CreateThread_memory [OF run h u]
  have b: "\<not> in_bitset (bitmap (kernel_pmm (sys st))) x" if "heap_cursor (sys st) \<le> unat x" for x
    using below that by (auto simp: bitmap_below_def)
  show "frame_apart st' p" using c(1,4) b by (auto simp: frame_apart_def)
  have "words_at (kmem (sys st')) (stack_top (tcbs st' p)) (thread_frame (start_regs (stack_top (tcbs st' p))) function)"
    by (rule CreateThread_frame(1) [OF run h u]) (use c(4) b in blast)
  then show "created_on st' p name function" by (simp add: created_on_def c(2) new_stack_frame)
  show "bitmap_below st'" using below c(1,3) by (auto simp: bitmap_below_def)
  assume q: "q \<noteq> p" "frame_apart st q"
  have t: "tcbs st' q = tcbs st q" using CreateThread_creates [OF run h u] q(1) by (simp add: creates_def)
  have "words_at (kmem (sys st')) (stack_top (tcbs st q)) (new_stack (stack_top (tcbs st q)) g) =
      words_at (kmem (sys st)) (stack_top (tcbs st q)) (new_stack (stack_top (tcbs st q)) g)"
    using q(2) c(5) by (intro words_at_cong) (simp_all add: frame_apart_def new_stack_def)
  then show "frame_apart st' q \<and> (created_on st q n g \<longrightarrow> created_on st' q n g)"
    using q(2) c(1,3) by (auto simp: frame_apart_def created_on_def t)
qed

lemma Scheduler_Init_bitmap:
  assumes start: "sched_start st" and run: "Scheduler_Init r1 r2 st = Inr st'" and below: "bitmap_below st"
  shows "bitmap_below st'"
proof -
  let ?it = "idleThread (sched st)"
  have u: "heap_usable (sys st)" using start by (simp add: sched_start_def)
  from run obtain st1 st2 st3 where p: "push_task (st\<lparr>task_blocks := (task_blocks st)(kernelTask (sched st) :=
      \<lparr>vas = MEM_VIRT_TO_PHYS (pdir_kernel (kernel_vmm (sys st))), taskID = 0, task_state = Running,
       taskName = ''Lobo Kernel''\<rparr>)\<rparr>) (kernelTask (sched st)) = Inr st1"
    and t: "SwitchTask r1 (st1\<lparr>tcbs := (tcbs st1)(?it := (tcbs st1 ?it)\<lparr>stack_top := 0, threadName := ''k/idle'', thread_taskID := 0\<rparr>),
       sched := (sched st1)\<lparr>currentThread := ?it, currentTask := kernelTask (sched st)\<rparr>\<rparr>) (kernelTask (sched st)) = Inr st2"
    and w: "SwitchThread r2 st2 ?it = Inr st3" and q: "push_thread st3 ?it = Inr st'"
    unfolding Scheduler_Init_def Let_def bind_r_eq_Inr by (elim exE conjE)
  from p obtain h l where pb: "push_back (sys st, list_heap st, tasks (sched st)) (kernelTask (sched st)) = Inr (sys st1, h, l)"
    by (auto simp: push_task_def bind_r_eq_Inr)
  obtain h' l' where pb': "push_back (sys st3, list_heap st3, threads (sched st3)) ?it = Inr (sys st', h', l')"
    using q by (auto simp: push_thread_def bind_r_eq_Inr)
  have node: "kernel_pmm s' = kernel_pmm s" if "push_back (s, a, b) v = Inr (s', c, d)" for s s' a b c d v
  proof -
    from that obtain e where "kmalloc s NODE_SIZE = Inr (e, s')"
      by (auto simp: push_back_def create_head_def bind_r_eq_Inr Let_def split: if_splits)
    from kmalloc_frame [OF this [unfolded kmalloc_def]] show ?thesis by simp
  qed
  have same: "kheap (sys st3) = kheap (sys st1)" "kernel_pmm (sys st3) = kernel_pmm (sys st1)"
    using t w by (auto simp: SwitchTask_def SwitchThread_def Let_def bind_r_eq_Inr call_routine_def of_machine_def)
  note u1 = push_back_heap [OF pb u]
  have "heap_usable (sys st3)" using u1(1) by (simp add: heap_usable_def same)
  note u3 = push_back_heap [OF pb' this]
  have "heap_cursor (sys st) \<le> heap_cursor (sys st')" using u1(2) u3(2) by (simp add: same)
  then show ?thesis using below node [OF pb] node [OF pb'] same by (auto simp: bitmap_below_def)
qed

section \<open>Properties\<close>

text \<open>C29. The scheduler is a round robin: with at most 501 threads, \<open>Schedule\<close> gives the processor to the
  first ready thread after the current index in cyclic order, makes it the running and current one,
  makes the thread that was current ready, whatever its state was, and changes no other thread's
  state; when no thread is ready only the index moves, by 501 places.\<close>

theorem schedule_round_robin:
  assumes "at_thread st ts i" and "schedulingEnabled (sched st)" and "length ts \<le> Suc maxTries"
  shows "case first_ready st ts i (length ts) of
      None \<Rightarrow> Schedule r st = Inr (set_index st ((i + 501) mod length ts))
    | Some j \<Rightarrow> \<exists>st'. Schedule r st = Inr st' \<and> at_thread st' ts j \<and> currentThread (sched st') = ts ! j \<and>
        (\<forall>p. state (tcbs st' p) = (if p = ts ! j then Running
           else if p = currentThread (sched st) then Ready else state (tcbs st p)))"
proof -
  have ts: "0 < length ts" using assms(1) by (auto simp: at_thread_def)
  have S: "Schedule r st = (case first_ready st ts i (length ts) of
      Some j \<Rightarrow> Inr (dispatch r st ts j) | None \<Rightarrow> Inr (set_index st ((i + 501) mod length ts)))"
    using schedule_loop_first [OF assms(1), of 0 "Suc maxTries"] assms(2) first_ready_round [OF ts assms(3)]
    by (simp add: Schedule_def maxTries_def split: option.split)
  show ?thesis
  proof (cases "first_ready st ts i (length ts)")
    case (Some j)
    then have "j < length ts" using ts by (auto simp: first_ready_def find_Some_iff simp del: upt_Suc)
    then have "at_thread (dispatch r st ts j) ts j"
      using assms(1) by (simp add: at_thread_def dispatch_fields)
    then show ?thesis by (simp add: S Some dispatch_fields)
  qed (simp add: S)
qed

text \<open>C30. In every state that the scheduler reaches after \<open>Init\<close>, by scheduling, yielding, creating
  threads, marking threads as waiting or dead, switching the scheduling on and off, allocating and
  running code, the list holds the idle thread first and no block twice, the current thread is in
  it and no other thread is running.\<close>

theorem scheduler_reachable:
  assumes "sched_start st" and "Scheduler_Init r1 r2 st = Inr st0" and "sched_step\<^sup>*\<^sup>* st0 st'"
  shows "\<exists>ts i. sched_ok st' (idleThread (sched st) # ts) i"
  using assms(3)
proof (induction rule: rtranclp_induct)
  case base
  from Scheduler_Init_inv [OF assms(1,2)] show ?case unfolding sched_inv_def by blast
next
  case (step st1 st2)
  from step.IH obtain ts i where "sched_ok st1 (idleThread (sched st) # ts) i" by blast
  from sched_ok_step [OF step.hyps(2) this] show ?case by auto
qed

text \<open>C31. A waiting or dead thread that does not have the processor never gets it: whatever steps follow,
  it stays waiting or dead and another thread stays current.\<close>

theorem parked_threads_never_run:
  assumes "sched_step\<^sup>*\<^sup>* st st'" and "sched_ok st ts i" and "p \<in> set ts"
    and "p \<noteq> currentThread (sched st)" and "state (tcbs st p) \<in> {Waiting, Dead}"
  shows "currentThread (sched st') \<noteq> p \<and> state (tcbs st' p) \<in> {Waiting, Dead}"
proof -
  have "\<exists>ts' j. sched_ok st' ts' j \<and> p \<in> set ts' \<and> parked st' p"
    using assms(1)
  proof (induction rule: rtranclp_induct)
    case base
    have "parked st p" using assms(4,5) by (simp add: parked_def)
    then show ?case using assms(2,3) by blast
  next
    case (step st1 st2)
    then obtain ts' j where "sched_ok st1 ts' j" "p \<in> set ts'" "parked st1 p" by blast
    with sched_ok_step [OF step.hyps(2)] show ?case by fastforce
  qed
  then show ?thesis by (auto simp: parked_def)
qed

definition time_slice :: "sched_state \<Rightarrow> u64 \<times> (reg \<Rightarrow> u64) \<times> u64 \<times> 64 bytes \<Rightarrow> kpanic + sched_state" where
  "time_slice st q = (case q of (r, rs, pc, m) \<Rightarrow> Schedule r (run_code st rs pc m))"

lemma sched_inv_slice:
  assumes "sched_inv st ts i" and "schedulingEnabled (sched st)"
  shows "\<exists>st'. time_slice st q = Inr st' \<and> schedulingEnabled (sched st') \<and> sched_inv st' ts (Suc i mod length ts)"
proof -
  obtain r rs pc m where q: "q = (r, rs, pc, m)" by (cases q)
  let ?st = "run_code st rs pc m"
  have inv: "sched_inv ?st ts i" using assms(1) same_sched_frame(2) [OF same_sched_steps(3)] by simp
  have on: "schedulingEnabled (sched ?st)" using assms(2) by (simp add: run_code_def)
  have "Schedule r ?st = Inr (dispatch r ?st ts (Suc i mod length ts)) \<or> Schedule r ?st = Inr ?st"
    using sched_inv_next(1) [OF inv on] by blast
  then show ?thesis
    using sched_inv_next(2) [OF inv on] on by (auto simp: q time_slice_def dispatch_fields)
qed

text \<open>A thread that is ready, or running on the processor, stays so over a call of \<open>Schedule\<close>.\<close>

definition live :: "sched_state \<Rightarrow> u64 \<Rightarrow> bool" where
  "live st p \<longleftrightarrow> state (tcbs st p) = Ready \<or> state (tcbs st p) = Running"

lemma Schedule_first_ready:
  assumes "sched_ok st ts i" and "schedulingEnabled (sched st)" and "length ts \<le> Suc maxTries"
  shows "Schedule r st = Inr (case first_ready st ts i (length ts) of
      Some j \<Rightarrow> dispatch r st ts j | None \<Rightarrow> set_index st ((i + Suc maxTries) mod length ts))"
proof -
  have at: "at_thread st ts i" and ts: "0 < length ts" using assms(1) by (auto simp: sched_ok_def at_thread_def)
  show ?thesis
    using schedule_loop_first [OF at, of 0 "Suc maxTries"] assms(2) first_ready_round [OF ts assms(3)]
    by (simp add: Schedule_def split: option.split)
qed

text \<open>The first ready position comes no later than a ready one that is \<open>d\<close> places further.\<close>

lemma first_ready_before:
  assumes "state (tcbs st (ts ! ((i + d) mod length ts))) = Ready" and "1 \<le> d" and "d \<le> length ts"
  obtains e where "1 \<le> e" "e \<le> d" "first_ready st ts i (length ts) = Some ((i + e) mod length ts)"
proof -
  let ?P = "\<lambda>j. state (tcbs st (ts ! j)) = Ready" and ?f = "\<lambda>d. (i + d) mod length ts"
  define e where "e = (LEAST e. 1 \<le> e \<and> ?P (?f e))"
  have e: "1 \<le> e" "?P (?f e)" "e \<le> d"
    using LeastI [of "\<lambda>e. 1 \<le> e \<and> ?P (?f e)" d] Least_le [of "\<lambda>e. 1 \<le> e \<and> ?P (?f e)" d] assms by (simp_all add: e_def)
  have less: "\<not> ?P (?f c)" if "1 \<le> c" "c < e" for c
    using not_less_Least [of c "\<lambda>e. 1 \<le> e \<and> ?P (?f e)"] that by (simp add: e_def)
  have "[1..<Suc (length ts)] = [1..<e] @ e # [Suc e..<Suc (length ts)]"
    using upt_add_eq_append [of 1 e "Suc (length ts) - e"] upt_conv_Cons [of e "Suc (length ts)"] e(1,3) assms(3)
    by (simp del: upt_Suc)
  moreover have "find ?P (map ?f [1..<e]) = None" using less by (auto simp: find_None_iff)
  ultimately have "first_ready st ts i (length ts) = Some (?f e)"
    using e(2) by (simp add: first_ready_def find_append del: upt_Suc)
  then show thesis using that e by blast
qed

lemma sched_ok_live_schedule:
  assumes "sched_ok st ts i" and "schedulingEnabled (sched st)" and "length ts \<le> Suc maxTries"
  obtains st' j where "Schedule r st = Inr st'" "sched_ok st' ts j" "schedulingEnabled (sched st')"
    "\<And>p. live st p \<Longrightarrow> live st' p"
proof -
  obtain st' where st': "Schedule r st = Inr st'" using Schedule_first_ready [OF assms] by blast
  obtain j where ok: "sched_ok st' ts j" using sched_ok_schedule [OF assms(1) st'] ..
  have "at_thread st ts i" using assms(1) by (simp add: sched_ok_def)
  from this st' have "schedulingEnabled (sched st') \<and> (\<forall>p. live st p \<longrightarrow> live st' p)"
    by (cases rule: Schedule_cases) (use assms(2) in \<open>auto simp: live_def dispatch_fields set_index_def\<close>)
  then show thesis using that st' ok by blast
qed

text \<open>A ready thread \<open>d\<close> places further has the processor after at most \<open>d\<close> time slices.\<close>

lemma ready_turn:
  assumes "sched_ok st ts i" and "schedulingEnabled (sched st)" and "length ts \<le> Suc maxTries"
    and "ts ! ((i + d) mod length ts) = p" and "state (tcbs st p) = Ready" and "1 \<le> d" and "d \<le> length ts"
    and "d \<le> length qs"
  shows "\<exists>k st'. 1 \<le> k \<and> k \<le> d \<and> fold_r time_slice (take k qs) st = Inr st' \<and> currentThread (sched st') = p"
  using assms
proof (induction d arbitrary: st i qs rule: less_induct)
  case (less d)
  obtain q qs' where qs: "qs = q # qs'" using less.prems(6,8) by (cases qs) auto
  obtain r rs pc m where q: "q = (r, rs, pc, m)" by (cases q)
  let ?st = "run_code st rs pc m" and ?n = "length ts"
  have same: "same_sched st ?st" by (rule same_sched_steps)
  have ok: "sched_ok ?st ts i" using less.prems(1) same_sched_frame(1) [OF same] by simp
  have on: "schedulingEnabled (sched ?st)" using less.prems(2) by (simp add: run_code_def)
  have ready: "state (tcbs ?st p) = Ready" using less.prems(5) by (simp add: run_code_def)
  have n: "0 < ?n" using less.prems(6,7) by linarith
  obtain e where e: "1 \<le> e" "e \<le> d" "first_ready ?st ts i ?n = Some ((i + e) mod ?n)"
    using first_ready_before [of ?st ts i d] ready less.prems(4,6,7) by blast
  let ?j = "(i + e) mod ?n"
  let ?st1 = "dispatch r ?st ts ?j"
  have j: "?j < ?n" using n by simp
  have run: "time_slice st q = Inr ?st1" using Schedule_first_ready [OF ok on less.prems(3)] e(3) by (simp add: time_slice_def q)
  show ?case
  proof (cases "ts ! ?j = p")
    case True
    then show ?thesis using run less.prems(6) by (intro exI [of _ 1] exI [of _ ?st1]) (simp add: qs dispatch_fields)
  next
    case False
    then have "e < d" using e(2) less.prems(4) by (cases "e = d") auto
    have "sched_ok ?st1 ts ?j" by (rule sched_ok_dispatch [OF ok j])
    moreover have "schedulingEnabled (sched ?st1)" "state (tcbs ?st1 p) = Ready" using on ready False by (simp_all add: dispatch_fields)
    moreover have "(?j + (d - e)) mod ?n = (i + e + (d - e)) mod ?n" by (rule mod_add_left_eq)
    then have "ts ! ((?j + (d - e)) mod ?n) = p" using less.prems(4) \<open>e < d\<close> by simp
    moreover have "d - e < d" "1 \<le> d - e" "d - e \<le> ?n" "d - e \<le> length qs'"
      using less.prems(7,8) e(1) \<open>e < d\<close> by (simp_all add: qs)
    ultimately obtain k st' where "1 \<le> k" "k \<le> d - e" "fold_r time_slice (take k qs') ?st1 = Inr st'" "currentThread (sched st') = p"
      using less.IH [of "d - e" ?st1 ?j qs'] less.prems(3) by metis
    then show ?thesis using run e(1) \<open>e < d\<close> by (intro exI [of _ "Suc k"] exI [of _ st']) (simp add: qs)
  qed
qed

lemma cyclic_distance:
  fixes i j n :: nat
  assumes "i < n" and "j < n"
  obtains d where "1 \<le> d" "d \<le> n" "(i + d) mod n = j" "i \<noteq> j \<Longrightarrow> d < n"
proof (cases "i < j")
  case True
  then show thesis using that [of "j - i"] assms by simp
next
  case False
  have "(i + (n + j - i)) mod n = j" using assms by simp
  then show thesis using that [of "n + j - i"] assms False by simp
qed

text \<open>A live thread has the processor after at most as many time slices as there are threads.\<close>

lemma live_turn:
  assumes "sched_ok st ts i" and "schedulingEnabled (sched st)" and "length ts \<le> Suc maxTries"
    and "p \<in> set ts" and "live st p" and "length qs = length ts"
  shows "\<exists>k st'. 1 \<le> k \<and> k \<le> length ts \<and> fold_r time_slice (take k qs) st = Inr st' \<and> currentThread (sched st') = p"
proof -
  let ?n = "length ts"
  obtain j where j: "j < ?n" "ts ! j = p" using assms(4) by (auto simp: in_set_conv_nth)
  have i: "i < ?n" and d: "distinct ts" using assms(1) by (simp_all add: sched_ok_def at_thread_def)
  show ?thesis
  proof (cases "state (tcbs st p) = Ready")
    case True
    from cyclic_distance [OF i j(1)] obtain e where "1 \<le> e" "e \<le> ?n" "(i + e) mod ?n = j" by metis
    then show ?thesis using ready_turn [OF assms(1-3), of e p qs] True j(2) assms(6) by fastforce
  next
    case False
    then have run: "state (tcbs st p) = Running" using assms(5) by (simp add: live_def)
    then have cur: "p = currentThread (sched st)" using assms(1,4) by (auto simp: sched_ok_def)
    obtain q qs' where qs: "qs = q # qs'" "length qs' = ?n - 1" using assms(6) i by (cases qs) auto
    obtain r rs pc m where q: "q = (r, rs, pc, m)" by (cases q)
    let ?st = "run_code st rs pc m"
    have same: "same_sched st ?st" by (rule same_sched_steps)
    have ok: "sched_ok ?st ts i" using assms(1) same_sched_frame(1) [OF same] by simp
    have on: "schedulingEnabled (sched ?st)" using assms(2) by (simp add: run_code_def)
    have cur': "currentThread (sched ?st) = p" "state (tcbs ?st p) = Running" using cur run by (simp_all add: run_code_def)
    note S = Schedule_first_ready [OF ok on assms(3), of r]
    show ?thesis
    proof (cases "first_ready ?st ts i ?n")
      case None
      then have "time_slice st q = Inr (set_index ?st ((i + Suc maxTries) mod ?n))" using S by (simp add: time_slice_def q)
      then show ?thesis using cur' i by (intro exI [of _ 1]) (auto simp: qs)
    next
      case (Some l)
      have "0 < ?n" using i by linarith
      with Some have l: "l < ?n" "state (tcbs ?st (ts ! l)) = Ready"
        by (auto simp: first_ready_def find_Some_iff simp del: upt_Suc)
      let ?st1 = "dispatch r ?st ts l"
      have step: "time_slice st q = Inr ?st1" using S Some by (simp add: time_slice_def q)
      have other: "ts ! l \<noteq> p" using l(2) cur'(2) by auto
      then have "l \<noteq> j" using j(2) by auto
      with cyclic_distance [OF l(1) j(1)] obtain e where e: "1 \<le> e" "e < ?n" "(l + e) mod ?n = j" by metis
      have "sched_ok ?st1 ts l" "schedulingEnabled (sched ?st1)" "state (tcbs ?st1 p) = Ready"
        using sched_ok_dispatch [OF ok l(1)] on other cur' by (simp_all add: dispatch_fields)
      from ready_turn [OF this(1,2) assms(3), of e p qs'] this(3) e j(2) qs(2) obtain k st' where
        "1 \<le> k" "k \<le> e" "fold_r time_slice (take k qs') ?st1 = Inr st'" "currentThread (sched st') = p"
        by fastforce
      then show ?thesis using step e(2) by (intro exI [of _ "Suc k"] exI [of _ st']) (simp add: qs)
    qed
  qed
qed

lemma slices_keep:
  assumes "sched_ok st ts i" and "schedulingEnabled (sched st)" and "length ts \<le> Suc maxTries"
  shows "\<exists>st' j. fold_r time_slice qs st = Inr st' \<and> sched_ok st' ts j \<and> schedulingEnabled (sched st') \<and>
    (\<forall>p. live st p \<longrightarrow> live st' p)"
  using assms
proof (induction qs arbitrary: st i)
  case (Cons q qs)
  obtain r rs pc m where q: "q = (r, rs, pc, m)" by (cases q)
  let ?st = "run_code st rs pc m"
  have same: "same_sched st ?st" by (rule same_sched_steps)
  have ok: "sched_ok ?st ts i" using Cons.prems(1) same_sched_frame(1) [OF same] by simp
  have on: "schedulingEnabled (sched ?st)" "\<And>p. live ?st p = live st p"
    using Cons.prems(2) by (simp_all add: run_code_def live_def)
  obtain st1 j where st1: "Schedule r ?st = Inr st1" "sched_ok st1 ts j" "schedulingEnabled (sched st1)"
      "\<And>p. live ?st p \<Longrightarrow> live st1 p"
    using sched_ok_live_schedule [OF ok on(1) Cons.prems(3), of r] by blast
  from Cons.IH [OF st1(2,3) Cons.prems(3)] show ?case using st1(1,4) on(2) by (auto simp: time_slice_def q)
qed auto

lemma sched_inv_slices:
  assumes "sched_inv st ts i" and "schedulingEnabled (sched st)"
  shows "\<exists>st'. fold_r time_slice qs st = Inr st' \<and> currentThread (sched st') = ts ! ((i + length qs) mod length ts)"
  using assms
proof (induction qs arbitrary: st i)
  case Nil
  then show ?case by (auto simp: sched_inv_def sched_ok_def at_thread_def)
next
  case (Cons q qs)
  from sched_inv_slice [OF Cons.prems] obtain st1 where st1: "time_slice st q = Inr st1"
    "schedulingEnabled (sched st1)" "sched_inv st1 ts (Suc i mod length ts)" by blast
  from Cons.IH [OF st1(3) st1(2)] show ?case by (simp add: st1(1) mod_simps)
qed

text \<open>C32. No live thread starves.  Take a state of the invariant with the scheduling on and at most 501
  threads, some of which may be waiting or dead, and a thread of the list that is ready or running.
  Whatever code the threads run between the calls of \<open>Schedule\<close>, as long as none is created or marked:
  all calls return, and among any \<open>length ts\<close> calls in a row, however many came before, is one after which
  the thread has the processor.  Where all threads are live the order is exact: after \<open>k\<close> calls
  the current thread is the one \<open>k\<close> places further in the list.\<close>

theorem scheduler_fair:
  assumes "sched_ok st ts i" and "schedulingEnabled (sched st)" and "length ts \<le> Suc maxTries"
    and "p \<in> set ts" and "state (tcbs st p) = Ready \<or> state (tcbs st p) = Running"
    and "length window = length ts"
  shows "(\<exists>k st'. 1 \<le> k \<and> k \<le> length ts \<and> fold_r time_slice (before @ take k window) st = Inr st' \<and>
      currentThread (sched st') = p) \<and>
    (\<exists>st'. fold_r time_slice (before @ window) st = Inr st') \<and>
    (sched_inv st ts i \<longrightarrow> (\<exists>st'. fold_r time_slice before st = Inr st' \<and>
      currentThread (sched st') = ts ! ((i + length before) mod length ts)))"
proof -
  obtain st1 j where st1: "fold_r time_slice before st = Inr st1" "sched_ok st1 ts j" "schedulingEnabled (sched st1)"
      "\<forall>p. live st p \<longrightarrow> live st1 p"
    using slices_keep [OF assms(1-3), of before] by blast
  have "live st1 p" using st1(4) assms(5) unfolding live_def by blast
  from live_turn [OF st1(2,3) assms(3,4) this assms(6)] obtain k st' where
    "1 \<le> k" "k \<le> length ts" "fold_r time_slice (take k window) st1 = Inr st'" "currentThread (sched st') = p"
    by blast
  then have "\<exists>k st'. 1 \<le> k \<and> k \<le> length ts \<and> fold_r time_slice (before @ take k window) st = Inr st' \<and>
      currentThread (sched st') = p"
    using st1(1) by (intro exI [of _ k] exI [of _ st']) (simp add: fold_r_append)
  moreover have "\<exists>st'. fold_r time_slice (before @ window) st = Inr st'"
    using slices_keep [OF assms(1-3)] by blast
  ultimately show ?thesis using sched_inv_slices [OF _ assms(2)] by blast
qed

text \<open>C35. A new thread starts at its function: after \<open>CreateThread\<close> the thread is the last of the list and
  ready, with the next number; as long as its block and the 128 bytes of its first frame are left
  alone, the first switch to it continues at the function, with every register zero but the frame
  pointer, which is the frame's address, and the stack pointer, which is above the frame.\<close>

theorem created_thread_starts:
  assumes run: "CreateThread st name function = Inr (p, st1)" and u: "heap_usable (sys st)" and h: "holds_threads st ts"
    and a: "\<forall>x. in_range x (stack_top (tcbs st1 p)) 128 \<longrightarrow> \<not> in_bitset (bitmap (kernel_pmm (sys st))) x"
    and kept: "stack_top (tcbs st2 p) = stack_top (tcbs st1 p)"
      "\<forall>x. in_range x (stack_top (tcbs st1 p)) 128 \<longrightarrow> kmem (sys st2) x = kmem (sys st1) x"
    and switch: "currentThread (sched st2) \<noteq> p" "disjoint_ranges (cpu st2 RSP - 128) 128 (stack_top (tcbs st1 p)) 128"
  shows "holds_threads st1 (ts @ [p]) \<and> state (tcbs st1 p) = Ready \<and> threadID (tcbs st1 p) = scast (next_tid st) \<and>
    (\<exists>st3. SwitchThread r st2 p = Inr st3 \<and> cpu_rip st3 = function \<and> cpu st3 RBP = stack_top (tcbs st1 p) \<and>
       cpu st3 RSP = stack_top (tcbs st1 p) + 128 \<and> (\<forall>q. q \<notin> {RSP, RBP} \<longrightarrow> cpu st3 q = 0))"
proof -
  let ?stk = "stack_top (tcbs st1 p)"
  have c: "creates st ts p st1" by (rule CreateThread_creates [OF run h u])
  note f = CreateThread_frame [OF run h u a]
  have "words_at (kmem (sys st2)) ?stk (thread_frame (start_regs ?stk) function)"
    using f(1) kept(2) by (subst words_at_cong [where m' = "kmem (sys st1)"]) simp_all
  moreover have "p \<noteq> 0" using c by (simp add: creates_def)
  ultimately obtain st3 where "SwitchThread r st2 p = Inr st3" "cpu_rip st3 = function" "cpu st3 RSP = ?stk + 128"
    "\<forall>q. q \<noteq> RSP \<longrightarrow> cpu st3 q = start_regs ?stk q"
    using SwitchThread_resumes [of p st2 _ "function" r] switch kept(1) by metis
  then show ?thesis using c f(2) by (auto simp: creates_def start_regs_def)
qed


section \<open>Concrete states\<close>

definition sample_sched :: sched_state where
  "sample_sched = \<lparr>sys = sample_heap 0x1000 0x100000 EarlyBoot, list_heap = (\<lambda>_. \<lparr>m_value = 0, m_next = 0\<rparr>),
     tcbs = (\<lambda>_. \<lparr>stack_top = 0, state = Ready, threadName = [], threadID = 0, thread_taskID = 0\<rparr>),
     task_blocks = (\<lambda>_. \<lparr>vas = 0, taskID = 0, task_state = Ready, taskName = []\<rparr>),
     sched = \<lparr>schedulingEnabled = False, idleThread = 0x100, currentThread = 0, threads = empty_list,
       tasks = empty_list, kernelTask = 0x200, currentTask = 0, currentThreadIndex = 0\<rparr>,
     next_tid = 1, cpu = (\<lambda>_. 0), cpu_rip = 0\<rparr>"

lemma sample_sched_start: "sched_start sample_sched"
  by (simp add: sched_start_def sample_sched_def sample_heap_def heap_usable_def)

lemmas sched_eval = Scheduler_Init_def SwitchTask_def SwitchThread_def push_task_def push_thread_def
  push_back_def create_head_def kmalloc_def kmalloc_aligned_def align_base_def NODE_SIZE_def Let_def set_base_def
  log_event_def

lemma sample_sched_init: "\<exists>st. Scheduler_Init 0 0 sample_sched = Inr st"
  by (simp add: sched_eval sample_sched_def sample_heap_def empty_list_def)

lemma sample_sched_inv: "\<exists>st. sched_inv st [0x100] 0 \<and> schedulingEnabled (sched st)"
proof -
  obtain st where "Scheduler_Init 0 0 sample_sched = Inr st" using sample_sched_init ..
  from Scheduler_Init_inv [OF sample_sched_start this] have "sched_inv st [0x100] 0" by (simp add: sample_sched_def)
  then have "sched_inv (EnableScheduling st) [0x100] 0"
    by (simp add: same_sched_frame [OF same_sched_steps(1)])
  moreover have "schedulingEnabled (sched (EnableScheduling st))" by (simp add: EnableScheduling_def)
  ultimately show ?thesis by blast
qed

theorem schedule_round_robin_witness:
  "\<exists>st st'. Schedule 0 st = Inr st' \<and> currentThread (sched st') = 0x100"
proof -
  obtain st where inv: "sched_inv st [0x100] 0" and on: "schedulingEnabled (sched st)" using sample_sched_inv by blast
  let ?st = "set_state st 0x100 Ready"
  have at: "at_thread ?st [0x100] 0" using inv by (auto simp: sched_inv_def sched_ok_def at_thread_def holds_threads_def)
  have "first_ready ?st [0x100] 0 1 = Some 0" by (simp add: first_ready_def set_state_def)
  with schedule_round_robin [OF at, of 0] on show ?thesis by (auto simp: maxTries_def)
qed

theorem scheduler_reachable_witness:
  "\<exists>st ts i. sched_step\<^sup>*\<^sup>* (projr (Scheduler_Init 0 0 sample_sched)) st \<and> sched_ok st (0x100 # ts) i"
proof -
  obtain st where init: "Scheduler_Init 0 0 sample_sched = Inr st" using sample_sched_init ..
  have "sched_step\<^sup>*\<^sup>* st (EnableScheduling st)" by (intro r_into_rtranclp sched_step.enable)
  with scheduler_reachable [OF sample_sched_start init this] init show ?thesis
    by (auto simp: sample_sched_def)
qed

lemma sample_parked:
  "\<exists>st p. sched_ok st [0x100, p] 0 \<and> p \<noteq> currentThread (sched st) \<and> state (tcbs st p) = Dead"
proof -
  obtain st p st' where init: "Scheduler_Init 0 0 sample_sched = Inr st"
    and run: "CreateThread st ''k/test_dead'' 0x4000 = Inr (p, st')"
    by (simp add: sched_eval CreateThread_def call_routine_def of_machine_def TCB_SIZE_def THREAD_STACK_SIZE_def
        PAGE_SIZE_def sample_sched_def sample_heap_def empty_list_def)
  have inv: "sched_inv st [0x100] 0"
    using Scheduler_Init_inv [OF sample_sched_start init] by (simp add: sample_sched_def)
  have c: "creates st [0x100] p st'"
    by (rule CreateThread_creates [OF run]) (use inv in \<open>simp_all add: sched_inv_def sched_ok_def at_thread_def\<close>)
  have ok: "sched_ok st' [0x100, p] 0" using sched_ok_creates [OF _ c] inv by (simp add: sched_inv_def)
  have p: "p \<noteq> currentThread (sched st')" using inv c by (auto simp: sched_inv_def sched_ok_def creates_def)
  show ?thesis
    by (rule exI [of _ "set_state st' p Dead"], rule exI [of _ p])
      (use sched_ok_mark [OF ok p, of Dead] p in \<open>simp add: set_state_def\<close>)
qed

theorem parked_threads_never_run_witness:
  "\<exists>st p. state (tcbs st p) = Dead \<and> currentThread (sched (EnableScheduling st)) \<noteq> p"
proof -
  obtain st p where st: "sched_ok st [0x100, p] 0" "p \<noteq> currentThread (sched st)" "state (tcbs st p) = Dead"
    using sample_parked by blast
  have "sched_step\<^sup>*\<^sup>* st (EnableScheduling st)" by (intro r_into_rtranclp sched_step.enable)
  from parked_threads_never_run [OF this st(1)] st show ?thesis by auto
qed

theorem created_thread_starts_witness:
  "\<exists>p st st'. CreateThread sample_sched ''t'' 0x4000 = Inr (p, st) \<and> SwitchThread 0 st p = Inr st' \<and> cpu_rip st' = 0x4000"
proof -
  obtain p st where run: "CreateThread sample_sched ''t'' 0x4000 = Inr (p, st)" and p: "p = 0x1000"
    and st: "stack_top (tcbs st p) = 0x4fa8" "currentThread (sched st) = 0" "cpu st = (\<lambda>_. 0)"
    by (simp add: CreateThread_def sched_eval TCB_SIZE_def THREAD_STACK_SIZE_def PAGE_SIZE_def sample_sched_def sample_heap_def empty_list_def)
  have u: "heap_usable (sys sample_sched)" by (simp add: sample_sched_def sample_heap_def heap_usable_def)
  moreover have "holds_threads sample_sched []"
    using list_holds_empty [OF u] by (simp add: holds_threads_def sample_sched_def)
  moreover have "\<not> in_bitset (bitmap (kernel_pmm (sys sample_sched))) x" if "in_range x (stack_top (tcbs st p)) 128" for x
    using that by (simp add: st sample_sched_def sample_heap_def in_bitset_def in_range_unat)
  moreover have "disjoint_ranges (stack_top (tcbs st p)) 128 (cpu st RSP - 128) 128"
    by (rule disjoint_ranges_below) (simp_all add: st)
  ultimately have "\<exists>st3. SwitchThread 0 st p = Inr st3 \<and> cpu_rip st3 = 0x4000"
    using created_thread_starts [OF run, of "[]" st 0] disjoint_ranges_sym [of "stack_top (tcbs st p)"] st p by auto
  then show ?thesis using run by blast
qed

end
