(* ===== verification/Keyboard.thy ===== *)
theory Keyboard
  imports Libc_Stdlib Kernel_Base
begin

text \<open>
  The keyboard: src/lobo/hal/keyboard.cpp with include/kernel/hal/keyboard.h, and the interrupt entry
  of arch/x86_64/drivers/ps2_keyboard.cpp.  The queue is the object's array of 128 bytes; a store past
  its end is an error.  The copy that \<open>memmove\<close> makes inside the array is written out on the list of
  its bytes.  The calls are atomic: an interrupt between two statements is not modelled.
\<close>

record keyboard =
  scancode_queue :: "u8 list"
  scancode_queue_sz :: u64
  mod_shift_set :: bool

definition scancode_queue_max :: u64 where "scancode_queue_max = 128"

text \<open>The static object before any key: zeroed.\<close>

definition keyboard_initial :: keyboard where
  "keyboard_initial = \<lparr>scancode_queue = replicate 128 0, scancode_queue_sz = 0, mod_shift_set = False\<rparr>"

section \<open>The key tables\<close>

definition kbdus :: string where
  "kbdus = [NUL, CHR 0x1B] @ ''1234567890-='' @ [CHR 0x08, CHR 0x09] @ ''qwertyuiop[]'' @ [CHR 0x0A, NUL] @
     ''asdfghjkl;'' @ [CHR 0x27, CHR 0x60, NUL, CHR 0x5C] @ ''zxcvbnm,./'' @ [NUL] @ ''*'' @ [NUL] @ '' '' @
     replicate 16 NUL @ ''-'' @ replicate 3 NUL @ ''+'' @ replicate 177 NUL"

definition kbdus_shift :: string where
  "kbdus_shift = [NUL, CHR 0x1B] @ ''!@#$%^&*()_+'' @ [CHR 0x08, CHR 0x09] @ ''QWERTYUIOP[]'' @ [CHR 0x0A, NUL] @
     ''ASDFGHJKL:'' @ [CHR 0x22, CHR 0x7E, NUL] @ ''|ZXCVBNM<>?'' @ [NUL] @ ''*'' @ [NUL] @ '' '' @
     replicate 16 NUL @ ''-'' @ replicate 3 NUL @ ''+'' @ replicate 177 NUL"

lemma table_lengths [simp]: "length kbdus = 256" "length kbdus_shift = 256"
  by (simp_all add: kbdus_def kbdus_shift_def)

section \<open>The queue\<close>

definition store_queue :: "keyboard \<Rightarrow> u64 \<Rightarrow> u8 \<Rightarrow> kpanic + keyboard" where
  "store_queue kb i v =
     bind_r (guard Out_of_bounds (unat i < length (scancode_queue kb))) (\<lambda>_.
     Inr (kb\<lparr>scancode_queue := (scancode_queue kb)[unat i := v]\<rparr>))"

definition recieve_scancode :: "keyboard \<Rightarrow> u8 \<Rightarrow> kpanic + keyboard" where
  "recieve_scancode kb s =
     bind_r (assert (scancode_queue_sz kb < scancode_queue_max)) (\<lambda>_.
     bind_r (store_queue kb (scancode_queue_sz kb) s) (\<lambda>kb.
     Inr (kb\<lparr>scancode_queue_sz := scancode_queue_sz kb + 1\<rparr>)))"

definition queue_empty :: "keyboard \<Rightarrow> bool" where
  "queue_empty kb \<longleftrightarrow> scancode_queue_sz kb = 0"

text \<open>\<open>memmove(&queue[0], &queue[1], n)\<close>.\<close>

definition move_down :: "u8 list \<Rightarrow> nat \<Rightarrow> kpanic + u8 list" where
  "move_down q n = (if n < length q then Inr (take n (drop 1 q) @ drop n q) else Inl Out_of_bounds)"

definition scancode_queue_pop :: "keyboard \<Rightarrow> kpanic + (u8 \<times> keyboard)" where
  "scancode_queue_pop kb =
     (if queue_empty kb then Inr (0, kb)
      else
        let val = hd (scancode_queue kb) in
        bind_r (move_down (scancode_queue kb) (unat (scancode_queue_sz kb - 1))) (\<lambda>q.
        let kb = kb\<lparr>scancode_queue := q\<rparr> in
        bind_r (store_queue kb (scancode_queue_sz kb) 0) (\<lambda>kb.
        Inr (val, kb\<lparr>scancode_queue_sz := scancode_queue_sz kb - 1\<rparr>))))"

definition read_scancode :: "keyboard \<Rightarrow> kpanic + (u8 \<times> keyboard)" where
  "read_scancode kb = (if queue_empty kb then Inr (0, kb) else scancode_queue_pop kb)"

definition on_interrupt :: "(u16 \<Rightarrow> u8) \<Rightarrow> keyboard \<Rightarrow> kpanic + keyboard" where
  "on_interrupt inb kb = (let scan = inb 0x60 in recieve_scancode kb scan)"

section \<open>Characters\<close>

lemma read_scancode_less:
  "read_scancode kb = Inr (sc, kb') \<Longrightarrow> sc \<noteq> 0 \<Longrightarrow> unat (scancode_queue_sz kb') < unat (scancode_queue_sz kb)"
  by (auto simp: read_scancode_def queue_empty_def scancode_queue_pop_def store_queue_def Let_def bind_r_eq_Inr
      unat_minus_one unat_gt_0 split: if_splits)

text \<open>The loop of \<open>getchar_async\<close>: releases are skipped, a press returns the table's character.\<close>

function getchar_async :: "keyboard \<Rightarrow> kpanic + (char \<times> keyboard)" where
  "getchar_async kb =
     bind_r (read_scancode kb) (\<lambda>(sc, kb).
     if sc = 0 then Inr (NUL, kb)
     else
       let sc_is_up = (sc AND 0x80 \<noteq> 0); sc = (if sc_is_up then sc AND 0x7F else sc);
           kb = (if sc = 0x2A then kb\<lparr>mod_shift_set := \<not> sc_is_up\<rparr> else kb)
       in if \<not> sc_is_up
          then Inr ((if mod_shift_set kb then kbdus_shift else kbdus) ! unat sc, kb)
          else getchar_async kb)"
  by pat_completeness auto
termination
  by (relation "measure (\<lambda>kb. unat (scancode_queue_sz kb))")
    (auto dest: read_scancode_less split: if_splits)

declare getchar_async.simps [simp del]

section \<open>The queue is a queue\<close>

text \<open>The contract of a bounded queue of bytes, with \<open>abs\<close> the bytes it holds.\<close>

locale byte_queue =
  fixes inv :: "'q \<Rightarrow> bool" and abs :: "'q \<Rightarrow> u8 list" and cap :: nat
    and push :: "'q \<Rightarrow> u8 \<Rightarrow> kpanic + 'q" and pop :: "'q \<Rightarrow> kpanic + (u8 \<times> 'q)"
  assumes push_ok: "inv q \<Longrightarrow> length (abs q) < cap \<Longrightarrow> \<exists>q'. push q x = Inr q' \<and> inv q' \<and> abs q' = abs q @ [x]"
    and pop_ok: "inv q \<Longrightarrow> abs q = x # xs \<Longrightarrow> length (abs q) < cap \<Longrightarrow> \<exists>q'. pop q = Inr (x, q') \<and> inv q' \<and> abs q' = xs"
begin

lemma fill:
  "inv q \<Longrightarrow> length (abs q) + length xs \<le> cap \<Longrightarrow> \<exists>q'. fold_r push xs q = Inr q' \<and> inv q' \<and> abs q' = abs q @ xs"
proof (induction xs arbitrary: q)
  case (Cons x xs)
  then obtain q' where q': "push q x = Inr q'" "inv q'" "abs q' = abs q @ [x]" using push_ok [of q x] by auto
  with Cons.IH [of q'] Cons.prems show ?case by auto
qed simp

end

definition kb_inv :: "keyboard \<Rightarrow> bool" where
  "kb_inv kb \<longleftrightarrow> length (scancode_queue kb) = 128 \<and> unat (scancode_queue_sz kb) \<le> 128"

definition kb_codes :: "keyboard \<Rightarrow> u8 list" where
  "kb_codes kb = take (unat (scancode_queue_sz kb)) (scancode_queue kb)"

lemma kb_codes_length: "kb_inv kb \<Longrightarrow> length (kb_codes kb) = unat (scancode_queue_sz kb)"
  by (simp add: kb_inv_def kb_codes_def)

lemma kb_codes_empty: "kb_inv kb \<Longrightarrow> kb_codes kb = [] \<longleftrightarrow> queue_empty kb"
  by (auto simp: kb_inv_def kb_codes_def queue_empty_def unat_eq_zero)

lemma recieve_ok:
  assumes "kb_inv kb" and "length (kb_codes kb) < 128"
  shows "\<exists>kb'. recieve_scancode kb x = Inr kb' \<and> kb_inv kb' \<and> kb_codes kb' = kb_codes kb @ [x] \<and>
    mod_shift_set kb' = mod_shift_set kb"
proof -
  let ?n = "unat (scancode_queue_sz kb)"
  have n: "?n < 128" and q: "length (scancode_queue kb) = 128"
    using assms kb_codes_length by (auto simp: kb_inv_def)
  have "unat (scancode_queue_sz kb + 1) = Suc ?n" using n by (subst unat_add_lt) simp_all
  then show ?thesis
    using n q by (auto simp: recieve_scancode_def scancode_queue_max_def word_less_nat_alt store_queue_def
        kb_inv_def kb_codes_def take_Suc_conv_app_nth)
qed

lemma pop_ok:
  assumes "kb_inv kb" and "kb_codes kb = x # xs" and "length (kb_codes kb) < 128"
  shows "\<exists>kb'. scancode_queue_pop kb = Inr (x, kb') \<and> kb_inv kb' \<and> kb_codes kb' = xs \<and>
    mod_shift_set kb' = mod_shift_set kb"
proof -
  let ?n = "unat (scancode_queue_sz kb)" and ?q = "scancode_queue kb"
  have n: "?n < 128" "?n = Suc (length xs)" and q: "length ?q = 128"
    using assms kb_codes_length [OF assms(1)] by (auto simp: kb_inv_def)
  have m: "unat (scancode_queue_sz kb - 1) = length xs"
    using n by (simp add: unat_minus_one unat_gt_0 flip: unat_gt_0)
  obtain r where r: "?q = x # xs @ r"
    using assms(2) by (metis append_Cons append_take_drop_id kb_codes_def)
  show ?thesis
    using n q m
    by (auto simp: scancode_queue_pop_def queue_empty_def Let_def move_down_def store_queue_def r kb_inv_def kb_codes_def
        list_update_append)
qed

interpretation kb_queue: byte_queue kb_inv kb_codes 128 recieve_scancode scancode_queue_pop
  by unfold_locales (use recieve_ok pop_ok in blast)+

section \<open>The decoder\<close>

text \<open>What \<open>getchar_async\<close> makes of a queue of scancodes: the character, the state of shift and the
  codes left.\<close>

fun next_char :: "bool \<Rightarrow> u8 list \<Rightarrow> char \<times> bool \<times> u8 list" where
  "next_char sh [] = (NUL, sh, [])"
| "next_char sh (c # cs) =
     (if c = 0 then (NUL, sh, cs)
      else if c AND 0x80 \<noteq> 0 then next_char (sh \<and> c AND 0x7F \<noteq> 0x2A) cs
      else let sh = (sh \<or> c = 0x2A) in ((if sh then kbdus_shift else kbdus) ! unat c, sh, cs))"

definition kb_holds :: "keyboard \<Rightarrow> bool \<Rightarrow> u8 list \<Rightarrow> bool" where
  "kb_holds kb sh cs \<longleftrightarrow> kb_inv kb \<and> kb_codes kb = cs \<and> mod_shift_set kb = sh"

lemma getchar_next:
  assumes "kb_holds kb sh cs" and "length cs < 128" and "next_char sh cs = (c, sh', cs')"
  shows "\<exists>kb'. getchar_async kb = Inr (c, kb') \<and> kb_holds kb' sh' cs'"
  using assms
proof (induction cs arbitrary: kb sh)
  case Nil
  then have "read_scancode kb = Inr (0, kb)"
    by (auto simp: kb_holds_def read_scancode_def kb_codes_empty)
  with Nil show ?case by (subst getchar_async.simps) auto
next
  case (Cons x xs)
  have "\<not> queue_empty kb" using Cons.prems(1) kb_codes_empty [of kb] by (auto simp: kb_holds_def)
  moreover obtain kb1 where pop: "scancode_queue_pop kb = Inr (x, kb1)" "kb_holds kb1 sh xs"
    using pop_ok [of kb x xs] Cons.prems(1,2) by (auto simp: kb_holds_def)
  ultimately have read: "read_scancode kb = Inr (x, kb1)" by (simp add: read_scancode_def)
  let ?sh = "sh \<and> x AND 0x7F \<noteq> 0x2A" and ?kb = "if x AND 0x7F = 0x2A then kb1\<lparr>mod_shift_set := False\<rparr> else kb1"
  show ?case
  proof (cases "x \<noteq> 0 \<and> x AND 0x80 \<noteq> 0")
    case True
    have "kb_holds ?kb ?sh xs" using pop(2) by (auto simp: kb_holds_def kb_inv_def kb_codes_def)
    with Cons.IH [of ?kb ?sh] Cons.prems(2,3) True show ?thesis
      by (subst getchar_async.simps) (simp add: read split: if_splits)
  next
    case False
    then show ?thesis
      using Cons.prems(3) pop(2)
      by (subst getchar_async.simps) (auto simp: read kb_holds_def kb_inv_def kb_codes_def Let_def)
  qed
qed

lemma next_char_length: "next_char sh cs = (c, sh', cs') \<Longrightarrow> length cs' \<le> length cs"
  by (induction sh cs arbitrary: sh' rule: next_char.induct) (auto simp: Let_def split: if_splits)

section \<open>Typing\<close>

text \<open>Reading as the kernel's keyboard thread does: \<open>n\<close> calls, of which those that return a character
  other than the terminator count.\<close>

primrec read_chars :: "nat \<Rightarrow> keyboard \<Rightarrow> kpanic + (string \<times> keyboard)" where
  "read_chars 0 kb = Inr ([], kb)"
| "read_chars (Suc n) kb = bind_r (getchar_async kb) (\<lambda>(c, kb). bind_r (read_chars n kb) (\<lambda>(s, kb).
     Inr (if c = NUL then (s, kb) else (c # s, kb))))"

text \<open>The codes of the keys that type a character: its key's press and release, inside those of the
  left shift key when only the second table has it.\<close>

definition key_in :: "string \<Rightarrow> char \<Rightarrow> u8 option" where
  "key_in table c = map_option of_nat (find (\<lambda>k. table ! k = c) [1..<128])"

definition press_release :: "u8 \<Rightarrow> u8 list" where
  "press_release k = [k, k OR 0x80]"

definition keystrokes :: "char \<Rightarrow> u8 list" where
  "keystrokes c = (case key_in kbdus c of
     Some k \<Rightarrow> press_release k
   | None \<Rightarrow> (case key_in kbdus_shift c of
       Some k \<Rightarrow> [0x2A] @ press_release k @ [0xAA]
     | None \<Rightarrow> []))"

definition typeable :: "char \<Rightarrow> bool" where
  "typeable c \<longleftrightarrow> c \<noteq> NUL \<and> (key_in kbdus c \<noteq> None \<or> key_in kbdus_shift c \<noteq> None)"

lemma key_in_cases:
  assumes "key_in table c = Some k" and "length table = 256"
  obtains i where "i \<in> set [1..<128]" "k = of_nat i" "table ! i = c"
proof -
  from assms obtain i where i: "find (\<lambda>k. table ! k = c) [1..<128] = Some i" "k = of_nat i"
    by (auto simp: key_in_def)
  then have "i \<in> set [1..<128] \<and> table ! i = c" unfolding find_Some_iff by (metis nth_mem)
  with i(2) that show thesis by blast
qed

lemma key_codes:
  "\<forall>i \<in> set [1..<128]. (of_nat i :: u8) \<noteq> 0 \<and> (of_nat i :: u8) AND 0x80 = 0 \<and>
     (of_nat i OR 0x80 :: u8) AND 0x80 \<noteq> 0 \<and> (of_nat i OR 0x80 :: u8) AND 0x7F = of_nat i \<and>
     (of_nat i OR 0x80 :: u8) \<noteq> 0 \<and> unat (of_nat i :: u8) = i"
  by code_simp

lemma shift_key: "kbdus ! 42 = NUL" "kbdus_shift ! 42 = NUL"
  by (simp_all add: kbdus_def kbdus_shift_def)

lemma key_in_code:
  assumes "key_in table c = Some k" and "length table = 256" and "table ! 42 = NUL" and "c \<noteq> NUL"
  shows "k \<noteq> 0" "k AND 0x80 = 0" "(k OR 0x80) AND 0x80 \<noteq> 0" "(k OR 0x80) AND 0x7F = k" "k OR 0x80 \<noteq> 0"
    "table ! unat k = c" "k \<noteq> 0x2A"
proof -
  from assms(1,2) obtain i where i: "i \<in> set [1..<128]" "k = of_nat i" "table ! i = c" by (rule key_in_cases)
  note kc = bspec [OF key_codes i(1)]
  show "k \<noteq> 0" "k AND 0x80 = 0" "(k OR 0x80) AND 0x80 \<noteq> 0" "(k OR 0x80) AND 0x7F = k" "k OR 0x80 \<noteq> 0"
    "table ! unat k = c" using kc i(2,3) by simp_all
  then show "k \<noteq> 0x2A" using assms(3,4) by auto
qed

primrec typed_text :: "nat \<Rightarrow> bool \<Rightarrow> u8 list \<Rightarrow> string" where
  "typed_text 0 sh cs = []"
| "typed_text (Suc n) sh cs = (case next_char sh cs of (c, sh, cs) \<Rightarrow>
     if c = NUL then typed_text n sh cs else c # typed_text n sh cs)"

lemma read_chars_text:
  assumes "kb_holds kb sh cs" and "length cs < 128"
  shows "\<exists>kb'. read_chars n kb = Inr (typed_text n sh cs, kb')"
  using assms
proof (induction n arbitrary: kb sh cs)
  case (Suc n)
  obtain c sh' cs' where nc: "next_char sh cs = (c, sh', cs')" by (cases "next_char sh cs") auto
  from getchar_next [OF Suc.prems nc] obtain kb1 where kb1: "getchar_async kb = Inr (c, kb1)" "kb_holds kb1 sh' cs'" by blast
  with Suc.IH [OF kb1(2)] next_char_length [OF nc] Suc.prems(2) show ?case by (auto simp: nc)
qed simp

lemma typed_text_release:
  assumes "(k OR 0x80) AND 0x80 \<noteq> 0" "(k OR 0x80) AND 0x7F = k" "k OR 0x80 \<noteq> 0"
  shows "typed_text n sh ((k OR 0x80) # cs) = typed_text n (sh \<and> k \<noteq> 0x2A) cs"
  using assms by (cases n) simp_all

lemma typed_text_empty: "typed_text n sh [] = []"
  by (induction n arbitrary: sh) simp_all

lemma typed_text_keystrokes:
  assumes "typeable c" and "length (keystrokes c) \<le> n"
  shows "\<exists>m. n \<le> m + length (keystrokes c) \<and> typed_text n False (keystrokes c @ cs) = c # typed_text m False cs"
proof (cases "key_in kbdus c")
  case (Some k)
  note k = key_in_code [OF Some _ shift_key(1)]
  from assms Some obtain m where n: "n = Suc m" by (cases n) (auto simp: keystrokes_def press_release_def)
  show ?thesis
    using k assms(1) Some
    by (intro exI [of _ m]) (simp add: n typeable_def keystrokes_def press_release_def typed_text_release Let_def)
next
  case None
  with assms(1) obtain k where S: "key_in kbdus_shift c = Some k" by (auto simp: typeable_def)
  note k = key_in_code [OF S _ shift_key(2)]
  from assms(2) None S obtain m where n: "n = Suc (Suc m)"
    by (cases n; cases "n - 1") (auto simp: keystrokes_def press_release_def)
  have "typed_text m True ((k OR 0x80) # 0xAA # cs) = typed_text m False cs"
    using k assms(1) typed_text_release [of "0x2A" m True cs] by (simp add: typeable_def typed_text_release)
  then show ?thesis
    using k assms(1) None S
    by (intro exI [of _ m]) (simp add: n typeable_def keystrokes_def press_release_def Let_def shift_key)
qed

lemma typed_text_all:
  "\<forall>c \<in> set s. typeable c \<Longrightarrow> length (concat (map keystrokes s)) \<le> n \<Longrightarrow>
     typed_text n False (concat (map keystrokes s)) = s"
proof (induction s arbitrary: n)
  case (Cons c s)
  from typed_text_keystrokes [of c n "concat (map keystrokes s)"] Cons.prems obtain m where
    m: "n \<le> m + length (keystrokes c)" "typed_text n False (concat (map keystrokes (c # s))) =
      c # typed_text m False (concat (map keystrokes s))" by auto
  with Cons show ?case by simp
qed (simp add: typed_text_empty)

section \<open>Properties\<close>

lemma kb_holds_initial: "kb_holds keyboard_initial False []"
  by (simp add: kb_holds_def keyboard_initial_def kb_inv_def kb_codes_def)

text \<open>\<open>recieve_scancode\<close> for a sequence of codes, from an empty queue.\<close>

lemma recieve_all:
  assumes "length cs \<le> 128" and "kb_holds kb sh []"
  shows "\<exists>kb'. fold_r recieve_scancode cs kb = Inr kb' \<and> kb_holds kb' sh cs"
proof -
  have "mod_shift_set kb' = sh" if "fold_r recieve_scancode cs kb = Inr kb'" for kb'
    by (rule fold_r_invariant [OF that, of "\<lambda>kb. mod_shift_set kb = sh"])
      (use assms(2) in \<open>auto simp: kb_holds_def recieve_scancode_def store_queue_def bind_r_eq_Inr\<close>)
  moreover have "kb_inv kb" "kb_codes kb = []" using assms(2) by (simp_all add: kb_holds_def)
  ultimately show ?thesis
    using kb_queue.fill [of kb cs] assms(1) by (auto simp: kb_holds_def)
qed

text \<open>C18. What is typed is what is read: pressing and releasing the keys of any text of the two tables
  (with the left shift key around those that only the second has), at most 127 codes, and reading
  as often as there are codes gives back the text.\<close>

theorem keyboard_types_text:
  assumes "\<forall>c \<in> set s. typeable c" and "length (concat (map keystrokes s)) < 128"
  shows "\<exists>kb kb'. fold_r recieve_scancode (concat (map keystrokes s)) keyboard_initial = Inr kb \<and>
    read_chars (length (concat (map keystrokes s))) kb = Inr (s, kb')"
proof -
  let ?cs = "concat (map keystrokes s)"
  from recieve_all [OF _ kb_holds_initial, of ?cs] assms(2) obtain kb where
    kb: "fold_r recieve_scancode ?cs keyboard_initial = Inr kb" "kb_holds kb False ?cs" by auto
  from read_chars_text [OF kb(2) assms(2), of "length ?cs"] obtain kb' where "read_chars (length ?cs) kb = Inr (s, kb')"
    using typed_text_all [OF assms(1) order_refl] by auto
  with kb(1) show ?thesis by blast
qed

theorem keyboard_types_text_witness:
  "\<exists>kb kb'. fold_r recieve_scancode [0x23, 0xA3, 0x2A, 0x17, 0x97, 0xAA] keyboard_initial = Inr kb \<and>
    read_chars 6 kb = Inr (''hI'', kb')"
proof -
  have k: "keystrokes CHR ''h'' = [0x23, 0xA3]" "keystrokes CHR ''I'' = [0x2A, 0x17, 0x97, 0xAA]"
    by code_simp+
  have "typeable CHR ''h''" "typeable CHR ''I''" by code_simp+
  moreover have cs: "concat (map keystrokes ''hI'') = [0x23, 0xA3, 0x2A, 0x17, 0x97, 0xAA]" by (simp add: k)
  ultimately show ?thesis
    using keyboard_types_text [of "''hI''"] by (simp add: eval_nat_numeral del: read_chars.simps fold_r.simps)
qed

text \<open>A full queue cannot be read: the queue takes 128 codes; then another code fails the assertion,
  and reading a character stores at index 128 of the array of 128 bytes.\<close>

theorem keyboard_full_queue:
  assumes "length cs = 128"
  shows "\<exists>kb. fold_r recieve_scancode cs keyboard_initial = Inr kb \<and> recieve_scancode kb x = Inl Assertion_failed \<and>
    getchar_async kb = Inl Out_of_bounds"
proof -
  from recieve_all [OF _ kb_holds_initial, of cs] assms(1) obtain kb where
    kb: "fold_r recieve_scancode cs keyboard_initial = Inr kb" "kb_holds kb False cs" by auto
  then have n: "unat (scancode_queue_sz kb) = 128" and q: "length (scancode_queue kb) = 128"
    using assms(1) kb_codes_length [of kb] by (auto simp: kb_holds_def kb_inv_def)
  then have sz: "scancode_queue_sz kb = 128" by (simp add: word_unat_eq_iff)
  have "scancode_queue_pop kb = Inl Out_of_bounds"
    by (simp add: scancode_queue_pop_def queue_empty_def sz Let_def move_down_def store_queue_def q)
  then have "getchar_async kb = Inl Out_of_bounds"
    by (subst getchar_async.simps) (simp add: read_scancode_def queue_empty_def sz)
  moreover have "recieve_scancode kb x = Inl Assertion_failed"
    by (simp add: recieve_scancode_def scancode_queue_max_def sz)
  ultimately show ?thesis using kb(1) by blast
qed

theorem keyboard_full_queue_witness:
  "\<exists>kb. fold_r recieve_scancode (replicate 128 0x1E) keyboard_initial = Inr kb \<and> getchar_async kb = Inl Out_of_bounds"
  using keyboard_full_queue [of "replicate 128 0x1E"] by auto

end
