(* ===== verification/Debugger.thy ===== *)
theory Debugger
  imports Drivers Scheduling Keyboard Pmm
begin

text \<open>
  The kernel debugger, src/lobo/debug/kernel_debugger.cpp: a command line read from the keyboard and
  the commands it runs.  The input is the sequence of characters that the calls of
  \<open>getchar_async\<close> return (zero for no data); when it is used up the debugger is still waiting, which
  is the result \<open>None\<close>.  The line is compared up to its terminator, as \<open>strcmp\<close> does.
\<close>

record debug_state =
  kernel :: sched_state
  registry :: driver_registry
  drivers :: driver_heap

definition dlog :: "debug_state \<Rightarrow> log_call \<Rightarrow> debug_state" where
  "dlog d c = d\<lparr>kernel := (kernel d)\<lparr>sys := log_event (sys (kernel d)) c\<rparr>\<rparr>"

section \<open>The commands\<close>

definition on_sys :: "(kstate \<Rightarrow> kpanic + kstate) \<Rightarrow> debug_state \<Rightarrow> kpanic + debug_state" where
  "on_sys f d = bind_r (f (sys (kernel d))) (\<lambda>s. Inr (d\<lparr>kernel := (kernel d)\<lparr>sys := s\<rparr>\<rparr>))"

definition cmd_drivers_count :: "debug_state \<Rightarrow> kpanic + debug_state" where
  "cmd_drivers_count d =
     Inr (dlog d (Log ''drvreg'' ''%d Drivers loaded'' [IntArg (list_size (driver_list (registry d)))]))"

definition cmd_drivers_list :: "debug_state \<Rightarrow> kpanic + debug_state" where
  "cmd_drivers_list d =
     bind_r (for_each (\<lambda>d drv. bind_r (assert (drv \<noteq> 0)) (\<lambda>_.
               Inr (dlog d (LogRaw ''%s '' [StrArg (m_name (drivers d drv))]))))
             (list_heap (kernel d)) (driver_list (registry d)) d) (\<lambda>d.
     Inr (dlog d (LogRaw [CHR 0x0A] [])))"

definition state_name :: "TCBState \<Rightarrow> string" where
  "state_name st = (case st of Dead \<Rightarrow> ''Dead'' | Waiting \<Rightarrow> ''Waiting'' | Ready \<Rightarrow> ''Ready'' | Running \<Rightarrow> ''Running'')"

text \<open>The two loops over the threads read through each node's pointer.\<close>

definition count_schedulable :: "debug_state \<Rightarrow> kpanic + u32" where
  "count_schedulable d =
     for_each (\<lambda>n t. bind_r (guard Null_dereference (t \<noteq> 0)) (\<lambda>_.
         Inr (if state (tcbs (kernel d) t) = Ready \<or> state (tcbs (kernel d) t) = Running then n + 1 else n)))
       (list_heap (kernel d)) (threads (sched (kernel d))) 0"

definition log_thread :: "debug_state \<Rightarrow> u64 \<Rightarrow> kpanic + debug_state" where
  "log_thread d t =
     bind_r (guard Null_dereference (t \<noteq> 0)) (\<lambda>_.
     let tcb = tcbs (kernel d) t in
     Inr (dlog d (Log ''sched'' ''| %7d | %7d | %-20s | %7s |''
       [IntArg (thread_taskID tcb), IntArg (threadID tcb), StrArg (threadName tcb), StrArg (state_name (state tcb))])))"

definition cmd_threads :: "debug_state \<Rightarrow> kpanic + debug_state" where
  "cmd_threads d =
     bind_r (count_schedulable d) (\<lambda>numSchedulable.
     let d = dlog d (Log ''sched'' ''%d threads, %d schedulable''
               [IntArg (list_size (threads (sched (kernel d)))), IntArg (scast numSchedulable)]);
         d = dlog d (Log ''sched'' ''| %7s | %7s | %-20s | %7s |''
               [StrArg ''Task ID'', StrArg ''TID'', StrArg ''Thread Name'', StrArg ''State''])
     in for_each log_thread (list_heap (kernel d)) (threads (sched (kernel d))) d)"

definition commands :: "(string \<times> (debug_state \<Rightarrow> kpanic + debug_state)) list" where
  "commands =
     [(''pmm/free'', on_sys debug_print_free_memory),
      (''pmm/freepages'', on_sys debug_print_free_pages),
      (''drivers/count'', cmd_drivers_count),
      (''drivers/list'', cmd_drivers_list),
      (''threads'', cmd_threads)]"

section \<open>The line editor\<close>

record line_state =
  input_buffer :: string
  input_index :: int

definition line_initial :: line_state where
  "line_initial = \<lparr>input_buffer = replicate 100 NUL, input_index = 0\<rparr>"

definition store_input :: "line_state \<Rightarrow> char \<Rightarrow> kpanic + line_state" where
  "store_input l c =
     bind_r (guard Out_of_bounds (0 \<le> input_index l \<and> nat (input_index l) < length (input_buffer l))) (\<lambda>_.
     Inr (l\<lparr>input_buffer := (input_buffer l)[nat (input_index l) := c]\<rparr>))"

text \<open>One character that is not the end of the line.\<close>

definition edit :: "line_state \<times> debug_state \<Rightarrow> char \<Rightarrow> kpanic + (line_state \<times> debug_state)" where
  "edit s c = (case s of (l, d) \<Rightarrow>
     if c = CHR 0x08 then
       let d = dlog d (WriteChar (CHR 0x08)) in
       bind_r (store_input l NUL) (\<lambda>l.
       let l = l\<lparr>input_index := input_index l - 1\<rparr> in
       Inr (if input_index l < 0 then l\<lparr>input_index := 0\<rparr> else l, d))
     else if c = NUL then Inr (l, d)
     else
       let l = (if input_index l > 98 then l\<lparr>input_index := 98\<rparr> else l) in
       bind_r (store_input l c) (\<lambda>l.
       Inr (l\<lparr>input_index := input_index l + 1\<rparr>, dlog d (WriteChar c))))"

fun input_loop :: "line_state \<times> debug_state \<Rightarrow> string \<Rightarrow> kpanic + (line_state \<times> debug_state \<times> string) option" where
  "input_loop s [] = Inr None"
| "input_loop s (c # input) =
     (if c = CHR 0x0A then Inr (Some (fst s, dlog (snd s) (WriteChar c), input))
      else bind_r (edit s c) (\<lambda>s. input_loop s input))"

definition command_line :: "line_state \<Rightarrow> string" where
  "command_line l = c_str (input_buffer l) 0"

section \<open>The debugger\<close>

definition print_help :: "debug_state \<Rightarrow> debug_state" where
  "print_help d = foldl dlog d
     [Log ''debug'' ''Command List:'' [],
      Log ''debug'' ''pmm: pmm/free, pmm/freepages,'' [],
      Log ''debug'' ''drivers: drivers/count, drivers/list'' [],
      Log ''debug'' ''scheduler: threads'' [],
      Log ''debug'' ''debugger: help, exit'' []]"

definition run_command :: "debug_state \<Rightarrow> string \<Rightarrow> kpanic + debug_state" where
  "run_command d cmd = (case find (\<lambda>c. cmd = fst c) commands of
     Some func \<Rightarrow> snd func d
   | None \<Rightarrow> Inr (dlog d (Log ''debug'' ''Invalid command \"%s\"'' [StrArg cmd])))"

lemma input_loop_shorter: "input_loop s input = Inr (Some (l, d, rest)) \<Longrightarrow> length rest < length input"
  by (induction s input rule: input_loop.induct) (auto simp: bind_r_eq_Inr less_Suc_eq split: if_splits)

function prompt_loop :: "bool \<Rightarrow> debug_state \<Rightarrow> string \<Rightarrow> kpanic + (debug_state \<times> string) option" where
  "prompt_loop wasSchedulingEnabled d input =
     bind_r (input_loop (line_initial, dlog d (LogRaw ''  debug => '' [])) input) (\<lambda>r. case r of
       None \<Rightarrow> Inr None
     | Some (l, d, rest) \<Rightarrow>
         if command_line l = ''exit'' then
           Inr (Some (if wasSchedulingEnabled then d\<lparr>kernel := EnableScheduling (kernel d)\<rparr> else d, rest))
         else if command_line l = ''help'' then prompt_loop wasSchedulingEnabled (print_help d) rest
         else bind_r (run_command d (command_line l)) (\<lambda>d. prompt_loop wasSchedulingEnabled d rest))"
  by pat_completeness auto
termination
  by (relation "measure (\<lambda>(w, d, input). length input)") (auto dest: input_loop_shorter)

definition debugger_enter :: "debug_state \<Rightarrow> string \<Rightarrow> kpanic + (debug_state \<times> string) option" where
  "debugger_enter d input =
     (let wasSchedulingEnabled = schedulingEnabled (sched (kernel d));
          d = d\<lparr>kernel := DisableScheduling (kernel d)\<rparr>;
          d = dlog d (Log ''debug'' ''Entered kernel debugger!'' [])
      in prompt_loop wasSchedulingEnabled d input)"

section \<open>The buffer stays in bounds\<close>

definition line_ok :: "line_state \<Rightarrow> bool" where
  "line_ok l \<longleftrightarrow> length (input_buffer l) = 100 \<and> 0 \<le> input_index l \<and> input_index l \<le> 99 \<and> input_buffer l ! 99 = NUL"

lemma line_ok_initial: "line_ok line_initial"
  by (simp add: line_ok_def line_initial_def)

lemma store_input_ok:
  assumes "length (input_buffer l) = 100" and "0 \<le> input_index l" and "input_index l \<le> 99"
  shows "store_input l c = Inr (l\<lparr>input_buffer := (input_buffer l)[nat (input_index l) := c]\<rparr>)"
  using assms by (simp add: store_input_def nat_less_iff)

lemma edit_ok:
  assumes "line_ok l"
  shows "\<exists>l' d'. edit (l, d) c = Inr (l', d') \<and> line_ok l'"
proof -
  have len: "length (input_buffer l) = 100" and i: "0 \<le> input_index l" "input_index l \<le> 99" and z: "input_buffer l ! 99 = NUL"
    using assms by (simp_all add: line_ok_def)
  consider "c = CHR 0x08" | "c = NUL" | "c \<noteq> CHR 0x08" "c \<noteq> NUL" by blast
  then show ?thesis
  proof cases
    case 1
    then show ?thesis using len i z
      by (simp add: edit_def store_input_ok Let_def) (simp add: line_ok_def nth_list_update)
  next
    case 3
    then show ?thesis using len i z
      by (simp add: edit_def store_input_ok Let_def) (auto simp: line_ok_def nth_list_update)
  qed (use assms in \<open>simp add: edit_def\<close>)
qed

lemma input_loop_ok:
  assumes "line_ok l" and "CHR 0x0A \<notin> set cs"
  shows "\<exists>l' d'. fold_r edit cs (l, d) = Inr (l', d') \<and> line_ok l' \<and>
    input_loop (l, d) (cs @ CHR 0x0A # rest) = Inr (Some (l', dlog d' (WriteChar (CHR 0x0A)), rest))"
  using assms
proof (induction cs arbitrary: l d)
  case (Cons c cs)
  from edit_ok [OF Cons.prems(1)] obtain l1 d1 where e: "edit (l, d) c = Inr (l1, d1)" "line_ok l1" by blast
  with Cons.IH [OF e(2), of d1] Cons.prems(2) show ?case by auto
qed simp

text \<open>The line after the characters \<open>pre\<close>, none of them special.\<close>

definition line_of :: "string \<Rightarrow> line_state" where
  "line_of pre = \<lparr>input_buffer = pre @ replicate (100 - length pre) NUL, input_index = int (length pre)\<rparr>"

lemma fold_edit_plain:
  assumes "length (pre @ cs) \<le> 99" and "set cs \<inter> {CHR 0x08, NUL} = {}"
  shows "\<exists>d'. fold_r edit cs (line_of pre, d) = Inr (line_of (pre @ cs), d')"
  using assms
proof (induction cs arbitrary: pre d)
  case (Cons c cs)
  have r: "100 - length pre = Suc (99 - length pre)" using Cons.prems(1) by simp
  have "edit (line_of pre, d) c = Inr (line_of (pre @ [c]), dlog d (WriteChar c))"
    using Cons.prems by (auto simp: edit_def line_of_def store_input_def r)
  with Cons.IH [of "pre @ [c]" "dlog d (WriteChar c)"] Cons.prems show ?case by auto
qed simp

lemma command_line_of:
  assumes "length pre \<le> 99" and "NUL \<notin> set pre"
  shows "command_line (line_of pre) = pre"
proof -
  have "replicate (100 - length pre) NUL = NUL # replicate (99 - length pre) NUL"
    using assms(1) by (simp flip: replicate_Suc add: Suc_diff_le)
  then show ?thesis using c_str_append [OF assms(2), of "[]"] by (simp add: command_line_def line_of_def)
qed

lemma edit_back:
  assumes "set pre \<inter> {CHR 0x08, NUL} = {}" and "length pre \<le> 99"
  shows "\<exists>l2 d2. edit (line_of pre, d) (CHR 0x08) = Inr (l2, d2) \<and> command_line l2 = pre"
proof -
  have r: "100 - length pre = Suc (99 - length pre)" using assms(2) by simp
  have z: "(replicate 100 NUL)[0 := NUL] = replicate 100 NUL" by (metis list_update_id nth_replicate zero_less_numeral)
  have "edit (line_of pre, d) (CHR 0x08) =
      Inr ((line_of pre)\<lparr>input_index := (if pre = [] then 0 else int (length pre) - 1)\<rparr>, dlog d (WriteChar (CHR 0x08)))"
    using assms(2) by (cases "pre = []") (simp_all add: edit_def line_of_def store_input_def r z Suc_le_eq)
  moreover have "command_line ((line_of pre)\<lparr>input_index := i\<rparr>) = pre" for i
    using command_line_of [of pre] assms by (simp add: command_line_def)
  ultimately show ?thesis by blast
qed

section \<open>The debugger only logs\<close>

definition logged :: "debug_state \<Rightarrow> debug_state \<Rightarrow> bool" where
  "logged d d' \<longleftrightarrow> (\<exists>cs. d' = d\<lparr>kernel := (kernel d)\<lparr>sys := (sys (kernel d))\<lparr>klog := klog (sys (kernel d)) @ cs\<rparr>\<rparr>\<rparr>)"

lemma logged_refl: "logged d d"
  unfolding logged_def by (rule exI [of _ "[]"]) simp

lemma logged_trans: "logged a b \<Longrightarrow> logged b c \<Longrightarrow> logged a c"
  unfolding logged_def by (elim exE) (rule_tac x = "cs @ csa" in exI, simp)

lemma logged_dlog: "logged d (dlog d c)"
  unfolding logged_def dlog_def log_event_def by (rule exI [of _ "[c]"]) simp

lemmas logged_step = logged_trans [OF _ logged_dlog]

lemma walk_nodes_invariant:
  assumes "walk_nodes body h itr s = Some r" and inv: "\<And>s v s'. body s v = Inr s' \<Longrightarrow> P s \<Longrightarrow> P s'"
  shows "P s \<longrightarrow> (\<forall>s'. r = Inr s' \<longrightarrow> P s')"
proof -
  have "body = body \<longrightarrow> P s \<longrightarrow> (\<forall>s'. r = Inr s' \<longrightarrow> P s')"
  proof (rule walk_nodes.raw_induct [OF _ assms(1), where P = "\<lambda>b h itr s r. b = body \<longrightarrow> P s \<longrightarrow> (\<forall>s'. r = Inr s' \<longrightarrow> P s')"])
    fix walk b h itr s r
    assume IH: "\<And>b h itr s r. walk b h itr s = Some r \<Longrightarrow> b = body \<longrightarrow> P s \<longrightarrow> (\<forall>s'. r = Inr s' \<longrightarrow> P s')"
      and step: "(if itr = list_end then Some (Inr s) else case b s (m_value (h itr)) of Inl e \<Rightarrow> Some (Inl e)
         | Inr s \<Rightarrow> walk b h (iterator_next h itr) s) = Some r"
    show "b = body \<longrightarrow> P s \<longrightarrow> (\<forall>s'. r = Inr s' \<longrightarrow> P s')"
    proof (cases "itr = list_end \<or> (\<exists>e. b s (m_value (h itr)) = Inl e)")
      case False
      then obtain s1 where s1: "itr \<noteq> list_end" "b s (m_value (h itr)) = Inr s1" by (cases "b s (m_value (h itr))") auto
      then have "walk b h (iterator_next h itr) s1 = Some r" using step by simp
      from IH [OF this] inv [of s "m_value (h itr)" s1] s1(2) show ?thesis by blast
    qed (use step in \<open>auto split: if_splits\<close>)
  qed
  then show ?thesis by simp
qed

lemma for_each_invariant:
  assumes "for_each body h l s = Inr s'" and "P s" and "\<And>s v s'. body s v = Inr s' \<Longrightarrow> P s \<Longrightarrow> P s'"
  shows "P s'"
proof -
  from assms(1) have "walk_nodes body h (list_begin l) s = Some (Inr s')"
    by (auto simp: for_each_def split: option.splits)
  then have "P s \<longrightarrow> (\<forall>t. Inr s' = (Inr t :: kpanic + 'a) \<longrightarrow> P t)"
    by (rule walk_nodes_invariant) (rule assms(3))
  with assms(2) show ?thesis by blast
qed

lemma logged_sys:
  assumes "sys (kernel d') = (sys (kernel d))\<lparr>klog := klog (sys (kernel d)) @ cs\<rparr>"
    and "d' = d\<lparr>kernel := (kernel d)\<lparr>sys := sys (kernel d')\<rparr>\<rparr>"
  shows "logged d d'"
  using assms unfolding logged_def by metis

lemma fold_log_event: "fold (\<lambda>c s. log_event s c) cs s = s\<lparr>klog := klog s @ cs\<rparr>"
  by (induction cs arbitrary: s) (simp_all add: log_event_def)

lemma run_command_logged:
  assumes "run_command d cmd = Inr d'"
  shows "logged d d'"
proof (cases "find (\<lambda>c. cmd = fst c) commands")
  case None
  then show ?thesis using assms by (auto simp: run_command_def logged_dlog)
next
  case (Some f)
  then have "snd f d = Inr d'" using assms by (simp add: run_command_def)
  moreover have "f \<in> set commands" using Some by (auto simp: find_Some_iff)
  ultimately consider "on_sys debug_print_free_memory d = Inr d' \<or> on_sys debug_print_free_pages d = Inr d'"
    | "cmd_drivers_count d = Inr d'" | "cmd_drivers_list d = Inr d'" | "cmd_threads d = Inr d'"
    by (auto simp: commands_def)
  then show ?thesis
  proof cases
    case 1
    then show ?thesis
      by (auto simp: on_sys_def debug_print_free_memory_def debug_print_free_pages_def bind_r_eq_Inr Let_def
          fold_log_event logged_def)
  next
    case 2
    then show ?thesis by (auto simp: cmd_drivers_count_def logged_dlog)
  next
    case 3
    then obtain d1 where d1: "for_each (\<lambda>d drv. bind_r (assert (drv \<noteq> 0)) (\<lambda>_.
        Inr (dlog d (LogRaw ''%s '' [StrArg (m_name (drivers d drv))])))) (list_heap (kernel d))
        (driver_list (registry d)) d = Inr d1" and d': "d' = dlog d1 (LogRaw [CHR 0x0A] [])"
      by (auto simp: cmd_drivers_list_def bind_r_eq_Inr)
    have "logged d d1"
      by (rule for_each_invariant [OF d1, where P = "logged d"])
        (auto simp: logged_refl bind_r_eq_Inr intro: logged_step)
    then show ?thesis unfolding d' by (rule logged_step)
  next
    case 4
    then obtain n where d1: "for_each log_thread (list_heap (kernel d)) (threads (sched (kernel d)))
      (dlog (dlog d (Log ''sched'' ''%d threads, %d schedulable''
               [IntArg (list_size (threads (sched (kernel d)))), IntArg (scast (n :: u32))]))
         (Log ''sched'' ''| %7s | %7s | %-20s | %7s |''
               [StrArg ''Task ID'', StrArg ''TID'', StrArg ''Thread Name'', StrArg ''State''])) = Inr d'"
      by (auto simp: cmd_threads_def bind_r_eq_Inr Let_def dlog_def)
    show ?thesis
      by (rule for_each_invariant [OF d1, where P = "logged d"])
        (auto simp: log_thread_def logged_refl bind_r_eq_Inr Let_def intro!: logged_step intro: logged_refl)
  qed
qed

lemma edit_logged: "edit (l, d) c = Inr (l', d') \<Longrightarrow> logged d d'"
  by (auto simp: edit_def bind_r_eq_Inr Let_def logged_refl logged_dlog split: if_splits)

lemma input_loop_logged: "input_loop (l, d) input = Inr (Some (l', d', rest)) \<Longrightarrow> logged d d'"
proof (induction input arbitrary: l d)
  case (Cons c input)
  show ?case
  proof (cases "c = CHR 0x0A")
    case False
    with Cons.prems obtain l1 d1 where e: "edit (l, d) c = Inr (l1, d1)" "input_loop (l1, d1) input = Inr (Some (l', d', rest))"
      by (auto simp: bind_r_eq_Inr)
    show ?thesis by (rule logged_trans [OF edit_logged [OF e(1)] Cons.IH [OF e(2)]])
  qed (use Cons.prems in \<open>auto simp: logged_dlog\<close>)
qed simp

lemma prompt_loop_logged:
  "prompt_loop w d input = Inr (Some (d', rest)) \<Longrightarrow>
     \<exists>e. logged d e \<and> d' = (if w then e\<lparr>kernel := EnableScheduling (kernel e)\<rparr> else e)"
proof (induction w d input rule: prompt_loop.induct)
  case (1 w d input)
  let ?d = "dlog d (LogRaw ''  debug => '' [])"
  from "1.prems" obtain l d1 rest1 where i: "input_loop (line_initial, ?d) input = Inr (Some (l, d1, rest1))"
    by (subst (asm) prompt_loop.simps) (auto simp: bind_r_eq_Inr split: option.splits)
  have d1: "logged d d1" by (rule logged_trans [OF logged_dlog input_loop_logged [OF i]])
  show ?case
  proof (cases "command_line l = ''exit''")
    case True
    then show ?thesis using "1.prems" i d1 by (subst (asm) prompt_loop.simps) auto
  next
    case False
    obtain d2 where d2: "logged d1 d2" and "prompt_loop w d2 rest1 = Inr (Some (d', rest)) \<Longrightarrow>
        \<exists>e. logged d2 e \<and> d' = (if w then e\<lparr>kernel := EnableScheduling (kernel e)\<rparr> else e)"
      and "prompt_loop w d2 rest1 = Inr (Some (d', rest))"
    proof (cases "command_line l = ''help''")
      case True
      then show thesis
        using that [of "print_help d1"] "1.IH"(1) [of "Some (l, d1, rest1)" "(l, d1, rest1)" l "(d1, rest1)" d1 rest1] "1.prems" i False
        by (subst (asm) prompt_loop.simps) (auto simp: print_help_def intro!: logged_step logged_dlog)
    next
      case no: False
      with "1.prems" i False obtain d2 where d2: "run_command d1 (command_line l) = Inr d2"
        by (subst (asm) prompt_loop.simps) (auto simp: bind_r_eq_Inr)
      with "1.prems" i False no have r: "prompt_loop w d2 rest1 = Inr (Some (d', rest))"
        by (subst (asm) prompt_loop.simps) simp
      show thesis
        using that [OF run_command_logged [OF d2] _ r] "1.IH"(2) [OF i _ _ _ False no d2] by simp
    qed
    then show ?thesis using logged_trans [OF d1 d2] logged_trans by blast
  qed
qed

section \<open>Properties\<close>

text \<open>C24. The line editor is safe and reads what is typed, but does not erase: for every input the line is
  read without a store outside the buffer of 100 bytes; up to 99 characters without backspace are
  the command; and a backspace after them leaves the command as it was, since it clears the byte
  after the last character.\<close>

theorem debugger_reads_line:
  assumes "CHR 0x0A \<notin> set cs"
  shows "\<exists>l d'. input_loop (line_initial, d) (cs @ CHR 0x0A # rest) = Inr (Some (l, d', rest)) \<and>
    length (input_buffer l) = 100 \<and> input_buffer l ! 99 = NUL \<and>
    (set cs \<inter> {CHR 0x08, NUL} = {} \<and> length cs \<le> 99 \<longrightarrow> command_line l = cs \<and>
     (\<exists>l2 d2. input_loop (line_initial, d) (cs @ [CHR 0x08, CHR 0x0A] @ rest) = Inr (Some (l2, d2, rest)) \<and>
        command_line l2 = cs))"
proof -
  obtain l d' where run: "fold_r edit cs (line_initial, d) = Inr (l, d')" "line_ok l"
      "input_loop (line_initial, d) (cs @ CHR 0x0A # rest) = Inr (Some (l, dlog d' (WriteChar (CHR 0x0A)), rest))"
    using input_loop_ok [OF line_ok_initial assms] by blast
  have plain: "command_line l = cs \<and> (\<exists>l2 d2. input_loop (line_initial, d) (cs @ [CHR 0x08, CHR 0x0A] @ rest) =
      Inr (Some (l2, d2, rest)) \<and> command_line l2 = cs)"
    if cs: "set cs \<inter> {CHR 0x08, NUL} = {}" "length cs \<le> 99"
  proof -
    have init: "line_initial = line_of []" by (simp add: line_initial_def line_of_def)
    obtain d1 where d1: "fold_r edit cs (line_initial, d) = Inr (line_of cs, d1)"
      using fold_edit_plain [of "[]" cs] cs by (auto simp: init)
    then have "l = line_of cs" using run(1) by simp
    moreover have "command_line (line_of cs) = cs" using cs by (intro command_line_of) auto
    moreover obtain l2 d2 where e: "edit (line_of cs, d1) (CHR 0x08) = Inr (l2, d2)" "command_line l2 = cs"
      using edit_back [OF cs] by blast
    have "fold_r edit (cs @ [CHR 0x08]) (line_initial, d) = Inr (l2, d2)"
      by (simp add: fold_r_append d1 e)
    with input_loop_ok [OF line_ok_initial, of "cs @ [CHR 0x08]" d rest] assms
    have "input_loop (line_initial, d) ((cs @ [CHR 0x08]) @ CHR 0x0A # rest) =
        Inr (Some (l2, dlog d2 (WriteChar (CHR 0x0A)), rest))" by auto
    ultimately show ?thesis using e(2) by auto
  qed
  show ?thesis using run(2,3) plain by (auto simp: line_ok_def)
qed

lemma exit_leaves: "\<exists>d'. prompt_loop w d (''exit'' @ CHR 0x0A # rest) = Inr (Some (d', rest))"
proof -
  let ?d = "dlog d (LogRaw ''  debug => '' [])"
  have init: "line_initial = line_of []" by (simp add: line_initial_def line_of_def)
  obtain l d1 where run: "fold_r edit ''exit'' (line_initial, ?d) = Inr (l, d1)"
      "input_loop (line_initial, ?d) (''exit'' @ CHR 0x0A # rest) = Inr (Some (l, dlog d1 (WriteChar (CHR 0x0A)), rest))"
    using input_loop_ok [OF line_ok_initial, of "''exit''" ?d rest] by auto
  moreover obtain d2 where "fold_r edit ''exit'' (line_initial, ?d) = Inr (line_of ''exit'', d2)"
    using fold_edit_plain [of "[]" "''exit''" ?d] by (auto simp: init)
  ultimately have "command_line l = ''exit''" using command_line_of [of "''exit''"] by simp
  with run(2) show ?thesis by (subst prompt_loop.simps) simp
qed

definition sample_debug :: debug_state where
  "sample_debug = \<lparr>kernel = sample_sched, registry = registry_initial, drivers = (\<lambda>_. \<lparr>m_name = [], m_type = IN_KERNEL\<rparr>)\<rparr>"

theorem debugger_reads_line_witness:
  "\<exists>l d'. input_loop (line_initial, sample_debug) ''exitx'' = Inr None \<and>
    input_loop (line_initial, sample_debug) (''exitx'' @ [CHR 0x08, CHR 0x0A]) = Inr (Some (l, d', [])) \<and> command_line l = ''exitx''"
proof -
  have "input_loop (line_initial, sample_debug) ''exitx'' = Inr None"
    by (simp add: edit_def line_initial_def store_input_def)
  then show ?thesis using debugger_reads_line [of "''exitx''" sample_debug "[]"] by auto
qed

text \<open>C25. The debugger only reads the kernel: when it is left, whatever was typed, the state is the one it
  was entered with, the scheduling as enabled as it was, except for lines appended to the log.\<close>

theorem debugger_only_logs:
  assumes "debugger_enter d input = Inr (Some (d', rest))"
  shows "\<exists>cs. d' = d\<lparr>kernel := (kernel d)\<lparr>sys := (sys (kernel d))\<lparr>klog := klog (sys (kernel d)) @ cs\<rparr>\<rparr>\<rparr>"
proof -
  let ?w = "schedulingEnabled (sched (kernel d))"
  let ?d = "d\<lparr>kernel := DisableScheduling (kernel d)\<rparr>"
  have "prompt_loop ?w (dlog ?d (Log ''debug'' ''Entered kernel debugger!'' [])) input = Inr (Some (d', rest))"
    using assms by (simp add: debugger_enter_def Let_def)
  from prompt_loop_logged [OF this] obtain e where
    e: "logged ?d e" and d': "d' = (if ?w then e\<lparr>kernel := EnableScheduling (kernel e)\<rparr> else e)"
    using logged_trans [OF logged_dlog] by blast
  from e obtain cs where
    "e = ?d\<lparr>kernel := (kernel ?d)\<lparr>sys := (sys (kernel ?d))\<lparr>klog := klog (sys (kernel ?d)) @ cs\<rparr>\<rparr>\<rparr>"
    by (auto simp: logged_def)
  then show ?thesis unfolding d'
    by (intro exI [of _ cs]) (cases ?w; simp add: EnableScheduling_def DisableScheduling_def)
qed

theorem debugger_only_logs_witness:
  "\<exists>d' cs. debugger_enter sample_debug (''exit'' @ [CHR 0x0A]) = Inr (Some (d', [])) \<and>
    klog (sys (kernel d')) = klog (sys (kernel sample_debug)) @ cs"
proof -
  obtain d' where "debugger_enter sample_debug (''exit'' @ [CHR 0x0A]) = Inr (Some (d', []))"
    using exit_leaves [of _ _ "[]"] unfolding debugger_enter_def Let_def by blast
  with debugger_only_logs [OF this] show ?thesis by auto
qed

end
