(* ===== verification/Interrupts.thy ===== *)
theory Interrupts
  imports Scheduling Keyboard
begin

text \<open>
  Interrupts: src/lobo/arch/x86_64/interrupts.cpp with include/kernel/arch/x86_64/interrupts.h and
  interrupt_methods.h.  The addresses of the assembly entry points are the two parameters \<open>isr\<close> and
  \<open>irq\<close>; port reads are a parameter, port writes a trace.  \<open>HaltCPU\<close> ends the handler: the
  processor stops with interrupts disabled.
\<close>

section \<open>The data\<close>

record IDTTableEntry =
  offset_low :: u16
  cs_selector :: u16
  ist :: u8
  attributes :: u8
  offset_mid :: u16
  offset_hi :: u32
  zero_2 :: u32

record IDTTablePointer =
  limit :: u16
  address :: u64

record InterruptContext =
  c_r15 :: u64  c_r14 :: u64  c_r13 :: u64  c_r12 :: u64
  c_r11 :: u64  c_r10 :: u64  c_r9 :: u64  c_r8 :: u64
  c_rdi :: u64  c_rsi :: u64  c_rbp :: u64  c_rbx :: u64
  c_rdx :: u64  c_rcx :: u64  c_rax :: u64
  int_no :: u64  err_code :: u64
  c_rip :: u64  c_cs :: u64  c_eflags :: u64  c_userrsp :: u64  c_ss :: u64

text \<open>What the handlers do in order: the bytes written to ports, and the calls of the scheduler with the
  interrupt flag at the call.\<close>

datatype io_event = Out u16 u8 | Schedule_call bool

record int_state =
  kern :: sched_state
  kbd :: keyboard
  table_idt :: "IDTTableEntry list"
  table_idt_ptr :: IDTTablePointer
  idtr :: u64
  io :: "io_event list"

fun written :: "io_event list \<Rightarrow> (u16 \<times> u8) list" where
  "written [] = []"
| "written (Out p v # es) = (p, v) # written es"
| "written (Schedule_call b # es) = written es"

definition port_writes :: "int_state \<Rightarrow> (u16 \<times> u8) list" where
  "port_writes st = written (io st)"

text \<open>\<open>sizeof(idt_table_entry_t)\<close>: the struct is packed.\<close>

definition IDT_ENTRY_SIZE :: nat where "IDT_ENTRY_SIZE = 2 + 2 + 1 + 1 + 2 + 4 + 4"

definition zero_entry :: IDTTableEntry where
  "zero_entry = \<lparr>offset_low = 0, cs_selector = 0, ist = 0, attributes = 0, offset_mid = 0, offset_hi = 0, zero_2 = 0\<rparr>"

definition exception_strings :: "string list" where
  "exception_strings =
     [''Divide By Zero'', ''Debug'', ''NMI'', ''Breakpoint'', ''Overflow'', ''Bound Range Exceeded'',
      ''Invalid Opcode'', ''Device Not Avalable'', ''Double Falt'', ''Coprocessor Segment Overrun'',
      ''Invalid TSS'', ''Segment Not Present'', ''Stack-Segment Fault'', ''General Protection Fault'',
      ''Page Fault'', ''Reserved'', ''x87 Floating-Point Exception'', ''Alignment Check'', ''Machine Check'',
      ''SIMD Floating-Point Exception'', ''Virtualization Exception'', ''Reserved'', ''Reserved'', ''Reserved'',
      ''Reserved'', ''Reserved'', ''Reserved'', ''Reserved'', ''Reserved'', ''Security Exception'', ''Reserved'']"

section \<open>Effects\<close>

definition ilog :: "int_state \<Rightarrow> log_call \<Rightarrow> int_state" where
  "ilog st c = st\<lparr>kern := (kern st)\<lparr>sys := log_event (sys (kern st)) c\<rparr>\<rparr>"

definition outb :: "int_state \<Rightarrow> u16 \<Rightarrow> u8 \<Rightarrow> int_state" where
  "outb st port v = st\<lparr>io := io st @ [Out port v]\<rparr>"

lemma written_append [simp]: "written (es @ fs) = written es @ written fs"
  by (induction es rule: written.induct) simp_all

lemma outb_writes [simp]: "port_writes (outb st p v) = port_writes st @ [(p, v)]"
  by (simp add: port_writes_def outb_def)

definition set_if :: "int_state \<Rightarrow> bool \<Rightarrow> int_state" where
  "set_if st b = st\<lparr>kern := (kern st)\<lparr>sys := (sys (kern st))\<lparr>if_flag := b\<rparr>\<rparr>\<rparr>"

section \<open>Faults\<close>

definition register_lines :: "InterruptContext \<Rightarrow> log_call list" where
  "register_lines r =
     [Log ''fault'' ''RBP:0x%016p RSP:0x%016p RIP:0x%016p'' [IntArg (c_rbp r), IntArg (c_userrsp r), IntArg (c_rip r)],
      Log ''fault'' ''RAX:0x%016p RBX:0x%016p RCX:0x%016p'' [IntArg (c_rax r), IntArg (c_rbx r), IntArg (c_rcx r)],
      Log ''fault'' ''RDX:0x%016p RDI:0x%016p RSI:0x%016p'' [IntArg (c_rdx r), IntArg (c_rdi r), IntArg (c_rsi r)],
      Log ''fault'' '' R8:0x%016p  R9:0x%016p R10:0x%016p'' [IntArg (c_r8 r), IntArg (c_r9 r), IntArg (c_r10 r)],
      Log ''fault'' ''R11:0x%016p R12:0x%016p R13:0x%016p'' [IntArg (c_r11 r), IntArg (c_r12 r), IntArg (c_r13 r)],
      Log ''fault'' ''R14:0x%016p R15:0x%016p'' [IntArg (c_r14 r), IntArg (c_r15 r)]]"

text \<open>The flag of the result says that the processor was halted.\<close>

definition fault_handler :: "u64 \<Rightarrow> int_state \<Rightarrow> InterruptContext \<Rightarrow> kpanic + (int_state \<times> bool)" where
  "fault_handler cr2 st r =
     (let st = ilog st (Log ''int'' ''Caught an interrupt! %d, error %p'' [IntArg (int_no r), IntArg (err_code r)]) in
      if int_no r < 32 then
        let st = ilog st (LogRaw (''%35sException'' @ [CHR 0x0A]) [StrArg []]) in
        bind_r (guard Out_of_bounds (unat (int_no r) < length exception_strings)) (\<lambda>_.
        let st = ilog st (Log ''fault'' ''%s (int %d), Error Code: 0x%08x''
                   [StrArg (exception_strings ! unat (int_no r)), IntArg (int_no r), IntArg (ucast (ucast (err_code r) :: u32))]);
            st = foldl ilog st (register_lines r);
            st = (if int_no r = 14
                  then ilog st (Log ''fault'' (''Faulting address: 0x%016p'' @ [CHR 0x0A]) [IntArg cr2]) else st)
        in Inr (set_if st False, True))
      else Inr (st, False))"

section \<open>Interrupt requests\<close>

text \<open>The command that ends an interrupt, to the slave controller for its lines and to the master.\<close>

definition send_eoi :: "int_state \<Rightarrow> u64 \<Rightarrow> int_state" where
  "send_eoi st n = (let st = (if n \<ge> 40 then outb st 0xA0 0x20 else st) in outb st 0x20 0x20)"

definition call_schedule :: "u64 \<Rightarrow> int_state \<Rightarrow> kpanic + int_state" where
  "call_schedule ret_addr st =
     (let st = st\<lparr>io := io st @ [Schedule_call (if_flag (sys (kern st)))]\<rparr> in
      bind_r (Schedule ret_addr (kern st)) (\<lambda>k. Inr (st\<lparr>kern := k\<rparr>)))"

definition interrupt_handler :: "(u16 \<Rightarrow> u8) \<Rightarrow> u64 \<Rightarrow> int_state \<Rightarrow> InterruptContext \<Rightarrow> kpanic + int_state" where
  "interrupt_handler inb ret_addr st r =
     (let n = int_no r in
      bind_r
        (if n = 32 then
           let st = send_eoi st n; st = set_if st True in
           bind_r (call_schedule ret_addr st) (\<lambda>st. Inr (st, True))
         else if n = 33 then
           bind_r (on_interrupt inb (kbd st)) (\<lambda>k. Inr (st\<lparr>kbd := k\<rparr>, False))
         else
           Inr (ilog st (Log ''int'' ''Recieved IRQ %d, handled.'' [IntArg (n - 32)]), False))
        (\<lambda>(st, eoi_sent_early).
         Inr (if \<not> eoi_sent_early then send_eoi st n else st)))"

section \<open>Set-up\<close>

definition idt_populate_entry :: "u64 \<Rightarrow> u16 \<Rightarrow> u8 \<Rightarrow> IDTTableEntry" where
  "idt_populate_entry entry selector attr =
     \<lparr>offset_low = ucast (entry AND 0xFFFF), cs_selector = selector, ist = 0, attributes = attr,
      offset_mid = ucast (drop_bit 16 (entry AND 0xFFFF0000)),
      offset_hi = ucast (drop_bit 32 (entry AND 0xFFFFFFFF00000000)), zero_2 = 0\<rparr>"

definition pic_remap :: "int_state \<Rightarrow> int_state" where
  "pic_remap st = foldl (\<lambda>st (p, v). outb st p v) st
     [(0x20, 0x11), (0xA0, 0x11), (0x21, 0x20), (0xA1, 0x28), (0x21, 0x04), (0xA1, 0x02),
      (0x21, 0x01), (0xA1, 0x01), (0x21, 0x0), (0xA1, 0x0)]"

text \<open>The entry points in the order of their vectors: 32 exceptions, then 16 interrupt requests.\<close>

definition gate_handler :: "(nat \<Rightarrow> u64) \<Rightarrow> (nat \<Rightarrow> u64) \<Rightarrow> nat \<Rightarrow> u64" where
  "gate_handler isr irq i = (if i < 32 then isr i else irq (i - 32))"

definition set_gate :: "(nat \<Rightarrow> u64) \<Rightarrow> (nat \<Rightarrow> u64) \<Rightarrow> IDTTableEntry list \<Rightarrow> nat \<Rightarrow> IDTTableEntry list" where
  "set_gate isr irq t i = t[i := idt_populate_entry (gate_handler isr irq i) 0x08 0x8E]"

definition init_idt :: "(nat \<Rightarrow> u64) \<Rightarrow> (nat \<Rightarrow> u64) \<Rightarrow> u64 \<Rightarrow> u64 \<Rightarrow> int_state \<Rightarrow> int_state" where
  "init_idt isr irq addr_table addr_ptr st =
     (let st = ilog st (Log ''int'' ''Initialising interrupts'' []);
          st = st\<lparr>table_idt := replicate 256 zero_entry\<rparr>;
          st = pic_remap st;
          st = st\<lparr>table_idt := foldl (set_gate isr irq) (table_idt st) [0..<48]\<rparr>;
          st = st\<lparr>table_idt_ptr := \<lparr>limit = of_nat (IDT_ENTRY_SIZE * 256 - 1), address = addr_table\<rparr>\<rparr>;
          st = st\<lparr>idtr := addr_ptr\<rparr>;
          st = set_if st True
      in ilog st (Log ''int'' ''Interrupts enabled'' []))"

section \<open>Gates\<close>

text \<open>The address that a gate leads to, as the processor puts it together.\<close>

definition gate_target :: "IDTTableEntry \<Rightarrow> u64" where
  "gate_target e = push_bit 32 (ucast (offset_hi e)) OR push_bit 16 (ucast (offset_mid e)) OR ucast (offset_low e)"

lemma gate_masks:
  "bit (0xFFFF :: u64) k \<longleftrightarrow> k < 16" "bit (0xFFFF0000 :: u64) k \<longleftrightarrow> 16 \<le> k \<and> k < 32"
  "bit (0xFFFFFFFF00000000 :: u64) k \<longleftrightarrow> 32 \<le> k \<and> k < 64"
proof -
  have m: "(0xFFFF :: u64) = mask 16" "(0xFFFF0000 :: u64) = push_bit 16 (mask 16)"
    "(0xFFFFFFFF00000000 :: u64) = push_bit 32 (mask 32)"
    by (simp_all add: mask_eq_exp_minus_1 push_bit_eq_mult)
  show "bit (0xFFFF :: u64) k \<longleftrightarrow> k < 16" "bit (0xFFFF0000 :: u64) k \<longleftrightarrow> 16 \<le> k \<and> k < 32"
    "bit (0xFFFFFFFF00000000 :: u64) k \<longleftrightarrow> 32 \<le> k \<and> k < 64"
    unfolding m by (auto simp only: bit_push_bit_iff bit_mask_iff possible_bit_word) auto
qed

lemma gate_target_populate: "gate_target (idt_populate_entry entry sel attr) = entry"
proof (rule bit_word_eqI)
  fix n assume n: "n < LENGTH(64)"
  note bits = gate_target_def idt_populate_entry_def bit_or_iff bit_push_bit_iff bit_ucast_iff bit_and_iff
    bit_drop_bit_eq o_def gate_masks possible_bit_word
  from n have "n < 16 \<or> (16 \<le> n \<and> n < 32) \<or> (32 \<le> n \<and> n < 64)" by auto
  then show "bit (gate_target (idt_populate_entry entry sel attr)) n \<longleftrightarrow> bit entry n"
    by (simp only: bits IDTTableEntry.simps) auto
qed

lemma set_gates_nth:
  assumes "n \<le> length t" and "i < length t"
  shows "foldl (set_gate isr irq) t [0..<n] ! i =
    (if i < n then idt_populate_entry (gate_handler isr irq i) 0x08 0x8E else t ! i) \<and>
    length (foldl (set_gate isr irq) t [0..<n]) = length t"
  using assms
proof (induction n)
  case (Suc n)
  then show ?case by (auto simp: set_gate_def nth_list_update less_Suc_eq)
qed simp

section \<open>Properties\<close>

text \<open>The table afterwards: 48 gates, the rest zero.\<close>

lemma init_idt_table:
  "length (table_idt (init_idt isr irq addr_table addr_ptr st)) = 256"
  "i < 256 \<Longrightarrow> table_idt (init_idt isr irq addr_table addr_ptr st) ! i =
     (if i < 48 then idt_populate_entry (gate_handler isr irq i) 0x08 0x8E else zero_entry)"
proof -
  have frame: "table_idt (pic_remap s) = table_idt s" "kern (pic_remap s) = kern s" for s
    by (simp_all add: pic_remap_def outb_def)
  have t: "table_idt (init_idt isr irq addr_table addr_ptr st) = foldl (set_gate isr irq) (replicate 256 zero_entry) [0..<48]"
    by (simp add: init_idt_def Let_def ilog_def set_if_def frame del: upt_Suc)
  show "length (table_idt (init_idt isr irq addr_table addr_ptr st)) = 256"
    using set_gates_nth [of 48 "replicate 256 zero_entry" 0] by (simp add: t del: upt_Suc)
  show "i < 256 \<Longrightarrow> table_idt (init_idt isr irq addr_table addr_ptr st) ! i =
     (if i < 48 then idt_populate_entry (gate_handler isr irq i) 0x08 0x8E else zero_entry)"
    using set_gates_nth [of 48 "replicate 256 zero_entry" i] by (simp add: t del: upt_Suc)
qed

text \<open>C19. \<open>init_idt\<close> builds the table the processor needs: of the 256 entries the first 48 are interrupt
  gates that lead to the entry points of their vectors, through the kernel's code selector, and
  are present; the others are not present; the limit covers the table, the table is loaded and
  interrupts are enabled after that, with the controllers' vectors moved to 32 and 40.\<close>

theorem init_idt_gates:
  assumes st'_def: "st' = init_idt isr irq addr_table addr_ptr st"
  shows "length (table_idt st') = 256 \<and>
    (\<forall>i < 48. gate_target (table_idt st' ! i) = (if i < 32 then isr i else irq (i - 32)) \<and>
       cs_selector (table_idt st' ! i) = 8 \<and> attributes (table_idt st' ! i) = 0x8E \<and> ist (table_idt st' ! i) = 0) \<and>
    (\<forall>i. 48 \<le> i \<longrightarrow> i < 256 \<longrightarrow> \<not> bit (attributes (table_idt st' ! i)) 7) \<and>
    unat (limit (table_idt_ptr st')) + 1 = 256 * IDT_ENTRY_SIZE \<and> address (table_idt_ptr st') = addr_table \<and>
    idtr st' = addr_ptr \<and> if_flag (sys (kern st')) \<and>
    (\<exists>rest. port_writes st' = port_writes st @ [(0x20, 0x11), (0xA0, 0x11), (0x21, 32), (0xA1, 40)] @ rest)"
proof -
  have nth: "table_idt st' ! i = (if i < 48 then idt_populate_entry (gate_handler isr irq i) 0x08 0x8E else zero_entry)"
    if "i < 256" for i
    using that by (simp add: st'_def init_idt_table)
  have "length (table_idt st') = 256" by (simp add: st'_def init_idt_table)
  moreover have "gate_target (table_idt st' ! i) = (if i < 32 then isr i else irq (i - 32)) \<and>
       cs_selector (table_idt st' ! i) = 8 \<and> attributes (table_idt st' ! i) = 0x8E \<and> ist (table_idt st' ! i) = 0"
    if "i < 48" for i
    using nth [of i] that gate_target_populate by (simp add: idt_populate_entry_def gate_handler_def)
  moreover have "\<not> bit (attributes (table_idt st' ! i)) 7" if "48 \<le> i" "i < 256" for i
    using nth [of i] that by (simp add: zero_entry_def)
  moreover have "unat (limit (table_idt_ptr st')) + 1 = 256 * IDT_ENTRY_SIZE \<and> address (table_idt_ptr st') = addr_table \<and>
    idtr st' = addr_ptr \<and> if_flag (sys (kern st'))"
    by (simp add: st'_def init_idt_def Let_def ilog_def log_event_def set_if_def IDT_ENTRY_SIZE_def)
  moreover have "port_writes (pic_remap s) = port_writes s @ [(0x20, 0x11), (0xA0, 0x11), (0x21, 32), (0xA1, 40),
      (0x21, 0x04), (0xA1, 0x02), (0x21, 0x01), (0xA1, 0x01), (0x21, 0x0), (0xA1, 0x0)]" for s
    by (simp add: pic_remap_def)
  then have "port_writes st' = port_writes st @ [(0x20, 0x11), (0xA0, 0x11), (0x21, 32), (0xA1, 40)] @
      [(0x21, 0x04), (0xA1, 0x02), (0x21, 0x01), (0xA1, 0x01), (0x21, 0x0), (0xA1, 0x0)]"
    by (simp add: st'_def init_idt_def Let_def ilog_def set_if_def port_writes_def)
  ultimately show ?thesis by blast
qed


definition sample_int :: int_state where
  "sample_int = \<lparr>kern = sample_sched, kbd = keyboard_initial, table_idt = [], table_idt_ptr = \<lparr>limit = 0, address = 0\<rparr>,
     idtr = 0, io = []\<rparr>"

theorem init_idt_gates_witness:
  "gate_target (table_idt (init_idt (\<lambda>i. 0x1000 + of_nat i) (\<lambda>i. 0x2000 + of_nat i) 0x5000 0x6000 sample_int) ! 33) = 0x2001"
  using init_idt_gates [OF refl, of "\<lambda>i. 0x1000 + of_nat i" "\<lambda>i. 0x2000 + of_nat i" "0x5000" "0x6000" sample_int] by simp

text \<open>C20. Every interrupt request that is handled is acknowledged once: for each line, when
  \<open>interrupt_handler\<close> returns, exactly the end-of-interrupt commands of the line's controllers were
  sent, to the slave first and only for its lines.  For the timer the trace has the command before the
  call of the scheduler, which is the last event, and that call is made with interrupts enabled.  A key
  that arrives with the queue full is never acknowledged: the assertion stops the handler first.\<close>

theorem irq_acknowledged:
  assumes "32 \<le> int_no r" and "int_no r < 48" and "interrupt_handler inb ra st r = res"
  shows "(\<forall>st'. res = Inr st' \<longrightarrow>
      io st' = io st @ (if int_no r \<ge> 40 then [Out 0xA0 0x20] else []) @ [Out 0x20 0x20] @
        (if int_no r = 32 then [Schedule_call True] else []) \<and>
      port_writes st' = port_writes st @ (if int_no r \<ge> 40 then [(0xA0, 0x20)] else []) @ [(0x20, 0x20)] \<and>
      (int_no r = 32 \<longrightarrow> Schedule ra (kern (set_if (send_eoi st 32) True)) = Inr (kern st'))) \<and>
    (int_no r = 33 \<and> scancode_queue_sz (kbd st) = 128 \<longrightarrow> res = Inl Assertion_failed)"
proof -
  have "io st' = io st @ (if int_no r \<ge> 40 then [Out 0xA0 0x20] else []) @ [Out 0x20 0x20] @
        (if int_no r = 32 then [Schedule_call True] else []) \<and>
      (int_no r = 32 \<longrightarrow> Schedule ra (kern (set_if (send_eoi st 32) True)) = Inr (kern st'))"
    if "interrupt_handler inb ra st r = Inr st'" for st'
  proof -
    consider "int_no r = 32" | "int_no r = 33" | "int_no r \<noteq> 32" "int_no r \<noteq> 33" by blast
    then show ?thesis
    proof cases
      case 1
      then show ?thesis using that
        by (auto simp: interrupt_handler_def call_schedule_def Let_def bind_r_eq_Inr send_eoi_def set_if_def outb_def)
    next
      case 2
      then show ?thesis using that
        by (auto simp: interrupt_handler_def Let_def bind_r_eq_Inr send_eoi_def outb_def)
    next
      case 3
      then show ?thesis using that
        by (auto simp: interrupt_handler_def Let_def send_eoi_def outb_def ilog_def)
    qed
  qed
  note trace = this
  moreover have "port_writes st' = port_writes st @ (if int_no r \<ge> 40 then [(0xA0, 0x20)] else []) @ [(0x20, 0x20)]"
    if "interrupt_handler inb ra st r = Inr st'" for st'
    using trace [OF that] by (simp add: port_writes_def)
  moreover have "interrupt_handler inb ra st r = Inl Assertion_failed" if "int_no r = 33" "scancode_queue_sz (kbd st) = 128"
    using that by (simp add: interrupt_handler_def Let_def on_interrupt_def recieve_scancode_def scancode_queue_max_def)
  ultimately show ?thesis unfolding assms(3) [symmetric] by blast
qed

definition sample_context :: "u64 \<Rightarrow> InterruptContext" where
  "sample_context n = \<lparr>c_r15 = 0, c_r14 = 0, c_r13 = 0, c_r12 = 0, c_r11 = 0, c_r10 = 0, c_r9 = 0, c_r8 = 0,
     c_rdi = 0, c_rsi = 0, c_rbp = 0, c_rbx = 0, c_rdx = 0, c_rcx = 0, c_rax = 0, int_no = n, err_code = 0,
     c_rip = 0, c_cs = 0, c_eflags = 0, c_userrsp = 0, c_ss = 0\<rparr>"

theorem irq_acknowledged_witness:
  "\<exists>st'. interrupt_handler (\<lambda>_. 0x1E) 0 sample_int (sample_context 33) = Inr st' \<and> port_writes st' = [(0x20, 0x20)]"
proof -
  obtain st' where "interrupt_handler (\<lambda>_. 0x1E) 0 sample_int (sample_context 33) = Inr st'"
    by (simp add: interrupt_handler_def sample_context_def on_interrupt_def recieve_scancode_def sample_int_def
        keyboard_initial_def scancode_queue_max_def store_queue_def)
  with irq_acknowledged [OF _ _ refl, of "sample_context 33" "\<lambda>_. 0x1E" 0 sample_int]
  show ?thesis by (simp add: sample_context_def sample_int_def port_writes_def)
qed

text \<open>The fault handler halts the processor with interrupts disabled for the exceptions 0 to 30; for
  exception 31 it reads past its table of 31 names, and other numbers return.\<close>

theorem fault_handler_halts:
  "if int_no r < 31 then \<exists>st'. fault_handler cr2 st r = Inr (st', True) \<and> \<not> if_flag (sys (kern st'))
   else if int_no r = 31 then fault_handler cr2 st r = Inl Out_of_bounds
   else \<exists>st'. fault_handler cr2 st r = Inr (st', False)"
proof -
  have len: "length exception_strings = 31" by (simp add: exception_strings_def)
  consider "int_no r < 31" | "int_no r = 31" | "\<not> int_no r < 32" "\<not> int_no r < 31" "int_no r \<noteq> 31"
    using linorder_less_linear [of "unat (int_no r)" 31] by (fastforce simp: word_less_nat_alt word_unat_eq_iff)
  then show ?thesis
  proof cases
    case 1
    then have "int_no r < 32" "unat (int_no r) < 31" by (simp_all add: word_less_nat_alt)
    with 1 show ?thesis by (simp add: fault_handler_def Let_def len set_if_def)
  next
    case 2
    then show ?thesis by (simp add: fault_handler_def Let_def len)
  next
    case 3
    then show ?thesis by (simp add: fault_handler_def Let_def)
  qed
qed

end
