(* ===== verification/Interrupt_Entry.thy ===== *)
theory Interrupt_Entry
  imports Interrupts Thread_Switch
begin

text \<open>
  src/lobo/arch/x86_64/interrupt_asm.s: the entry points of the interrupt vectors, instruction by
  instruction, on the machine of theory Thread_Switch.  The processor has already pushed the stack segment,
  stack pointer, flags, code segment and instruction pointer, and an error code for some exceptions.
  The C++ handler that is called is a parameter, what it makes of the processor when it returns.
\<close>

section \<open>The code\<close>

record processor =
  core :: machine
  cs_reg :: u64
  eflags :: u64
  ss_reg :: u64

text \<open>An immediate byte is pushed sign-extended.\<close>

definition push_byte :: "machine \<Rightarrow> u8 \<Rightarrow> machine" where
  "push_byte m v = push_word m (scast v)"

definition interrupt_saveregs :: "machine \<Rightarrow> machine" where
  "interrupt_saveregs m = foldl push_reg m
     [RAX, RCX, RDX, RBX, RBP, RSI, RDI, R8, R9, R10, R11, R12, R13, R14, R15]"

definition interrupt_loadregs :: "machine \<Rightarrow> machine" where
  "interrupt_loadregs m = foldl pop_reg m
     [R15, R14, R13, R12, R11, R10, R9, R8, RDI, RSI, RBP, RBX, RDX, RCX, RAX]"

definition iretq :: "processor \<Rightarrow> processor" where
  "iretq c =
     (let m = core c; sp = regs m RSP; word = \<lambda>k. load64 (stack_mem m) (sp + k)
      in \<lparr>core = (set_reg m RSP (word 24))\<lparr>rip := word 0\<rparr>, cs_reg = word 8, eflags = word 16, ss_reg = word 32\<rparr>)"

text \<open>Up to the call: the registers are saved, the frame is the argument, the direction flag is cleared.\<close>

definition before_call :: "processor \<Rightarrow> processor" where
  "before_call c =
     (let m = interrupt_saveregs (core c);
          m = set_reg m RDI (regs m RSP);
          m = set_reg m RBP 0
      in c\<lparr>core := m, eflags := eflags c AND NOT 0x400\<rparr>)"

text \<open>After it: the registers are loaded, the two words of the entry point dropped.\<close>

definition after_call :: "processor \<Rightarrow> processor" where
  "after_call c = (let m = interrupt_loadregs (core c) in iretq (c\<lparr>core := set_reg m RSP (regs m RSP + 16)\<rparr>))"

definition isr_common :: "(processor \<Rightarrow> processor) \<Rightarrow> processor \<Rightarrow> processor" where
  "isr_common handler c = after_call (handler (before_call c))"

definition irq_common :: "(processor \<Rightarrow> processor) \<Rightarrow> processor \<Rightarrow> processor" where
  "irq_common handler c = after_call (handler (before_call c))"

definition isr_handler :: "u8 \<Rightarrow> processor \<Rightarrow> processor" where
  "isr_handler n c = c\<lparr>core := push_byte (push_byte (core c) 0) n\<rparr>"

definition isr_handler_error :: "u8 \<Rightarrow> processor \<Rightarrow> processor" where
  "isr_handler_error n c = c\<lparr>core := push_byte (core c) n\<rparr>"

definition irq_handler :: "u8 \<Rightarrow> processor \<Rightarrow> processor" where
  "irq_handler n c = c\<lparr>core := push_byte (push_byte (core c) 0) n\<rparr>"

definition error_vectors :: "nat list" where
  "error_vectors = [8, 10, 11, 12, 13, 14, 17, 21, 30]"

definition interrupt_isr :: "nat \<Rightarrow> (processor \<Rightarrow> processor) \<Rightarrow> processor \<Rightarrow> processor" where
  "interrupt_isr i handler c =
     isr_common handler (if i \<in> set error_vectors then isr_handler_error (of_nat i) c else isr_handler (of_nat i) c)"

definition interrupt_irq :: "nat \<Rightarrow> (processor \<Rightarrow> processor) \<Rightarrow> processor \<Rightarrow> processor" where
  "interrupt_irq i handler c = irq_common handler (irq_handler (32 + of_nat i) c)"

text \<open>How the C++ side reads its argument.\<close>

definition read_context :: "64 bytes \<Rightarrow> u64 \<Rightarrow> InterruptContext" where
  "read_context m a =
     \<lparr>c_r15 = load64 m a, c_r14 = load64 m (a + 8), c_r13 = load64 m (a + 16), c_r12 = load64 m (a + 24),
      c_r11 = load64 m (a + 32), c_r10 = load64 m (a + 40), c_r9 = load64 m (a + 48), c_r8 = load64 m (a + 56),
      c_rdi = load64 m (a + 64), c_rsi = load64 m (a + 72), c_rbp = load64 m (a + 80), c_rbx = load64 m (a + 88),
      c_rdx = load64 m (a + 96), c_rcx = load64 m (a + 104), c_rax = load64 m (a + 112),
      int_no = load64 m (a + 120), err_code = load64 m (a + 128),
      c_rip = load64 m (a + 136), c_cs = load64 m (a + 144), c_eflags = load64 m (a + 152),
      c_userrsp = load64 m (a + 160), c_ss = load64 m (a + 168)\<rparr>"

section \<open>Saving and loading\<close>

lemma saveregs_all: "interrupt_saveregs m = foldl push_reg m saved_regs"
  by (simp add: interrupt_saveregs_def saved_regs_def)

lemma loadregs_all: "interrupt_loadregs m = foldl pop_reg m (rev saved_regs)"
  by (simp add: interrupt_loadregs_def saved_regs_def)

lemma push_word_at:
  assumes "words_at (stack_mem m) (regs m RSP) vs" and "length vs < 100"
  shows "words_at (stack_mem (push_word m v)) (regs m RSP - 8) (v # vs)"
    "regs (push_word m v) = (regs m)(RSP := regs m RSP - 8)"
proof -
  have "words_at (store64 (stack_mem m) (regs m RSP - 8) v) (regs m RSP - 8 + of_nat (8 * 1)) vs"
    by (rule words_at_store) (use assms in simp_all)
  then show "words_at (stack_mem (push_word m v)) (regs m RSP - 8) (v # vs)"
    by (simp add: push_word_def Let_def)
qed (simp add: push_word_def Let_def)

text \<open>The frame on the stack when the handler is called: \<open>rest\<close> is what the processor pushed.\<close>

lemma before_call_frame:
  assumes "words_at (stack_mem (core c)) (regs (core c) RSP) rest" and "length rest < 100"
  shows "regs (core (before_call c)) RSP = regs (core c) RSP - 120"
    "regs (core (before_call c)) RDI = regs (core c) RSP - 120"
    "words_at (stack_mem (core (before_call c))) (regs (core c) RSP - 120) (map (regs (core c)) (rev saved_regs) @ rest)"
  using push_all [of saved_regs "core c" rest] assms by (simp_all add: before_call_def Let_def saveregs_all rev_map)

lemma after_call_return:
  assumes frame: "words_at (stack_mem (core c)) (regs (core c) RSP) (map f (rev saved_regs) @ [n, e, ip, cs, fl, sp, ss])"
  shows "\<exists>m. after_call c = \<lparr>core = m, cs_reg = cs, eflags = fl, ss_reg = ss\<rparr> \<and> rip m = ip \<and>
    regs m = (\<lambda>r. if r = RSP then sp else f r) \<and> stack_mem m = stack_mem (core c)"
proof -
  let ?l = "interrupt_loadregs (core c)" and ?sp = "regs (core c) RSP"
  have w: "words_at (stack_mem (core c)) ?sp (map f (rev saved_regs))"
    "words_at (stack_mem (core c)) (?sp + 120) [n, e, ip, cs, fl, sp, ss]"
    using frame by (simp_all add: words_at_append)
  have mem: "stack_mem ?l = stack_mem (core c)" using pop_all_frame [of "core c" "rev saved_regs"] by (simp add: loadregs_all)
  have regs: "regs ?l = (\<lambda>r. if r = RSP then ?sp + 120 else f r)"
    using pop_all_regs [OF _ _ w(1)] by (simp add: loadregs_all fun_eq_iff)
  show ?thesis
    using w(2) by (simp add: after_call_def iretq_def Let_def mem regs add.assoc fun_eq_iff)
qed

section \<open>Property\<close>

text \<open>The way from a vector to its entry point, as \<open>gate_handler\<close> fills the gates.\<close>

definition vector_entry :: "(processor \<Rightarrow> processor) \<Rightarrow> (processor \<Rightarrow> processor) \<Rightarrow> nat \<Rightarrow> processor \<Rightarrow> processor" where
  "vector_entry fault irq v = (if v < 32 then interrupt_isr v fault else interrupt_irq (v - 32) irq)"

text \<open>What the handler of a vector is called on.\<close>

definition called_on :: "nat \<Rightarrow> processor \<Rightarrow> processor" where
  "called_on v c = before_call
     (if v < 32 then if v \<in> set error_vectors then isr_handler_error (of_nat v) c else isr_handler (of_nat v) c
      else irq_handler (32 + of_nat (v - 32)) c)"

lemma vector_entry_call:
  "vector_entry fault irq v c = after_call ((if v < 32 then fault else irq) (called_on v c))"
  by (simp add: vector_entry_def called_on_def interrupt_isr_def interrupt_irq_def isr_common_def irq_common_def)

lemma vector_byte:
  assumes "v < 48"
  shows "scast (of_nat v :: u8) = (of_nat v :: u64)" "32 \<le> v \<Longrightarrow> (32 + of_nat (v - 32) :: u8) = of_nat v"
proof -
  have "sint (of_nat v :: u8) = int v" using assms by (simp add: sint_uint unsigned_of_nat signed_take_bit_int_eq_self take_bit_nat_eq_self)
  then show "scast (of_nat v :: u8) = (of_nat v :: u64)" by (simp add: scast_eq)
qed simp

lemma called_on_frame:
  fixes c :: processor and v :: nat
  defines "has \<equiv> v \<in> set error_vectors"
  assumes "v < 48" and frame: "words_at (stack_mem (core c)) (regs (core c) RSP) ((if has then [code] else []) @ rest)"
    and "length rest = 5"
  defines "sp \<equiv> regs (core c) RSP - (if has then 128 else 136)"
  shows "regs (core (called_on v c)) RSP = sp" "regs (core (called_on v c)) RDI = sp"
    "words_at (stack_mem (core (called_on v c))) sp
       (map (regs (core c)) (rev saved_regs) @ [of_nat v, if has then code else 0] @ rest)"
proof -
  have few: "v \<in> set error_vectors \<Longrightarrow> v < 32" by (auto simp: error_vectors_def)
  let ?d = "if v < 32 then if has then isr_handler_error (of_nat v) c else isr_handler (of_nat v) c
      else irq_handler (32 + of_nat (v - 32)) c"
  note byte = vector_byte [OF assms(2)]
  have d: "words_at (stack_mem (core ?d)) (regs (core ?d) RSP) ([of_nat v, if has then code else 0] @ rest) \<and>
      regs (core ?d) = (regs (core c))(RSP := sp + 120)"
  proof (cases has)
    case True
    then show ?thesis
      using few push_word_at [of "core c" "code # rest" "of_nat v"] frame assms(4)
      by (simp add: has_def sp_def isr_handler_error_def push_byte_def byte)
  next
    case False
    let ?m = "push_word (core c) 0"
    have w: "words_at (stack_mem ?m) (regs ?m RSP) (0 # rest)"
      using push_word_at [of "core c" rest 0] frame False assms(4) by simp
    show ?thesis
      using push_word_at [OF w, of "of_nat v"] push_word_at(2) [of "core c" rest 0] frame False assms(4)
      by (auto simp: has_def sp_def isr_handler_def irq_handler_def push_byte_def byte)
  qed
  have e: "called_on v c = before_call ?d" by (simp add: called_on_def has_def)
  have eq: "map (regs (core ?d)) (rev saved_regs) = map (regs (core c)) (rev saved_regs)" using d by auto
  note f = before_call_frame [OF conjunct1 [OF d], unfolded eq]
  show "regs (core (called_on v c)) RSP = sp" "regs (core (called_on v c)) RDI = sp"
    "words_at (stack_mem (core (called_on v c))) sp
       (map (regs (core c)) (rev saved_regs) @ [of_nat v, if has then code else 0] @ rest)"
    unfolding e using f d assms(4) by simp_all
qed

text \<open>C28. An interrupt is transparent: at every vector, with the frame the processor leaves (and the error
  code for the vectors whose entry point expects one), the handler is called with a context that holds
  the interrupted registers, the number of the vector and the error code, and if it comes back with the
  stack pointer and the context as they were, the interrupted code goes on where it was with every
  register, segment and flag restored, whatever the handler did to the registers.\<close>

theorem interrupt_resumes:
  fixes c :: processor and v :: nat
  defines "m \<equiv> core c" and "has \<equiv> v \<in> set error_vectors"
  assumes "v < 48" and frame: "words_at (stack_mem m) (regs m RSP) ((if has then [code] else []) @ [ip, cs, fl, sp, ss])"
    and handler: "d' = (if v < 32 then fault else irq) (called_on v c)"
      "regs (core d') RSP = regs (core (called_on v c)) RSP"
      "\<forall>x. in_range x (regs (core d') RSP) 176 \<longrightarrow> stack_mem (core d') x = stack_mem (core (called_on v c)) x"
  shows "read_context (stack_mem (core (called_on v c))) (regs (core (called_on v c)) RDI) =
      \<lparr>c_r15 = regs m R15, c_r14 = regs m R14, c_r13 = regs m R13, c_r12 = regs m R12,
       c_r11 = regs m R11, c_r10 = regs m R10, c_r9 = regs m R9, c_r8 = regs m R8,
       c_rdi = regs m RDI, c_rsi = regs m RSI, c_rbp = regs m RBP, c_rbx = regs m RBX,
       c_rdx = regs m RDX, c_rcx = regs m RCX, c_rax = regs m RAX,
       int_no = of_nat v, err_code = (if has then code else 0),
       c_rip = ip, c_cs = cs, c_eflags = fl, c_userrsp = sp, c_ss = ss\<rparr> \<and>
    (\<exists>m'. vector_entry fault irq v c = \<lparr>core = m', cs_reg = cs, eflags = fl, ss_reg = ss\<rparr> \<and>
       rip m' = ip \<and> regs m' = (regs m)(RSP := sp) \<and> stack_mem m' = stack_mem (core d'))"
proof -
  let ?d = "called_on v c" and ?ws = "map (regs m) (rev saved_regs) @ [of_nat v, if has then code else 0, ip, cs, fl, sp, ss]"
  note call = called_on_frame [OF assms(3), of c code "[ip, cs, fl, sp, ss]", folded m_def has_def, OF frame, simplified]
  have kept: "words_at (stack_mem (core d')) (regs (core d') RSP) ?ws"
  proof -
    have "words_at (stack_mem (core ?d)) (regs (core ?d) RSP) ?ws" using call by simp
    moreover have "words_at (stack_mem (core d')) (regs (core d') RSP) ?ws =
        words_at (stack_mem (core ?d)) (regs (core d') RSP) ?ws"
      using handler(3) by (intro words_at_cong) simp_all
    ultimately show ?thesis using handler(2) by simp
  qed
  have "vector_entry fault irq v c = after_call d'" by (simp add: vector_entry_call handler(1))
  with after_call_return [OF kept] show ?thesis
    using call by (auto simp: read_context_def saved_regs_def add.assoc fun_eq_iff)
qed

text \<open>A key arrives, and its handler leaves nothing in the registers.\<close>

definition sample_processor :: processor where
  "sample_processor = \<lparr>core = sample_machine 0x1000 0x8000 0x9000, cs_reg = 8, eflags = 0x202, ss_reg = 0x10\<rparr>"

definition sample_handler :: "processor \<Rightarrow> processor" where
  "sample_handler c = c\<lparr>core := (core c)\<lparr>regs := (\<lambda>r. if r = RSP then regs (core c) RSP else 0xDEAD)\<rparr>\<rparr>"

theorem interrupt_resumes_witness:
  "int_no (read_context (stack_mem (core (called_on 33 sample_processor))) (regs (core (called_on 33 sample_processor)) RDI)) = 33 \<and>
   (\<exists>m'. core (vector_entry (\<lambda>c. c) sample_handler 33 sample_processor) = m' \<and> regs m' RBX = 7 \<and> rip m' = 0)"
proof -
  have "load64 (\<lambda>_. 0) q = (0 :: u64)" for q :: u64 by (rule load_le_zero) simp_all
  then have "words_at (stack_mem (core sample_processor)) (regs (core sample_processor) RSP)
      ((if 33 \<in> set error_vectors then [0] else []) @ [0, 0, 0, 0, 0])"
    by (simp add: sample_processor_def sample_machine_def error_vectors_def)
  from interrupt_resumes [of 33, OF _ this refl, of "\<lambda>c. c" sample_handler]
  show ?thesis by (auto simp: sample_handler_def sample_processor_def sample_machine_def)
qed

end
