(* ===== verification/Boot_Assembly.thy ===== *)
theory Boot_Assembly
  imports Interrupt_Entry
begin

text \<open>
  The assembly between the C programs: the checks of the processor (src/awd/check), the switch to long mode
  (src/awd/memory/paging_enable.s), the jump into the kernel (src/awd/kernel/enter.s), the start of the kernel
  (src/lobo/arch/x86_64/boot_awd.s) and both segment tables (enter.s, gdt.s).  util/gdt_util.c computes
  descriptors of the same layout.
\<close>

section \<open>The checks\<close>

text \<open>\<open>popfd\<close> changes the flags that the processor lets a program set, \<open>settable\<close>.\<close>

definition popfd :: "u32 \<Rightarrow> u32 \<Rightarrow> u32 \<Rightarrow> u32" where
  "popfd settable flags v = (flags AND NOT settable) OR (v AND settable)"

text \<open>The result in \<open>eax\<close> and the flags afterwards.\<close>

definition cpuid_check :: "u32 \<Rightarrow> u32 \<Rightarrow> u32 \<times> u32" where
  "cpuid_check settable flags =
     (let eax = flags; ecx = eax;
          eax = eax XOR push_bit 21 1;
          flags = popfd settable flags eax;
          eax = flags;
          flags = popfd settable flags ecx
      in (if eax = ecx then 0 else 1, flags))"

text \<open>\<open>cpuid\<close> gives \<open>eax\<close> and \<open>edx\<close> for a leaf.\<close>

definition longmode_check :: "(u32 \<Rightarrow> u32 \<times> u32) \<Rightarrow> u32" where
  "longmode_check cpuid =
     (if fst (cpuid 0x80000000) < 0x80000001 then 0
      else if snd (cpuid 0x80000001) AND push_bit 29 1 = 0 then 0 else 1)"

text \<open>CPUID is reported exactly when the bit can be changed, and the flags are restored.\<close>

lemma cpuid_check_result: "cpuid_check s flags = (if bit s 21 then 1 else 0, flags)"
proof -
  have one: "bit (push_bit k 1 :: u32) n \<longleftrightarrow> n = k" if "k < 32" for k n using that by (auto simp: bit_simps)
  obtain w :: u32 where w: "w = push_bit 21 1" "\<And>n. bit w n \<longleftrightarrow> n = 21" using one [of 21] by auto
  have b: "popfd s flags (flags XOR w) = flags XOR (w AND s)"
    by (intro bit_word_eqI) (auto simp: popfd_def bit_simps)
  have "popfd s (popfd s flags (flags XOR w)) flags = flags"
    by (intro bit_word_eqI) (auto simp: popfd_def bit_simps)
  moreover have "flags XOR (w AND s) = flags \<longleftrightarrow> \<not> bit s 21"
  proof
    assume "flags XOR (w AND s) = flags"
    from arg_cong [OF this, of "\<lambda>v. bit v 21"] show "\<not> bit s 21" using w(2) by (auto simp: bit_simps)
  qed (intro bit_word_eqI, use w(2) in \<open>auto simp: bit_simps\<close>)
  ultimately show ?thesis by (simp only: cpuid_check_def Let_def b flip: w(1)) simp
qed

lemma longmode_check_result:
  "longmode_check cpuid \<noteq> 0 \<longleftrightarrow> 0x80000001 \<le> fst (cpuid 0x80000000) \<and> bit (snd (cpuid 0x80000001)) 29"
  unfolding longmode_check_def bit_iff_and_push_bit_not_eq_0 by (auto simp flip: not_less)

section \<open>Long mode\<close>

record control_regs =
  cr0 :: u32
  cr3 :: u32
  cr4 :: u32
  efer :: u64

definition long_mode_enable :: "u32 \<Rightarrow> control_regs \<Rightarrow> control_regs" where
  "long_mode_enable pml4 c =
     (let c = c\<lparr>cr3 := pml4\<rparr>;
          c = c\<lparr>cr4 := cr4 c OR push_bit 5 1\<rparr>;
          c = c\<lparr>efer := efer c OR push_bit 8 1\<rparr>
      in c\<lparr>cr0 := cr0 c OR push_bit 31 1\<rparr>)"

section \<open>Segment tables\<close>

text \<open>One descriptor as gdt.s writes it, field by field.\<close>

definition gdt_entry :: "u16 \<Rightarrow> u16 \<Rightarrow> u8 \<Rightarrow> u8 \<Rightarrow> u8 \<Rightarrow> u8 \<Rightarrow> u64" where
  "gdt_entry limit_low base_low base_middle access granularity base_high =
     ucast limit_low OR push_bit 16 (ucast base_low) OR push_bit 32 (ucast base_middle) OR
     push_bit 40 (ucast access) OR push_bit 48 (ucast granularity) OR push_bit 56 (ucast base_high)"

definition kernel_gdt64 :: "u64 list" where
  "kernel_gdt64 =
     [gdt_entry 0xFFFF 0 0 0 1 0,
      gdt_entry 0 0 0 0b10011010 0b10101111 0,
      gdt_entry 0 0 0 0b10010010 0 0,
      gdt_entry 0 0 0 0b11111010 0b10101111 0,
      gdt_entry 0 0 0 0b11110010 0 0]"

definition loader_gdt64 :: "u64 list" where
  "loader_gdt64 =
     [0,
      push_bit 43 1 OR push_bit 44 1 OR push_bit 47 1 OR push_bit 53 1,
      push_bit 44 1 OR push_bit 47 1 OR push_bit 41 1]"

text \<open>The limit in the pointer that \<open>lgdt\<close> loads: the bytes before it, less one.\<close>

definition gdt64_limit :: "u64 list \<Rightarrow> u16" where "gdt64_limit t = of_nat (8 * length t) - 1"

text \<open>What the processor makes of a selector: the descriptor, when it lies within the limit.\<close>

definition selected :: "u64 list \<Rightarrow> u16 \<Rightarrow> u64 option" where
  "selected t sel = (if unat sel div 8 < length t \<and> unat sel + 7 \<le> unat (gdt64_limit t) then Some (t ! (unat sel div 8)) else None)"

definition code64 :: "u64 \<Rightarrow> u64 \<Rightarrow> bool" where
  "code64 d privilege \<longleftrightarrow> bit d 47 \<and> bit d 44 \<and> bit d 43 \<and> bit d 53 \<and> \<not> bit d 54 \<and> drop_bit 45 d AND 3 = privilege"

definition writable_data :: "u64 \<Rightarrow> u64 \<Rightarrow> bool" where
  "writable_data d privilege \<longleftrightarrow> bit d 47 \<and> bit d 44 \<and> \<not> bit d 43 \<and> bit d 41 \<and> drop_bit 45 d AND 3 = privilege"

lemma loader_segments:
  "\<exists>d. selected loader_gdt64 8 = Some d \<and> code64 d 0" "\<exists>d. selected loader_gdt64 16 = Some d \<and> writable_data d 0"
  by (simp_all add: selected_def gdt64_limit_def loader_gdt64_def code64_def writable_data_def bit_simps)

lemma kernel_segments:
  "\<exists>d. selected kernel_gdt64 8 = Some d \<and> code64 d 0" "\<exists>d. selected kernel_gdt64 16 = Some d \<and> writable_data d 0"
  "\<exists>d. selected kernel_gdt64 24 = Some d \<and> code64 d 3" "\<exists>d. selected kernel_gdt64 32 = Some d \<and> writable_data d 3"
  by (simp_all add: selected_def gdt64_limit_def kernel_gdt64_def gdt_entry_def code64_def writable_data_def bit_simps)

section \<open>Descriptors from their fields\<close>

text \<open>The macros of gdt_util.c for the flags, and \<open>create_descriptor\<close>; it prints its result.\<close>

definition segment_flags :: "u16 \<Rightarrow> u16 \<Rightarrow> u16" where
  "segment_flags privilege type =
     push_bit 0x04 1 OR push_bit 0x07 1 OR push_bit 0x0C 0 OR push_bit 0x0D 0 OR push_bit 0x0E 1 OR push_bit 0x0F 1 OR
     push_bit 0x05 (privilege AND 0x03) OR type"

definition SEG_DATA_RDWR :: u16 where "SEG_DATA_RDWR = 0x02"
definition SEG_CODE_EXRD :: u16 where "SEG_CODE_EXRD = 0x0A"
definition GDT_CODE_PL0 :: u16 where "GDT_CODE_PL0 = segment_flags 0 SEG_CODE_EXRD"
definition GDT_DATA_PL0 :: u16 where "GDT_DATA_PL0 = segment_flags 0 SEG_DATA_RDWR"
definition GDT_CODE_PL3 :: u16 where "GDT_CODE_PL3 = segment_flags 3 SEG_CODE_EXRD"
definition GDT_DATA_PL3 :: u16 where "GDT_DATA_PL3 = segment_flags 3 SEG_DATA_RDWR"

definition create_descriptor :: "u32 \<Rightarrow> u32 \<Rightarrow> u16 \<Rightarrow> u64" where
  "create_descriptor base lim flag =
     (let descriptor = ucast (lim AND 0x000F0000);
          descriptor = descriptor OR ucast (push_bit 8 (ucast flag) AND (0x00F0FF00 :: u32));
          descriptor = descriptor OR ucast (drop_bit 16 base AND 0x000000FF);
          descriptor = descriptor OR ucast (base AND 0xFF000000);
          descriptor = push_bit 32 descriptor;
          descriptor = descriptor OR ucast (push_bit 16 base)
      in descriptor OR ucast (lim AND 0x0000FFFF))"

definition descriptors_printed :: "u64 list" where
  "descriptors_printed =
     [create_descriptor 0 0 0,
      create_descriptor 0 0x000FFFFF GDT_CODE_PL0,
      create_descriptor 0 0x000FFFFF GDT_DATA_PL0,
      create_descriptor 0 0x000FFFFF GDT_CODE_PL3,
      create_descriptor 0 0x000FFFFF GDT_DATA_PL3]"

text \<open>The fields where the processor looks for them.\<close>

definition segment_base :: "u64 \<Rightarrow> u32" where
  "segment_base d = (ucast (drop_bit 16 d) AND mask 24) OR push_bit 24 (ucast (drop_bit 56 d))"

definition segment_limit :: "u64 \<Rightarrow> u32" where
  "segment_limit d = (ucast d AND mask 16) OR push_bit 16 (ucast (drop_bit 48 d) AND mask 4)"

definition segment_access :: "u64 \<Rightarrow> u16" where
  "segment_access d = ucast (drop_bit 40 d) AND NOT (push_bit 8 (mask 4))"

lemma descriptor_masks:
  "bit (0x000F0000 :: u32) n \<longleftrightarrow> 16 \<le> n \<and> n < 20" "bit (0x00F0FF00 :: u32) n \<longleftrightarrow> 8 \<le> n \<and> n < 16 \<or> 20 \<le> n \<and> n < 24"
  "bit (0x000000FF :: u32) n \<longleftrightarrow> n < 8" "bit (0xFF000000 :: u32) n \<longleftrightarrow> 24 \<le> n \<and> n < 32"
  "bit (0x0000FFFF :: u32) n \<longleftrightarrow> n < 16"
proof -
  have m: "bit (push_bit k (mask l) :: u32) n \<longleftrightarrow> k \<le> n \<and> n < k + l \<and> n < 32" for k l by (auto simp: bit_simps)
  have e: "0x000F0000 = (push_bit 16 (mask 4) :: u32)" "0x00F0FF00 = (push_bit 8 (mask 8) OR push_bit 20 (mask 4) :: u32)"
    "0x000000FF = (push_bit 0 (mask 8) :: u32)" "0xFF000000 = (push_bit 24 (mask 8) :: u32)" "0x0000FFFF = (push_bit 0 (mask 16) :: u32)"
    by (simp_all add: mask_eq_exp_minus_1)
  show "bit (0x000F0000 :: u32) n \<longleftrightarrow> 16 \<le> n \<and> n < 20" "bit (0x00F0FF00 :: u32) n \<longleftrightarrow> 8 \<le> n \<and> n < 16 \<or> 20 \<le> n \<and> n < 24"
    "bit (0x000000FF :: u32) n \<longleftrightarrow> n < 8" "bit (0xFF000000 :: u32) n \<longleftrightarrow> 24 \<le> n \<and> n < 32"
    "bit (0x0000FFFF :: u32) n \<longleftrightarrow> n < 16"
    unfolding e bit_or_iff m by auto
qed

lemma bit_create_descriptor:
  assumes "n < 64"
  shows "bit (create_descriptor base lim flag) n \<longleftrightarrow>
     (if n < 16 then bit lim n else if n < 32 then bit base (n - 16) else if n < 40 then bit base (n - 16)
      else if n < 48 then bit flag (n - 40) else if n < 52 then bit lim (n - 32) else if n < 56 then bit flag (n - 40)
      else bit base (n - 32))"
proof -
  let ?d = "ucast (lim AND 0x000F0000) OR ucast (push_bit 8 (ucast flag) AND (0x00F0FF00 :: u32)) OR
    ucast (drop_bit 16 base AND 0x000000FF) OR ucast (base AND 0xFF000000) :: u64"
  have high: "bit ?d k \<longleftrightarrow> k < 32 \<and> (if k < 8 then bit base (k + 16) else if k < 16 then bit flag (k - 8)
      else if k < 20 then bit lim k else if k < 24 then bit flag (k - 8) else bit base k)" for k
  proof -
    consider "k < 8" | "8 \<le> k" "k < 16" | "16 \<le> k" "k < 20" | "20 \<le> k" "k < 24" | "24 \<le> k" "k < 32" | "32 \<le> k" by linarith
    then show ?thesis
      unfolding bit_or_iff bit_and_iff bit_unsigned_iff bit_push_bit_iff bit_drop_bit_eq comp_apply descriptor_masks possible_bit_word
      by cases (auto simp: add.commute dest: bit_imp_le_length)
  qed
  have low: "bit (ucast (lim AND 0x0000FFFF) :: u64) n \<longleftrightarrow> n < 16 \<and> bit lim n"
    "bit (ucast (push_bit 16 base) :: u64) n \<longleftrightarrow> 16 \<le> n \<and> n < 32 \<and> bit base (n - 16)"
    using assms unfolding bit_unsigned_iff bit_and_iff bit_push_bit_iff descriptor_masks possible_bit_word
    by (auto dest: bit_imp_le_length)
  have all: "bit (create_descriptor base lim flag) n \<longleftrightarrow> (32 \<le> n \<and> bit ?d (n - 32)) \<or>
      (16 \<le> n \<and> n < 32 \<and> bit base (n - 16)) \<or> (n < 16 \<and> bit lim n)"
    using assms low unfolding create_descriptor_def Let_def by (simp only: bit_or_iff bit_push_bit_iff possible_bit_word) simp
  show ?thesis
  proof (cases "32 \<le> n")
    case True
    then obtain k where k: "n = 32 + k" "k < 32" using assms by (auto simp: le_iff_add)
    then show ?thesis unfolding all high by (simp add: add.commute)
  next
    case False
    then show ?thesis unfolding all high by simp
  qed
qed

text \<open>A descriptor has the fields it was made of: the base, the low 20 bits of the limit, the flags but
  for the four bits that hold the limit; the printed ones are flat 4 GiB segments.\<close>

lemma create_descriptor_fields:
  "segment_base (create_descriptor base lim flag) = base"
  "segment_limit (create_descriptor base lim flag) = lim AND mask 20"
  "segment_access (create_descriptor base lim flag) = flag AND NOT (push_bit 8 (mask 4))"
proof -
  show "segment_base (create_descriptor base lim flag) = base"
  proof (rule bit_word_eqI)
    fix n assume "n < LENGTH(32)"
    then show "bit (segment_base (create_descriptor base lim flag)) n = bit base n"
      by (cases "n < 24") (auto simp: segment_base_def bit_simps bit_create_descriptor)
  qed
  show "segment_limit (create_descriptor base lim flag) = lim AND mask 20"
  proof (rule bit_word_eqI)
    fix n assume "n < LENGTH(32)"
    then show "bit (segment_limit (create_descriptor base lim flag)) n = bit (lim AND mask 20) n"
      by (cases "n < 16") (auto simp: segment_limit_def bit_simps bit_create_descriptor)
  qed
  show "segment_access (create_descriptor base lim flag) = flag AND NOT (push_bit 8 (mask 4))"
  proof (rule bit_word_eqI)
    fix n assume "n < LENGTH(16)"
    then show "bit (segment_access (create_descriptor base lim flag)) n = bit (flag AND NOT (push_bit 8 (mask 4))) n"
      by (auto simp: segment_access_def bit_simps bit_create_descriptor)
  qed
qed

lemma descriptors_printed_values:
  "descriptors_printed = [0, 0x00CF9A000000FFFF, 0x00CF92000000FFFF, 0x00CFFA000000FFFF, 0x00CFF2000000FFFF]"
  by (simp add: descriptors_printed_def create_descriptor_def Let_def GDT_CODE_PL0_def GDT_DATA_PL0_def GDT_CODE_PL3_def
      GDT_DATA_PL3_def segment_flags_def SEG_CODE_EXRD_def SEG_DATA_RDWR_def)

section \<open>From the loader into the kernel\<close>

text \<open>The processor with the table it uses and the other segment registers.\<close>

record boot_cpu =
  proc :: processor
  gdt :: "u64 list"
  data_segments :: "u16 list"

definition on_machine :: "(machine \<Rightarrow> machine) \<Rightarrow> boot_cpu \<Rightarrow> boot_cpu" where
  "on_machine f c = c\<lparr>proc := (proc c)\<lparr>core := f (core (proc c))\<rparr>\<rparr>"

text \<open>The loader: its table, the code selector by a far jump, the structure in \<open>rbx\<close>.\<close>

definition kernel_enter :: "u64 \<Rightarrow> u64 \<Rightarrow> boot_cpu \<Rightarrow> boot_cpu" where
  "kernel_enter awd_info kernel_entry_point c =
     (let c = c\<lparr>gdt := loader_gdt64\<rparr>;
          c = c\<lparr>proc := (proc c)\<lparr>cs_reg := 8\<rparr>\<rparr>;
          c = on_machine (\<lambda>m. set_reg m RBX awd_info) c;
          c = on_machine (\<lambda>m. set_reg m RAX kernel_entry_point) c
      in on_machine (\<lambda>m. m\<lparr>rip := regs m RAX\<rparr>) c)"

text \<open>The kernel, up to the call of \<open>kernel_early\<close>: stack, argument, table, segments; \<open>_init\<close> runs the static
  constructors, which the compiler generates.\<close>

definition kernel_start :: "(machine \<Rightarrow> machine) \<Rightarrow> u64 \<Rightarrow> boot_cpu \<Rightarrow> boot_cpu" where
  "kernel_start init stack_end c =
     (let c = on_machine (\<lambda>m. set_reg m RSP stack_end) c;
          c = on_machine (\<lambda>m. set_reg m RBP stack_end) c;
          c = on_machine (\<lambda>m. set_reg m RDI (regs m RBX)) c;
          c = c\<lparr>gdt := kernel_gdt64\<rparr>;
          c = on_machine (\<lambda>m. push_reg m RAX) c;
          c = on_machine (\<lambda>m. set_reg m RAX ((regs m RAX AND NOT 0xFFFF) OR 0x10)) c;
          ax = ucast (regs (core (proc c)) RAX);
          c = c\<lparr>proc := (proc c)\<lparr>ss_reg := ucast ax\<rparr>, data_segments := [ax, ax, ax, ax]\<rparr>;
          c = on_machine (\<lambda>m. pop_reg m RAX) c;
          c = on_machine (\<lambda>m. push_reg m RDI) c;
          c = on_machine init c
      in on_machine (\<lambda>m. pop_reg m RDI) c)"

text \<open>C37. The kernel is entered as it expects: with paging switched on for the given tables, the loader jumps
  to the entry point, and after that and the assembly start of the kernel \<open>kernel_early\<close> is called with the address of the loader's
  structure as argument and the top of the kernel's stack as stack pointer; the code segment, loaded from the
  loader's table and used with the kernel's, is 64-bit ring 0 code in both tables and that of every interrupt
  gate; the other segments are writable ring 0 data.\<close>

theorem kernel_early_called:
  assumes init: "\<And>m. regs (init m) RSP = regs m RSP"
      "\<And>m. load64 (stack_mem (init m)) (regs m RSP) = (load64 (stack_mem m) (regs m RSP) :: u64)"
    and start: "c = kernel_start init stack_end (kernel_enter awd_ptr kernel_entry_point c0)"
    and on: "r = long_mode_enable pml4 r0"
  shows "bit (cr0 r) 31 \<and> bit (cr4 r) 5 \<and> bit (efer r) 8 \<and> cr3 r = pml4 \<and>
    rip (core (proc (kernel_enter awd_ptr kernel_entry_point c0))) = kernel_entry_point \<and>
    regs (core (proc c)) RDI = awd_ptr \<and> regs (core (proc c)) RSP = stack_end \<and>
    (\<exists>d d'. selected loader_gdt64 (ucast (cs_reg (proc c))) = Some d \<and> code64 d 0 \<and>
       selected (gdt c) (ucast (cs_reg (proc c))) = Some d' \<and> code64 d' 0) \<and>
    (\<forall>sel \<in> set (ucast (ss_reg (proc c)) # data_segments c). \<exists>d. selected (gdt c) sel = Some d \<and> writable_data d 0) \<and>
    (\<forall>v < 48. \<exists>d. selected (gdt c) (cs_selector (table_idt (init_idt isr irq a p st) ! v)) = Some d \<and> code64 d 0)"
proof -
  have ax: "ucast ((w AND NOT 0xFFFF) OR 0x10) = (0x10 :: u16)" for w :: u64
  proof (rule bit_word_eqI)
    fix n assume "n < LENGTH(16)"
    then have "\<not> bit (NOT (mask 16) :: u64) n" by (simp add: bit_simps)
    then show "bit (ucast ((w AND NOT 0xFFFF) OR 0x10) :: u16) n = bit (0x10 :: u16) n"
      using \<open>n < LENGTH(16)\<close> by (simp add: bit_unsigned_iff bit_or_iff bit_and_iff mask_eq_exp_minus_1)
  qed
  have saved: "load64 (stack_mem (init (push_reg m q))) (regs (init (push_reg m q)) RSP) = regs m q" for m q
    using init [of "push_reg m q"] by simp
  have "regs (core (proc c)) RDI = awd_ptr" "regs (core (proc c)) RSP = stack_end" "cs_reg (proc c) = 8" "gdt c = kernel_gdt64"
    "ss_reg (proc c) = 0x10" "data_segments c = [0x10, 0x10, 0x10, 0x10]"
    by (simp_all add: start kernel_start_def kernel_enter_def on_machine_def Let_def saved ax [simplified]) (simp_all add: init)?
  moreover have "cs_selector (table_idt (init_idt isr irq a p st) ! v) = 8" if "v < 48" for v
    using that by (simp add: init_idt_table idt_populate_entry_def)
  moreover have "bit (cr0 r) 31" "bit (cr4 r) 5" "bit (efer r) 8" "cr3 r = pml4"
    by (simp_all add: on long_mode_enable_def bit_simps)
  moreover have "rip (core (proc (kernel_enter awd_ptr kernel_entry_point c0))) = kernel_entry_point"
    by (simp add: kernel_enter_def on_machine_def Let_def)
  ultimately show ?thesis using loader_segments kernel_segments by auto
qed

theorem kernel_early_called_witness:
  "regs (core (proc (kernel_start (\<lambda>m. m) 0x9000 (kernel_enter 0x7000 0x1000
     \<lparr>proc = sample_processor, gdt = [], data_segments = []\<rparr>)))) RDI = 0x7000"
  using kernel_early_called [OF _ _ refl refl, where init = "\<lambda>m. m" and stack_end = "0x9000" and awd_ptr = "0x7000" and kernel_entry_point = "0x1000"]
  by auto

end
