(* ===== verification/Boot_Memory.thy ===== *)
theory Boot_Memory
  imports Pmm Vmm
begin

text \<open>
  The boot's memory discovery: \<open>init_memory\<close> of src/lobo/arch/x86_64/kernel_early.cpp and the loader's
  structures of include/awd/awd_info.h, read from the bytes of memory as the compiler lays them out.
  The memory map is a linked list in memory, so the two loops over it end only for a list that ends;
  one that does not is the result \<open>None\<close> of the walks, and \<open>Diverges\<close> of \<open>init_memory\<close>.
\<close>

section \<open>The loader's structures\<close>

record awd_info =
  kernel_phstart :: u32
  kernel_phsize :: u32
  multiboot_struct :: u32
  numCPUs :: u32
  ptr_phys_mem_map :: u32
  ptr_malloc_current :: u32
  ptr_malloc_limit :: u32
  log_cursor_y :: u32

definition read_awd_info :: "64 bytes \<Rightarrow> u64 \<Rightarrow> awd_info" where
  "read_awd_info m a =
     \<lparr>kernel_phstart = load32 m a, kernel_phsize = load32 m (a + 4), multiboot_struct = load32 m (a + 8),
      numCPUs = load32 m (a + 12), ptr_phys_mem_map = load32 m (a + 16), ptr_malloc_current = load32 m (a + 20),
      ptr_malloc_limit = load32 m (a + 24), log_cursor_y = load32 m (a + 28)\<rparr>"

record AWDPhysmemmap =
  map_next :: u32
  map_type :: u8
  startAddress_hi :: u32
  startAddress_lo :: u32
  size_hi :: u32
  size_lo :: u32

text \<open>Three bytes of padding follow the type.\<close>

definition read_memmap :: "64 bytes \<Rightarrow> u64 \<Rightarrow> AWDPhysmemmap" where
  "read_memmap m a =
     \<lparr>map_next = load32 m a, map_type = m (a + 4), startAddress_hi = load32 m (a + 8),
      startAddress_lo = load32 m (a + 12), size_hi = load32 m (a + 16), size_lo = load32 m (a + 20)\<rparr>"

definition AWD_MEMMAP_FREE :: u8 where "AWD_MEMMAP_FREE = 0"

definition region_start :: "AWDPhysmemmap \<Rightarrow> u64" where
  "region_start e = push_bit 32 (ucast (startAddress_hi e)) OR ucast (startAddress_lo e)"

definition region_size :: "AWDPhysmemmap \<Rightarrow> u64" where
  "region_size e = push_bit 32 (ucast (size_hi e)) OR ucast (size_lo e)"

definition region_end :: "AWDPhysmemmap \<Rightarrow> u64" where
  "region_end e = region_start e + region_size e"

definition next_region :: "AWDPhysmemmap \<Rightarrow> u64" where
  "next_region e = MEM_PHYS_TO_VIRT (ucast (map_next e))"

section \<open>The code\<close>

text \<open>Phase 1: the end of the highest free region.\<close>

partial_function (option) discover :: "64 bytes \<Rightarrow> u64 \<Rightarrow> u64 \<Rightarrow> u64 option" where
  "discover m awd_memmap mem_end_address =
     (if awd_memmap \<noteq> MEM_PHYS_TO_VIRT 0 then
        let e = read_memmap m awd_memmap in
        discover m (next_region e)
          (if map_type e = AWD_MEMMAP_FREE \<and> mem_end_address < region_end e then region_end e else mem_end_address)
      else Some mem_end_address)"

text \<open>
  A loop over the pages from \<open>i\<close> up to \<open>bound\<close>.  The counter is back where it started after \<open>page_period\<close>
  rounds, which have then done all they do; running out of that fuel is not returning.
\<close>

fun page_loop :: "(kstate \<Rightarrow> u64 \<Rightarrow> kpanic + kstate) \<Rightarrow> nat \<Rightarrow> kstate \<Rightarrow> u64 \<Rightarrow> u64 \<Rightarrow> kpanic + kstate" where
  "page_loop f fuel s i bound =
     (if i < bound
      then if fuel = 0 then Inl Diverges
           else bind_r (f s i) (\<lambda>s. page_loop f (fuel - 1) s (i + 0x1000) bound)
      else Inr s)"

declare page_loop.simps [simp del]

text \<open>Phase 2: the pages of the free regions.\<close>

partial_function (option) release :: "kstate \<Rightarrow> u64 \<Rightarrow> (kpanic + kstate) option" where
  "release s awd_memmap =
     (if awd_memmap \<noteq> MEM_PHYS_TO_VIRT 0 then
        let e = read_memmap (kmem s) awd_memmap in
        case (if map_type e = AWD_MEMMAP_FREE then page_loop pmm_free page_period s (region_start e) (region_end e) else Inr s) of
          Inl err \<Rightarrow> Some (Inl err)
        | Inr s \<Rightarrow> release s (next_region (read_memmap (kmem s) awd_memmap))
      else Some (Inr s))"

definition init_memory :: "kstate \<Rightarrow> u64 \<Rightarrow> kpanic + kstate" where
  "init_memory s awd_info =
     (let awd_memmap = MEM_PHYS_TO_VIRT (ucast (ptr_phys_mem_map (read_awd_info (kmem s) awd_info))) in
      case discover (kmem s) awd_memmap 0 of
        None \<Rightarrow> Inl Diverges
      | Some mem_end_address \<Rightarrow>
          let s = log_event s (Log ''mem'' ''Last addressable free RAM is 0x%p, or %p frames''
                    [IntArg mem_end_address, IntArg (mem_end_address div 0x1000)]);
              s = log_event s (Log ''mem'' ''Bitmap fits in %p bytes'' [IntArg (mem_end_address div 0x1000 div 8)]) in
          bind_r (pmm_init s (mem_end_address div 0x1000)) (\<lambda>s.
          let awd_memmap = MEM_PHYS_TO_VIRT (ucast (ptr_phys_mem_map (read_awd_info (kmem s) awd_info))) in
          bind_r (case release s awd_memmap of None \<Rightarrow> Inl Diverges | Some r \<Rightarrow> r) (\<lambda>s.
          bind_r (page_loop pmm_set page_period s 0 0x400000) (\<lambda>s.
          set_free_memory s))))"

section \<open>Loops over pages\<close>

text \<open>The page numbers that a loop from \<open>a\<close> to \<open>b\<close> visits.\<close>

definition visited :: "u64 \<Rightarrow> u64 \<Rightarrow> nat \<Rightarrow> bool" where
  "visited a b j \<longleftrightarrow> (\<exists>k. unat a + k * 0x1000 < unat b \<and> j = (unat a + k * 0x1000) div 0x1000)"

text \<open>A page operation that sets the bit of its page to \<open>v\<close>.\<close>

definition sets_page :: "(kstate \<Rightarrow> u64 \<Rightarrow> kpanic + kstate) \<Rightarrow> bool \<Rightarrow> bool" where
  "sets_page f v \<longleftrightarrow> (\<forall>s a. a div 0x1000 < num_bits s \<longrightarrow> (\<exists>t. f s a = Inr t \<and> same_but_bitmap s t \<and>
     (\<forall>j. page_used t j \<longleftrightarrow> (if j = a div 0x1000 then v else page_used s j)))) \<and>
   (\<forall>s a. \<not> a div 0x1000 < num_bits s \<longrightarrow> f s a = Inl Assertion_failed)"

lemma sets_page_pmm: "sets_page pmm_set True" "sets_page pmm_free False"
proof -
  show "sets_page pmm_set True" unfolding sets_page_def
  proof (intro conjI allI impI)
    fix s a assume a: "a div 0x1000 < num_bits s"
    show "\<exists>t. pmm_set s a = Inr t \<and> same_but_bitmap s t \<and> (\<forall>j. page_used t j \<longleftrightarrow> (if j = a div 0x1000 then True else page_used s j))"
      by (cases rule: pmm_set_cases [of a s]) (use a in auto)
  next
    fix s a show "\<not> a div 0x1000 < num_bits s \<Longrightarrow> pmm_set s a = Inl Assertion_failed"
      by (cases rule: pmm_set_cases [of a s]) auto
  qed
  show "sets_page pmm_free False" unfolding sets_page_def
  proof (intro conjI allI impI)
    fix s a assume a: "a div 0x1000 < num_bits s"
    show "\<exists>t. pmm_free s a = Inr t \<and> same_but_bitmap s t \<and> (\<forall>j. page_used t j \<longleftrightarrow> (if j = a div 0x1000 then False else page_used s j))"
      by (cases rule: pmm_free_cases [of a s]) (use a in auto)
  next
    fix s a show "\<not> a div 0x1000 < num_bits s \<Longrightarrow> pmm_free s a = Inl Assertion_failed"
      by (cases rule: pmm_free_cases [of a s]) auto
  qed
qed

lemma visited_step:
  assumes "a < b" and "unat b + 0x1000 \<le> 2 ^ 64"
  shows "visited a b j \<longleftrightarrow> j = unat a div 0x1000 \<or> visited (a + 0x1000) b j"
    and "unat (a + 0x1000) = unat a + 0x1000"
proof -
  have lt: "unat a < unat b" using assms(1) by (simp add: word_less_nat_alt)
  have ua: "unat (a + 0x1000) = unat a + 0x1000"
    using assms(2) lt by (subst unat_add_lt) auto
  then show "unat (a + 0x1000) = unat a + 0x1000" .
  show "visited a b j \<longleftrightarrow> j = unat a div 0x1000 \<or> visited (a + 0x1000) b j"
  proof
    assume "visited a b j"
    then obtain k where k: "unat a + k * 0x1000 < unat b" "j = (unat a + k * 0x1000) div 0x1000"
      by (auto simp: visited_def)
    show "j = unat a div 0x1000 \<or> visited (a + 0x1000) b j"
    proof (cases k)
      case (Suc k')
      then show ?thesis using k by (auto simp: visited_def ua intro!: exI [of _ k'])
    qed (use k in simp)
  next
    assume "j = unat a div 0x1000 \<or> visited (a + 0x1000) b j"
    then show "visited a b j"
    proof
      assume "j = unat a div 0x1000"
      then show ?thesis using lt by (auto simp: visited_def intro!: exI [of _ 0])
    next
      assume "visited (a + 0x1000) b j"
      then obtain k where "unat a + 0x1000 + k * 0x1000 < unat b" "j = (unat a + 0x1000 + k * 0x1000) div 0x1000"
        by (auto simp: visited_def ua)
      then show ?thesis by (auto simp: visited_def intro!: exI [of _ "Suc k"])
    qed
  qed
qed

lemma page_used_used: "page_used s i = used s (unat i)"
  by (simp add: used_def)

lemma page_loop_sets:
  assumes f: "sets_page f v" and b: "unat b + 0x1000 \<le> 2 ^ 64"
    and pages: "\<And>j. visited a b j \<Longrightarrow> j < unat (num_bits s)" and fuel: "unat b \<le> unat a + fuel * 0x1000"
  shows "\<exists>t. page_loop f fuel s a b = Inr t \<and> same_but_bitmap s t \<and>
    (\<forall>j < 2 ^ 64. used t j \<longleftrightarrow> (if visited a b j then v else used s j))"
  using pages fuel
proof (induction fuel arbitrary: s a)
  case 0
  then have "\<not> a < b" by (simp add: word_less_nat_alt)
  moreover then have "\<not> visited a b j" for j by (auto simp: visited_def word_less_nat_alt)
  ultimately show ?case by (simp add: page_loop.simps)
next
  case (Suc fuel)
  show ?case
  proof (cases "a < b")
    case False
    moreover then have "\<not> visited a b j" for j by (auto simp: visited_def word_less_nat_alt)
    ultimately show ?thesis by (simp add: page_loop.simps)
  next
    case True
    note step = visited_step [OF True b]
    have "unat a div 0x1000 < unat (num_bits s)" using Suc.prems(1) step(1) by blast
    then have "a div 0x1000 < num_bits s" by (simp add: word_less_nat_alt unat_div)
    then obtain t where t: "f s a = Inr t" "same_but_bitmap s t"
        "\<And>j. page_used t j \<longleftrightarrow> (if j = a div 0x1000 then v else page_used s j)"
      using f unfolding sets_page_def by blast
    have bits: "num_bits t = num_bits s" using same_but_bitmap_fields(2) [OF t(2)] by simp
    have used: "used t j \<longleftrightarrow> (if j = unat a div 0x1000 then v else used s j)" if "j < 2 ^ 64" for j
      using t(3) [of "of_nat j"] that by (auto simp: used_def word_unat_eq_iff unat_div unat_of_nat)
    have "visited (a + 0x1000) b j \<Longrightarrow> j < unat (num_bits t)" for j
      using Suc.prems(1) step(1) by (simp add: bits)
    from Suc.IH [of "a + 0x1000" t, OF this] Suc.prems(2) step(2) obtain u where u: "page_loop f fuel t (a + 0x1000) b = Inr u"
        "same_but_bitmap t u" "\<forall>j < 2 ^ 64. used u j \<longleftrightarrow> (if visited (a + 0x1000) b j then v else used t j)"
      by auto
    have "page_loop f (Suc fuel) s a b = Inr u" using True t(1) u(1) by (simp add: page_loop.simps [of f "Suc fuel"])
    moreover have "same_but_bitmap s u" by (rule same_but_bitmap_trans [OF t(2) u(2)])
    moreover have "\<forall>j < 2 ^ 64. used u j \<longleftrightarrow> (if visited a b j then v else used s j)"
      using u(3) used step(1) by auto
    ultimately show ?thesis by blast
  qed
qed


section \<open>The map in memory\<close>

text \<open>The addresses of the entries of a map that ends.\<close>

fun map_list :: "64 bytes \<Rightarrow> u64 \<Rightarrow> u64 list \<Rightarrow> bool" where
  "map_list m p [] \<longleftrightarrow> p = MEM_PHYS_TO_VIRT 0"
| "map_list m p (q # qs) \<longleftrightarrow> p = q \<and> q \<noteq> MEM_PHYS_TO_VIRT 0 \<and> map_list m (next_region (read_memmap m q)) qs"

definition free_regions :: "64 bytes \<Rightarrow> u64 list \<Rightarrow> AWDPhysmemmap list" where
  "free_regions m qs = filter (\<lambda>e. map_type e = AWD_MEMMAP_FREE) (map (read_memmap m) qs)"

definition highest_end :: "AWDPhysmemmap list \<Rightarrow> u64" where
  "highest_end es = foldl (\<lambda>n e. max n (region_end e)) 0 es"

lemma discover_list:
  "map_list m p qs \<Longrightarrow> discover m p n = Some (foldl (\<lambda>n e. max n (region_end e)) n (free_regions m qs))"
proof (induction qs arbitrary: p n)
  case Nil
  then show ?case by (subst discover.simps) (simp add: free_regions_def)
next
  case (Cons q qs)
  have "(if n < x then x else n) = max n x" for n x :: u64 by (simp add: max_def) auto
  then show ?case using Cons by (subst discover.simps) (simp add: free_regions_def Let_def)
qed

lemma foldl_max_ge: "n \<le> foldl (\<lambda>n e. max n (region_end e)) n es"
proof (induction es arbitrary: n)
  case (Cons e es)
  have "n \<le> max n (region_end e)" by simp
  then show ?case using Cons.IH [of "max n (region_end e)"] by (simp del: max.cobounded1)
qed simp

lemma highest_end_ge: "e \<in> set es \<Longrightarrow> region_end e \<le> highest_end es"
proof -
  have "e \<in> set es \<Longrightarrow> region_end e \<le> foldl (\<lambda>n e. max n (region_end e)) n es" for n
  proof (induction es arbitrary: n)
    case (Cons d es)
    then show ?case
      using foldl_max_ge [of "max n (region_end d)" es] by auto
  qed simp
  then show "e \<in> set es \<Longrightarrow> region_end e \<le> highest_end es" by (simp add: highest_end_def)
qed

lemma read_memmap_same:
  assumes "\<And>x. in_range x a 24 \<Longrightarrow> m' x = m x"
  shows "read_memmap m' a = read_memmap m a"
proof -
  have "(load32 m' (a + of_nat off)) = load32 m (a + of_nat off)" if "off + 4 \<le> 24" for off
    using load_le_same [of a 24 m' m, OF assms that] by simp
  from this [of 0] this [of 8] this [of 12] this [of 16] this [of 20]
  have loads: "load32 m' a = load32 m a" "load32 m' (a + 8) = load32 m (a + 8)" "load32 m' (a + 12) = load32 m (a + 12)"
    "load32 m' (a + 16) = load32 m (a + 16)" "load32 m' (a + 20) = load32 m (a + 20)"
    by simp_all
  have "in_range (a + 4) a 24" using in_range_offset [of 4 24 a] by simp
  then show ?thesis using assms by (simp add: read_memmap_def loads)
qed

lemma map_list_same:
  assumes "map_list m p qs" and "\<forall>q \<in> set qs. \<forall>x. in_range x q 24 \<longrightarrow> m' x = m x"
  shows "map_list m' p qs" "free_regions m' qs = free_regions m qs"
proof -
  have "read_memmap m' q = read_memmap m q" if "q \<in> set qs" for q
    using assms(2) that by (intro read_memmap_same) blast
  then show "free_regions m' qs = free_regions m qs" by (simp add: free_regions_def cong: map_cong)
  show "map_list m' p qs" using assms
  proof (induction qs arbitrary: p)
    case (Cons q qs)
    then have "read_memmap m' q = read_memmap m q" by (intro read_memmap_same) simp
    then show ?case using Cons by simp
  qed simp
qed

definition freed :: "AWDPhysmemmap list \<Rightarrow> nat \<Rightarrow> bool" where
  "freed es j \<longleftrightarrow> (\<exists>e \<in> set es. visited (region_start e) (region_end e) j)"

text \<open>One entry of the map: its pages are freed when it is a free region.\<close>

lemma release_region:
  assumes "map_type e = AWD_MEMMAP_FREE \<Longrightarrow> unat (region_end e) + 0x1000 \<le> 2 ^ 64"
    and "\<And>j. map_type e = AWD_MEMMAP_FREE \<Longrightarrow> visited (region_start e) (region_end e) j \<Longrightarrow> j < unat (num_bits s)"
  obtains t where
    "(if map_type e = AWD_MEMMAP_FREE then page_loop pmm_free page_period s (region_start e) (region_end e) else Inr s) = Inr t"
    "same_but_bitmap s t" "\<And>j. j < 2 ^ 64 \<Longrightarrow> used t j \<longleftrightarrow> used s j \<and>
      \<not> (map_type e = AWD_MEMMAP_FREE \<and> visited (region_start e) (region_end e) j)"
proof (cases "map_type e = AWD_MEMMAP_FREE")
  case True
  have "unat (region_end e) \<le> unat (region_start e) + page_period * 0x1000"
    using unat_lt_power [of "region_end e"] by (simp add: page_period_def)
  from page_loop_sets [OF sets_page_pmm(2) assms(1) assms(2) this] True obtain t where
    "page_loop pmm_free page_period s (region_start e) (region_end e) = Inr t"
    "same_but_bitmap s t" "\<forall>j < 2 ^ 64. used t j \<longleftrightarrow> (if visited (region_start e) (region_end e) j then False else used s j)"
    by blast
  then show thesis using True that [of t] by auto
qed (use that [of s] in simp)

lemma release_list:
  assumes "map_list (kmem s) p qs"
    and "\<forall>q \<in> set qs. \<forall>x. in_range x q 24 \<longrightarrow> \<not> in_bitset (bitmap (kernel_pmm s)) x"
    and "\<forall>e \<in> set (free_regions (kmem s) qs). unat (region_end e) + 0x1000 \<le> 2 ^ 64"
    and "\<And>j. freed (free_regions (kmem s) qs) j \<Longrightarrow> j < unat (num_bits s)"
  shows "\<exists>t. release s p = Some (Inr t) \<and> same_but_bitmap s t \<and>
    (\<forall>j < 2 ^ 64. used t j \<longleftrightarrow> used s j \<and> \<not> freed (free_regions (kmem s) qs) j)"
  using assms
proof (induction qs arbitrary: p s)
  case Nil
  then show ?case by (subst release.simps) (simp add: freed_def free_regions_def)
next
  case (Cons q qs)
  define e where "e = read_memmap (kmem s) q"
  let ?body = "if map_type e = AWD_MEMMAP_FREE then page_loop pmm_free page_period s (region_start e) (region_end e) else Inr s"
  have "map_type e = AWD_MEMMAP_FREE \<Longrightarrow> e \<in> set (free_regions (kmem s) (q # qs))" by (simp add: free_regions_def e_def)
  then obtain t where t: "?body = Inr t" "same_but_bitmap s t" "\<And>j. j < 2 ^ 64 \<Longrightarrow> used t j \<longleftrightarrow> used s j \<and>
      \<not> (map_type e = AWD_MEMMAP_FREE \<and> visited (region_start e) (region_end e) j)"
    using release_region [of e s] Cons.prems(3,4) unfolding freed_def by metis
  have mem: "\<forall>q' \<in> set (q # qs). \<forall>x. in_range x q' 24 \<longrightarrow> kmem t x = kmem s x"
    using Cons.prems(2) t(2) by (auto simp: same_but_bitmap_def)
  have pmm: "kernel_pmm t = kernel_pmm s" by (rule same_but_bitmap_fields(2) [OF t(2)])
  have next_e: "read_memmap (kmem t) q = e" unfolding e_def using mem by (intro read_memmap_same) simp
  have rest: "map_list (kmem t) (next_region e) qs" "free_regions (kmem t) qs = free_regions (kmem s) qs"
    using map_list_same [of "kmem s" "next_region e" qs "kmem t"] Cons.prems(1) mem by (auto simp: e_def)
  have sub: "set (free_regions (kmem s) qs) \<subseteq> set (free_regions (kmem s) (q # qs))" by (auto simp: free_regions_def)
  then have freed_sub: "freed (free_regions (kmem s) qs) j \<Longrightarrow> freed (free_regions (kmem s) (q # qs)) j" for j
    by (auto simp: freed_def)
  have "\<forall>q \<in> set qs. \<forall>x. in_range x q 24 \<longrightarrow> \<not> in_bitset (bitmap (kernel_pmm t)) x"
    using Cons.prems(2) by (simp add: pmm)
  moreover have "\<forall>e \<in> set (free_regions (kmem t) qs). unat (region_end e) + 0x1000 \<le> 2 ^ 64"
    using Cons.prems(3) sub unfolding rest(2) by blast
  moreover have "freed (free_regions (kmem t) qs) j \<Longrightarrow> j < unat (num_bits t)" for j
    using Cons.prems(4) freed_sub unfolding rest(2) pmm by blast
  ultimately obtain u where u: "release t (next_region e) = Some (Inr u)"
      "same_but_bitmap t u" "\<forall>j < 2 ^ 64. used u j \<longleftrightarrow> used t j \<and> \<not> freed (free_regions (kmem s) qs) j"
    using Cons.IH [OF rest(1)] unfolding rest(2) by blast
  have q: "q \<noteq> MEM_PHYS_TO_VIRT 0" "p = q" using Cons.prems(1) by auto
  have "release s q = Some (Inr u)"
    using q(1) t(1) u(1) next_e by (subst release.simps) (simp add: Let_def e_def [symmetric])
  then have "release s p = Some (Inr u)" by (simp add: q(2))
  moreover have "freed (free_regions (kmem s) (q # qs)) j \<longleftrightarrow>
      map_type e = AWD_MEMMAP_FREE \<and> visited (region_start e) (region_end e) j \<or> freed (free_regions (kmem s) qs) j" for j
    by (auto simp: freed_def free_regions_def e_def)
  moreover have "same_but_bitmap s u" by (rule same_but_bitmap_trans [OF t(2) u(2)])
  ultimately show ?case using u(3) t(3) by auto
qed


section \<open>Properties\<close>

lemma read_info_same:
  assumes "\<And>x. in_range x a 32 \<Longrightarrow> m' x = m x"
  shows "ptr_phys_mem_map (read_awd_info m' a) = ptr_phys_mem_map (read_awd_info m a)"
  using load_le_same [of a 32 m' m 16 4, OF assms] by (simp add: read_awd_info_def)

lemma visited_below:
  assumes "visited a b j" and "b \<le> n" and "n mod 0x1000 = 0"
  shows "j < unat (n div 0x1000)"
proof -
  obtain k where k: "unat a + k * 0x1000 < unat b" "j = (unat a + k * 0x1000) div 0x1000"
    using assms(1) by (auto simp: visited_def)
  have "unat n mod 0x1000 = 0" using assms(3) by (simp add: word_unat_eq_iff unat_mod)
  then obtain c where c: "unat n = 0x1000 * c" by blast
  have "unat a + k * 0x1000 < c * 0x1000" using k(1) assms(2) c by (simp add: word_le_nat_alt)
  then have "j < c" unfolding k(2) by (simp add: less_mult_imp_div_less)
  then show ?thesis by (simp add: unat_div c)
qed

lemma low_pages: "visited 0 0x400000 j \<longleftrightarrow> j < 0x400"
proof
  assume "visited 0 0x400000 j"
  then obtain k where "k * 0x1000 < 0x400000" "j = k * 0x1000 div 0x1000" by (auto simp: visited_def)
  then show "j < 0x400" by simp
next
  assume "j < 0x400"
  then show "visited 0 0x400000 j" by (auto simp: visited_def intro!: exI [of _ j])
qed

text \<open>The second half: with every page used, the free regions are released, the low pages taken back.\<close>

lemma release_and_reserve:
  assumes map: "map_list (kmem s) p qs" and es: "es = free_regions (kmem s) qs"
    and apart: "\<forall>q \<in> set qs. \<forall>x. in_range x q 24 \<longrightarrow> \<not> in_bitset (bitmap (kernel_pmm s)) x"
    and regions: "\<forall>e \<in> set es. unat (region_end e) + 0x1000 \<le> 2 ^ 64"
    and freed: "\<And>j. freed es j \<Longrightarrow> j < unat (num_bits s)"
    and num: "0x400 \<le> unat (num_bits s)" "pmm_sized s" and all: "\<And>i. i < num_bits s \<Longrightarrow> page_used s i"
  shows "\<exists>t u. release s p = Some (Inr t) \<and> bind_r (page_loop pmm_set page_period t 0 0x400000) set_free_memory = Inr u \<and>
    pmm_sized u \<and> num_bits u = num_bits s \<and> (\<forall>j < unat (num_bits s). used u j \<longleftrightarrow> j < 0x400 \<or> \<not> freed es j) \<and>
    m_maxFreePages (kernel_pmm u) = of_nat (free_from u 0) \<and>
    (\<forall>x. \<not> in_bitset (bitmap (kernel_pmm s)) x \<longrightarrow> kmem u x = kmem s x)"
proof -
  obtain t where t: "release s p = Some (Inr t)" "same_but_bitmap s t" "\<And>j. j < 2 ^ 64 \<Longrightarrow> used t j \<longleftrightarrow> used s j \<and> \<not> freed es j"
    using release_list [OF map apart] regions freed unfolding es by metis
  have pt: "kernel_pmm t = kernel_pmm s" by (rule same_but_bitmap_fields(2) [OF t(2)])
  obtain v where v: "page_loop pmm_set page_period t 0 0x400000 = Inr v" "same_but_bitmap t v"
      "\<And>j. j < 2 ^ 64 \<Longrightarrow> used v j \<longleftrightarrow> j < 0x400 \<or> used t j"
    using page_loop_sets [OF sets_page_pmm(1), of "0x400000" 0 t page_period] num(1)
    by (auto simp: low_pages pt page_period_def)
  have pv: "kernel_pmm v = kernel_pmm s" using same_but_bitmap_fields(2) [OF v(2)] pt by simp
  have sized: "pmm_sized v" using num(2) by (simp add: pmm_sized_def pv)
  define u where "u = v\<lparr>kernel_pmm := (kernel_pmm v)\<lparr>
      m_nonMemoryBackedPages := m_nonMemoryBackedPages (kernel_pmm v) + (num_bits v - of_nat (free_from v 0)),
      m_maxFreePages := of_nat (free_from v 0)\<rparr>\<rparr>"
  have u: "set_free_memory v = Inr u" by (simp add: set_free_memory_def split_pages_eq [OF sized] u_def)
  have u_used: "used u j = used v j" for j by (simp add: u_def used_def page_used_def)
  have "free_from u 0 = free_from v 0" by (simp add: free_from_def u_used) (simp add: u_def)
  moreover have "used u j \<longleftrightarrow> j < 0x400 \<or> \<not> freed es j" if "j < unat (num_bits s)" for j
  proof -
    have j: "j < 2 ^ 64" using that unat_lt_power [of "num_bits s"] by simp
    then have "of_nat j < num_bits s" using that by (simp add: word_less_nat_alt unat_of_nat)
    then have "used s j" using all by (simp add: used_def)
    then show ?thesis using t(3) v(3) j by (simp add: u_used)
  qed
  moreover have "kmem u x = kmem s x" if "\<not> in_bitset (bitmap (kernel_pmm s)) x" for x
    using that t(2) v(2) by (simp add: same_but_bitmap_def pt u_def)
  moreover have "pmm_sized u" "num_bits u = num_bits s" "m_maxFreePages (kernel_pmm u) = of_nat (free_from v 0)"
    using sized by (simp_all add: u_def pmm_sized_def pv)
  ultimately show ?thesis using t(1) v(1) u by auto
qed

text \<open>C34. \<open>init_memory\<close> establishes what the rest of the kernel relies on: from a memory map that ends and
  lies outside the bitmap it makes, with the highest free byte at a page boundary of at least 4 MiB,
  it returns with one bit per page up to there, and a page is free exactly when it is not below
  4 MiB and a page of a free region of the map; the limit of free memory is the number of those
  pages, and nothing but the bitmap is written.\<close>

theorem init_memory_pages:
  assumes map: "map_list (kmem s) (MEM_PHYS_TO_VIRT (ucast (ptr_phys_mem_map (read_awd_info (kmem s) a)))) qs"
    and es: "es = free_regions (kmem s) qs" and num: "num = highest_end es div 0x1000"
    and top: "highest_end es mod 0x1000 = 0" "0x400000 \<le> highest_end es" "highest_end es \<le> 2 ^ 63"
    and fresh: "\<not> m_initialised (kernel_pmm s)" "currentMode (kheap s) = EarlyBoot"
      "block = align_base (earlyAllocBase (kheap s)) 8" "block + (num div 8 + 1) \<le> earlyAllocLimit (kheap s)"
    and apart: "disjoint_ranges a 32 block (unat (num div 8 + 1))"
      "\<forall>q \<in> set qs. disjoint_ranges q 24 block (unat (num div 8 + 1))"
  shows "\<exists>t. init_memory s a = Inr t \<and> pmm_sized t \<and> num_bits t = num \<and>
    (\<forall>j < unat num. used t j \<longleftrightarrow> j < 0x400 \<or> \<not> freed es j) \<and>
    m_maxFreePages (kernel_pmm t) = of_nat (free_from t 0) \<and>
    (\<forall>x. \<not> in_range x block (unat (num div 8 + 1)) \<longrightarrow> kmem t x = kmem s x)"
proof -
  let ?p = "MEM_PHYS_TO_VIRT (ucast (ptr_phys_mem_map (read_awd_info (kmem s) a)))"
  define s1 where "s1 = log_event (log_event s (Log ''mem'' ''Last addressable free RAM is 0x%p, or %p frames''
      [IntArg (highest_end es), IntArg num])) (Log ''mem'' ''Bitmap fits in %p bytes'' [IntArg (num div 8)])"
  have s1: "kmem s1 = kmem s" "kheap s1 = kheap s" "kernel_pmm s1 = kernel_pmm s"
    by (simp_all add: s1_def log_event_def)
  have "num \<le> highest_end es div 0x1000" by (simp add: num)
  also have "\<dots> \<le> 2 ^ 52" using top(3) by (simp add: word_le_nat_alt unat_div)
  finally have num52: "num \<le> 2 ^ 52" .
  have num400: "0x400 \<le> unat num" using top(2) by (simp add: num word_le_nat_alt unat_div)
  obtain s2 where s2: "pmm_init s1 num = Inr s2" "kernel_pmm s2 = (kernel_pmm s)\<lparr>m_numPages := num,
      bitmap := \<lparr>m_ptr = block, m_length = num\<rparr>, m_initialised := True\<rparr>" "\<And>i. i < num \<Longrightarrow> page_used s2 i"
      "\<And>x. \<not> in_range x block (unat (num div 8 + 1)) \<Longrightarrow> kmem s2 x = kmem s x"
      "\<And>x. in_bitset (bitmap (kernel_pmm s2)) x \<Longrightarrow> in_range x block (unat (num div 8 + 1))"
    using pmm_init_run [of s1 num block] fresh num52 unfolding s1 by metis
  have mem2: "\<forall>q \<in> set qs. \<forall>x. in_range x q 24 \<longrightarrow> kmem s2 x = kmem s x"
    using s2(4) apart(2) by (auto dest: disjoint_rangesD)
  have info2: "ptr_phys_mem_map (read_awd_info (kmem s2) a) = ptr_phys_mem_map (read_awd_info (kmem s) a)"
    using s2(4) apart(1) by (intro read_info_same) (auto dest: disjoint_rangesD)
  note map2 = map_list_same [OF map mem2]
  have regions: "unat (region_end e) + 0x1000 \<le> 2 ^ 64" if "e \<in> set es" for e
    using highest_end_ge [OF that] top(3) by (simp add: word_le_nat_alt)
  have freed: "j < unat num" if "freed es j" for j
    using that highest_end_ge visited_below [OF _ _ top(1)] by (auto simp: freed_def num)
  have "\<forall>q \<in> set qs. \<forall>x. in_range x q 24 \<longrightarrow> \<not> in_bitset (bitmap (kernel_pmm s2)) x"
    using s2(5) apart(2) by (auto dest: disjoint_rangesD)
  from release_and_reserve [OF map2(1) refl this] obtain t u where u: "release s2 ?p = Some (Inr t)"
      "bind_r (page_loop pmm_set page_period t 0 0x400000) set_free_memory = Inr u" "pmm_sized u" "num_bits u = num"
      "\<forall>j < unat num. used u j \<longleftrightarrow> j < 0x400 \<or> \<not> freed es j" "m_maxFreePages (kernel_pmm u) = of_nat (free_from u 0)"
      "\<forall>x. \<not> in_bitset (bitmap (kernel_pmm s2)) x \<longrightarrow> kmem u x = kmem s2 x"
    using regions freed num52 num400 s2(3) unfolding map2(2) es [symmetric] by (auto simp: s2(2) pmm_sized_def)
  have "init_memory s a = Inr u"
    using discover_list [OF map, of 0] s2(1) u(1,2)
    by (simp add: init_memory_def Let_def info2 highest_end_def [symmetric] es [symmetric] num [symmetric] s1_def)
  moreover have "kmem u x = kmem s x" if "\<not> in_range x block (unat (num div 8 + 1))" for x
    using s2(4) [OF that] s2(5) [of x] u(7) that by metis
  ultimately show ?thesis using u(3-6) by blast
qed


definition sample_boot :: kstate where
  "sample_boot = (sample_heap 0x1000 0x8000 EarlyBoot)\<lparr>kmem := (\<lambda>_. 0)
     (0x111 := 0x02, KERNEL_VMB + 0x216 := 0x80), kernel_pmm := pmm_initial\<rparr>"

lemma load32_bytes:
  "load32 m a = (ucast (m a) OR push_bit 8 (ucast (m (a + 1)) OR push_bit 8 (ucast (m (a + 2)) OR push_bit 8 (ucast (m (a + 3))))))"
proof -
  have "load_le (Suc (Suc (Suc (Suc 0)))) m a =
      (ucast (m a) OR push_bit 8 (ucast (m (a + 1)) OR push_bit 8 (ucast (m (a + 2)) OR push_bit 8 (ucast (m (a + 3))))) :: u32)"
    by (simp add: add.assoc)
  then show ?thesis by (simp only: numeral_eq_Suc pred_numeral_simps BitM.simps One_nat_def) 
qed

lemma sample_boot_map:
  "map_list (kmem sample_boot) (MEM_PHYS_TO_VIRT (ucast (ptr_phys_mem_map (read_awd_info (kmem sample_boot) 0x100)))) [KERNEL_VMB + 0x200]"
  "free_regions (kmem sample_boot) [KERNEL_VMB + 0x200] =
     [\<lparr>map_next = 0, map_type = 0, startAddress_hi = 0, startAddress_lo = 0, size_hi = 0, size_lo = 0x800000\<rparr>]"
  by (simp_all add: sample_boot_def sample_heap_def free_regions_def read_memmap_def read_awd_info_def load32_bytes
      next_region_def MEM_PHYS_TO_VIRT_def KERNEL_VMB_def AWD_MEMMAP_FREE_def)

theorem init_memory_pages_witness:
  "\<exists>t. init_memory sample_boot 0x100 = Inr t \<and> used t 0x3FF \<and> \<not> used t 0x400"
proof -
  have he: "highest_end (free_regions (kmem sample_boot) [KERNEL_VMB + 0x200]) = 0x800000"
    by (simp add: sample_boot_map highest_end_def region_end_def region_start_def region_size_def)
  have "visited 0 0x800000 0x400" by (auto simp: visited_def intro!: exI [of _ "0x400"])
  then have "freed (free_regions (kmem sample_boot) [KERNEL_VMB + 0x200]) 0x400"
    by (simp add: sample_boot_map freed_def region_end_def region_start_def region_size_def)
  moreover have "disjoint_ranges (0x100 :: u64) 32 0x1000 0x101" "disjoint_ranges (KERNEL_VMB + 0x200) 24 0x1000 0x101"
    using disjoint_ranges_below [of "0x100 :: u64" 32 "0x1000" "0x101"] disjoint_ranges_below [of "0x1000 :: u64" "0x101" "KERNEL_VMB + 0x200" 24]
    by (simp_all add: KERNEL_VMB_def disjoint_ranges_sym)
  ultimately show ?thesis
    using init_memory_pages [OF sample_boot_map(1) refl refl, where block = "0x1000"]
    by (auto simp: he) (auto simp: sample_boot_def sample_heap_def pmm_initial_def align_base_def)
qed

text \<open>Without a memory map the kernel does not boot: with a null pointer to the map in the loader's
  structure, \<open>init_memory\<close> makes a manager of no pages, and the assertion in its first attempt to
  mark a page below 4 MiB stops the kernel.\<close>

lemma init_memory_without_map:
  assumes "ptr_phys_mem_map (read_awd_info (kmem s) a) = 0"
    and "\<not> m_initialised (kernel_pmm s)" and "currentMode (kheap s) = EarlyBoot"
    and "block = align_base (earlyAllocBase (kheap s)) 8" and "block + 1 \<le> earlyAllocLimit (kheap s)"
    and "\<not> in_range block a 32"
  shows "init_memory s a = Inl Assertion_failed"
proof -
  define s1 where "s1 = log_event (log_event s (Log ''mem'' ''Last addressable free RAM is 0x%p, or %p frames''
      [IntArg 0, IntArg 0])) (Log ''mem'' ''Bitmap fits in %p bytes'' [IntArg 0])"
  have s1: "kmem s1 = kmem s" "kheap s1 = kheap s" "kernel_pmm s1 = kernel_pmm s"
    by (simp_all add: s1_def log_event_def)
  obtain s2 where s2: "pmm_init s1 0 = Inr s2" "kernel_pmm s2 = (kernel_pmm s)\<lparr>m_numPages := 0,
      bitmap := \<lparr>m_ptr = block, m_length = 0\<rparr>, m_initialised := True\<rparr>"
      "\<And>x. \<not> in_range x block 1 \<Longrightarrow> kmem s2 x = kmem s x"
    using pmm_init_run [of s1 0 block] assms(2-5) unfolding s1 by (simp del: bit_0_eq) metis
  have "kmem s2 x = kmem s x" if "in_range x a 32" for x
  proof -
    have "x \<noteq> block" using that assms(6) by auto
    then have "\<not> in_range x block 1" by (simp add: in_range_def unat_eq_0)
    then show ?thesis by (rule s2(3))
  qed
  then have info2: "ptr_phys_mem_map (read_awd_info (kmem s2) a) = 0"
    using read_info_same [of a "kmem s2" "kmem s"] assms(1) by simp
  have null: "discover m (MEM_PHYS_TO_VIRT 0) 0 = Some 0" "release s2 (MEM_PHYS_TO_VIRT 0) = Some (Inr s2)" for m
    by (subst discover.simps, simp) (subst release.simps, simp)
  have "pmm_set s2 0 = Inl Assertion_failed"
    by (cases rule: pmm_set_cases [of 0 s2]) (simp_all add: s2(2))
  then have "page_loop pmm_set page_period s2 0 0x400000 = Inl Assertion_failed"
    by (simp add: page_loop.simps page_period_def)
  then show ?thesis
    using assms(1) info2 null s2(1) by (simp add: init_memory_def Let_def s1_def)
qed

end
