(* ===== verification/Text_Screen.thy ===== *)
theory Text_Screen
  imports Prelude
begin

text \<open>
  The text screen that both consoles draw on: 25 rows of 80 cells of two bytes, a character and its
  attribute.  The first part is the abstract terminal, a grid with a cursor; the second reads
  the grid from memory and says what a store of one cell does to it; the third is the contract
  of a console that implements the terminal, from which the clients' lemmas follow: a text that
  fits the line appears in it, and a newline in the last row moves every row up.
\<close>

section \<open>The terminal\<close>

type_synonym cell = "u8 \<times> u8"

record terminal =
  grid :: "cell list list"
  cursor_col :: nat
  cursor_row :: nat

definition screen_ok :: "terminal \<Rightarrow> bool" where
  "screen_ok t \<longleftrightarrow> length (grid t) = 25 \<and> (\<forall>r \<in> set (grid t). length r = 80) \<and>
     cursor_col t < 80 \<and> cursor_row t < 25"

definition scroll_up :: "(cell \<Rightarrow> cell) \<Rightarrow> cell list list \<Rightarrow> cell list list" where
  "scroll_up wipe rs = tl rs @ [map wipe (last rs)]"

definition line_feed :: "(cell \<Rightarrow> cell) \<Rightarrow> nat \<Rightarrow> terminal \<Rightarrow> terminal" where
  "line_feed wipe left t =
     (if cursor_row t < 24 then t\<lparr>cursor_col := left, cursor_row := cursor_row t + 1\<rparr>
      else t\<lparr>grid := scroll_up wipe (grid t), cursor_col := left\<rparr>)"

definition set_cell :: "nat \<Rightarrow> nat \<Rightarrow> cell \<Rightarrow> cell list list \<Rightarrow> cell list list" where
  "set_cell y x c rs = rs[y := (rs ! y)[x := c]]"

definition type_cell :: "(cell \<Rightarrow> cell) \<Rightarrow> nat \<Rightarrow> cell \<Rightarrow> terminal \<Rightarrow> terminal" where
  "type_cell wipe left c t =
     (let t' = t\<lparr>grid := set_cell (cursor_row t) (cursor_col t) c (grid t)\<rparr> in
      if cursor_col t < 79 then t'\<lparr>cursor_col := cursor_col t + 1\<rparr> else line_feed wipe left t')"

definition rub_out :: "nat \<Rightarrow> terminal \<Rightarrow> terminal" where
  "rub_out left t =
     (let x = max left (cursor_col t - 1) in
      t\<lparr>grid := set_cell (cursor_row t) x (of_char CHR '' '', snd (grid t ! cursor_row t ! x)) (grid t), cursor_col := x\<rparr>)"

lemma set_cell_shape:
  assumes "length rs = 25" and "\<forall>r \<in> set rs. length r = 80" and "y < 25"
  shows "length (set_cell y x c rs) = 25 \<and> (\<forall>r \<in> set (set_cell y x c rs). length r = 80)"
proof -
  have "length (rs ! y) = 80" using assms by simp
  then show ?thesis using assms(1,2) set_update_subset_insert [of rs y "(rs ! y)[x := c]"]
    by (auto simp: set_cell_def)
qed

lemma scroll_up_shape:
  assumes "length rs = 25" and "\<forall>r \<in> set rs. length r = 80"
  shows "length (scroll_up wipe rs) = 25 \<and> (\<forall>r \<in> set (scroll_up wipe rs). length r = 80)"
proof -
  have "rs \<noteq> []" using assms(1) by auto
  then have "set (tl rs) \<subseteq> set rs" "last rs \<in> set rs" by (auto dest: list.set_sel(2))
  then show ?thesis using assms by (auto simp: scroll_up_def)
qed

lemma line_feed_ok: "screen_ok t \<Longrightarrow> left < 80 \<Longrightarrow> screen_ok (line_feed wipe left t)"
  using scroll_up_shape [of "grid t"] by (simp add: screen_ok_def line_feed_def)

lemma type_cell_ok: "screen_ok t \<Longrightarrow> left < 80 \<Longrightarrow> screen_ok (type_cell wipe left c t)"
proof -
  assume t: "screen_ok t" and left: "left < 80"
  then have "screen_ok (t\<lparr>grid := set_cell (cursor_row t) (cursor_col t) c (grid t)\<rparr>)"
    using set_cell_shape [of "grid t" "cursor_row t"] by (simp add: screen_ok_def)
  with left show ?thesis
    using line_feed_ok by (auto simp: type_cell_def Let_def) (simp add: screen_ok_def)
qed

lemma rub_out_ok: "screen_ok t \<Longrightarrow> left < 80 \<Longrightarrow> screen_ok (rub_out left t)"
  using set_cell_shape [of "grid t" "cursor_row t"] by (auto simp: rub_out_def screen_ok_def Let_def)

section \<open>The grid in memory\<close>

definition cell_at :: "('a::len) bytes \<Rightarrow> 'a word \<Rightarrow> nat \<Rightarrow> cell" where
  "cell_at m base k = (m (base + of_nat (2 * k)), m (base + of_nat (2 * k + 1)))"

definition put_cell :: "('a::len) bytes \<Rightarrow> 'a word \<Rightarrow> nat \<Rightarrow> cell \<Rightarrow> 'a bytes" where
  "put_cell m base k c = m(base + of_nat (2 * k) := fst c, base + of_nat (2 * k + 1) := snd c)"

definition screen :: "('a::len) bytes \<Rightarrow> 'a word \<Rightarrow> cell list list" where
  "screen m base = map (\<lambda>y. map (\<lambda>x. cell_at m base (y * 80 + x)) [0..<80]) [0..<25]"

text \<open>What drawing may change: the 4000 bytes of the screen.\<close>

definition same_off_screen :: "'a::len word \<Rightarrow> 'a bytes \<Rightarrow> 'a bytes \<Rightarrow> bool" where
  "same_off_screen base m m' \<longleftrightarrow> (\<forall>p. \<not> in_range p base 4000 \<longrightarrow> m' p = m p)"

lemma same_off_screen_refl [simp]: "same_off_screen base m m"
  by (simp add: same_off_screen_def)

lemma same_off_screen_trans:
  "same_off_screen base m m' \<Longrightarrow> same_off_screen base m' m'' \<Longrightarrow> same_off_screen base m m''"
  by (simp add: same_off_screen_def)

lemma screen_shape: "length (screen m base) = 25" "\<forall>r \<in> set (screen m base). length r = 80"
  by (auto simp: screen_def)

lemma screen_row_length: "y < 25 \<Longrightarrow> length (screen m base ! y) = 80"
  by (simp add: screen_def)

lemma screen_nth: "y < 25 \<Longrightarrow> x < 80 \<Longrightarrow> screen m base ! y ! x = cell_at m base (y * 80 + x)"
  by (simp add: screen_def)

lemma screen_eqI:
  assumes "length rs = 25" and "\<forall>r \<in> set rs. length r = 80"
    and "\<And>y x. y < 25 \<Longrightarrow> x < 80 \<Longrightarrow> cell_at m base (y * 80 + x) = rs ! y ! x"
  shows "screen m base = rs"
  using assms by (intro nth_equalityI) (auto simp: screen_nth screen_shape(1) screen_row_length intro!: nth_equalityI)

lemma of_nat_word_eq:
  assumes "12 \<le> LENGTH('a::len)" and "i < 4000" and "j < 4000"
  shows "(of_nat i :: 'a word) = of_nat j \<longleftrightarrow> i = j"
proof -
  have "(2::nat) ^ 12 \<le> 2 ^ LENGTH('a)" using assms(1) by (intro power_increasing) auto
  then have "i < 2 ^ LENGTH('a)" "j < 2 ^ LENGTH('a)" using assms(2,3) by auto
  then show ?thesis by (auto simp: word_unat_eq_iff unat_of_nat)
qed

lemma cell_at_put:
  assumes "12 \<le> LENGTH('a::len)" and "k < 2000" and "j < 2000"
  shows "cell_at (put_cell m (base :: 'a word) k c) base j = (if j = k then c else cell_at m base j)"
proof -
  note eq = of_nat_word_eq [OF assms(1)]
  have "(of_nat (2 * i) :: 'a word) \<noteq> of_nat (2 * i' + 1)" if "i < 2000" "i' < 2000" for i i'
  proof -
    have "2 * i \<noteq> 2 * i' + 1" by presburger
    then show ?thesis using eq [of "2 * i" "2 * i' + 1"] that by simp
  qed
  note odd = this [OF assms(3,2)] this [OF assms(2,3), symmetric]
  have "(of_nat (2 * j) :: 'a word) = of_nat (2 * k) \<longleftrightarrow> j = k"
    "(of_nat (2 * j + 1) :: 'a word) = of_nat (2 * k + 1) \<longleftrightarrow> j = k"
    using eq [of "2 * j" "2 * k"] eq [of "2 * j + 1" "2 * k + 1"] assms(2,3) by auto
  with odd show ?thesis
    unfolding cell_at_def put_cell_def fun_upd_apply add_left_cancel by (cases "j = k") simp_all
qed

lemma even_odd_word:
  assumes "12 \<le> LENGTH('a::len)" and "i < 2000" and "j < 2000"
  shows "(of_nat (2 * i + 1) :: 'a word) \<noteq> of_nat (2 * j)"
proof -
  have "2 * i + 1 \<noteq> 2 * j" by presburger
  then show ?thesis using of_nat_word_eq [OF assms(1), of "2 * i + 1" "2 * j"] assms(2,3) by simp
qed

lemma put_cell_char:
  assumes "12 \<le> LENGTH('a::len)" and "k < 2000"
  shows "put_cell m (base :: 'a word) k (v, snd (cell_at m base k)) = m(base + of_nat (2 * k) := v)"
  using even_odd_word [OF assms(1,2,2)] by (simp only: put_cell_def fst_conv snd_conv cell_at_def) (rule fun_upd_idem, simp)

lemma put_cell_off_screen:
  assumes "12 \<le> LENGTH('a::len)" and "k < 2000"
  shows "same_off_screen (base :: 'a word) m (put_cell m base k c)"
proof -
  have "(2::nat) ^ 12 \<le> 2 ^ LENGTH('a)" using assms(1) by (intro power_increasing) auto
  then have "in_range (base + of_nat (2 * k)) base 4000" "in_range (base + of_nat (2 * k + 1)) base 4000"
    using assms(2) by (intro in_range_offset; simp)+
  then show ?thesis by (auto simp: same_off_screen_def put_cell_def)
qed

lemma screen_put:
  assumes "12 \<le> LENGTH('a::len)" and "y < 25" and "x < 80"
  shows "screen (put_cell m (base :: 'a word) (y * 80 + x) c) base = set_cell y x c (screen m base)"
proof (rule screen_eqI)
  fix y' x' :: nat assume *: "y' < 25" "x' < 80"
  then have lt: "y' * 80 + x' < 2000" "y * 80 + x < 2000" using assms by auto
  have "(y' * 80 + x') div 80 = y'" "(y * 80 + x) div 80 = y" using * assms by simp_all
  then have "y' * 80 + x' = y * 80 + x \<longleftrightarrow> y' = y \<and> x' = x" by (metis add_left_cancel)
  then show "cell_at (put_cell m base (y * 80 + x) c) base (y' * 80 + x') = set_cell y x c (screen m base) ! y' ! x'"
    using * assms(2,3) cell_at_put [OF assms(1) lt(2,1)]
    by (simp only: set_cell_def nth_list_update screen_shape(1) screen_row_length screen_nth)
      (simp add: screen_nth screen_row_length)
qed (use set_cell_shape [OF screen_shape assms(2)] in blast)+

section \<open>Scrolling\<close>

text \<open>Both consoles scroll by copying cell by cell, row by row: row \<open>y + 1\<close> to row \<open>y\<close>.\<close>

definition copy_cell :: "'a::len word \<Rightarrow> nat \<Rightarrow> 'a bytes \<Rightarrow> nat \<Rightarrow> 'a bytes" where
  "copy_cell base y m x = put_cell m base (y * 80 + x) (cell_at m base ((y + 1) * 80 + x))"

definition copy_row :: "'a::len word \<Rightarrow> 'a bytes \<Rightarrow> nat \<Rightarrow> 'a bytes" where
  "copy_row base m y = foldl (copy_cell base y) m [0..<80]"

definition wipe_cell :: "(cell \<Rightarrow> cell) \<Rightarrow> 'a::len word \<Rightarrow> 'a bytes \<Rightarrow> nat \<Rightarrow> 'a bytes" where
  "wipe_cell wipe base m x = put_cell m base (24 * 80 + x) (wipe (cell_at m base (24 * 80 + x)))"

lemma copy_cells:
  assumes "12 \<le> LENGTH('a::len)" and "y < 24" and "n \<le> 80"
  shows "(\<forall>k < 2000. cell_at (foldl (copy_cell base y) m [0..<n]) (base :: 'a word) k =
      (if y * 80 \<le> k \<and> k < y * 80 + n then cell_at m base (k + 80) else cell_at m base k)) \<and>
    same_off_screen base m (foldl (copy_cell base y) m [0..<n])"
  using assms(3)
proof (induction n)
  case (Suc n)
  let ?m = "foldl (copy_cell base y) m [0..<n]"
  have IH: "\<And>k. k < 2000 \<Longrightarrow> cell_at ?m base k =
      (if y * 80 \<le> k \<and> k < y * 80 + n then cell_at m base (k + 80) else cell_at m base k)"
    and off: "same_off_screen base m ?m"
    using Suc by auto
  have lt: "y * 80 + n < 2000" "(y + 1) * 80 + n < 2000" using assms(2) Suc.prems by auto
  have src: "cell_at ?m base ((y + 1) * 80 + n) = cell_at m base (y * 80 + n + 80)"
    using IH [OF lt(2)] Suc.prems by (simp add: algebra_simps)
  have step: "foldl (copy_cell base y) m [0..<Suc n] = put_cell ?m base (y * 80 + n) (cell_at m base (y * 80 + n + 80))"
    unfolding src [symmetric] by (simp add: copy_cell_def)
  show ?case unfolding step
    using cell_at_put [OF assms(1) lt(1)] IH same_off_screen_trans [OF off put_cell_off_screen [OF assms(1) lt(1)]]
    by (auto simp: le_less less_Suc_eq)
qed auto

lemma copy_rows:
  assumes "12 \<le> LENGTH('a::len)" and "n \<le> 24"
  shows "(\<forall>k < 2000. cell_at (foldl (copy_row base) m [0..<n]) (base :: 'a word) k =
      (if k < n * 80 then cell_at m base (k + 80) else cell_at m base k)) \<and>
    same_off_screen base m (foldl (copy_row base) m [0..<n])"
  using assms(2)
proof (induction n)
  case (Suc n)
  let ?m = "foldl (copy_row base) m [0..<n]"
  have IH: "\<And>k. k < 2000 \<Longrightarrow> cell_at ?m base k = (if k < n * 80 then cell_at m base (k + 80) else cell_at m base k)"
    and off: "same_off_screen base m ?m"
    using Suc by auto
  note cells = copy_cells [OF assms(1), of n 80 base ?m]
  have n: "n < 24" using Suc.prems by simp
  have "cell_at (copy_row base ?m n) base k = (if k < Suc n * 80 then cell_at m base (k + 80) else cell_at m base k)"
    if k: "k < 2000" for k
  proof (cases "n * 80 \<le> k \<and> k < n * 80 + 80")
    case True
    then have "k + 80 < 2000" using n by linarith
    then show ?thesis using cells n k True IH [of "k + 80"] by (simp add: copy_row_def)
  next
    case False
    then show ?thesis using cells n k IH [of k] by (auto simp: copy_row_def)
  qed
  moreover have "same_off_screen base m (copy_row base ?m n)"
    using cells n same_off_screen_trans [OF off] by (simp add: copy_row_def)
  moreover have "foldl (copy_row base) m [0..<Suc n] = copy_row base ?m n" by simp
  ultimately show ?case by metis
qed simp

lemma wipe_cells:
  assumes "12 \<le> LENGTH('a::len)" and "n \<le> 80"
  shows "(\<forall>k < 2000. cell_at (foldl (wipe_cell wipe base) m [0..<n]) (base :: 'a word) k =
      (if 1920 \<le> k \<and> k < 1920 + n then wipe (cell_at m base k) else cell_at m base k)) \<and>
    same_off_screen base m (foldl (wipe_cell wipe base) m [0..<n])"
  using assms(2)
proof (induction n)
  case (Suc n)
  let ?m = "foldl (wipe_cell wipe base) m [0..<n]"
  have IH: "\<And>k. k < 2000 \<Longrightarrow> cell_at ?m base k = (if 1920 \<le> k \<and> k < 1920 + n then wipe (cell_at m base k) else cell_at m base k)"
    and off: "same_off_screen base m ?m"
    using Suc by auto
  have lt: "24 * 80 + n < 2000" using Suc.prems by simp
  have step: "foldl (wipe_cell wipe base) m [0..<Suc n] = put_cell ?m base (24 * 80 + n) (wipe (cell_at m base (24 * 80 + n)))"
    using IH [OF lt] by (simp add: wipe_cell_def [of _ _ ?m])
  show ?case unfolding step
    using cell_at_put [OF assms(1) lt] IH same_off_screen_trans [OF off put_cell_off_screen [OF assms(1) lt]]
    by (auto simp: less_Suc_eq)
qed auto

lemma scroll_screen:
  assumes "12 \<le> LENGTH('a::len)"
    and m'_def: "m' = foldl (wipe_cell wipe base) (foldl (copy_row base) m [0..<24]) [0..<80]"
  shows "screen m' (base :: 'a word) = scroll_up wipe (screen m base)" "same_off_screen base m m'"
proof -
  note rows = copy_rows [OF assms(1) order.refl, of base m]
  note wiped = wipe_cells [OF assms(1) order.refl, of wipe base "foldl (copy_row base) m [0..<24]"]
  show "same_off_screen base m m'"
    unfolding m'_def using rows wiped same_off_screen_trans by blast
  have cells: "cell_at m' base k = (if k < 1920 then cell_at m base (k + 80) else wipe (cell_at m base k))" if "k < 2000" for k
    using rows wiped that by (simp add: m'_def)
  show "screen m' base = scroll_up wipe (screen m base)"
  proof (rule screen_eqI)
    fix y x :: nat assume yx: "y < 25" "x < 80"
    then have "y * 80 + x < 2000" by auto
    moreover have "last (screen m base) = screen m base ! 24"
      by (subst last_conv_nth) (auto simp: screen_shape simp flip: length_0_conv)
    moreover have "y < 24" if "y \<noteq> 24" using that yx by simp
    ultimately show "cell_at m' base (y * 80 + x) = scroll_up wipe (screen m base) ! y ! x"
      using yx by (cases "y = 24")
        (auto simp: cells scroll_up_def nth_append nth_tl screen_nth screen_shape screen_row_length algebra_simps)
  qed (use scroll_up_shape [OF screen_shape] in blast)+
qed

section \<open>A console\<close>

lemma splice_update:
  assumes "n < length xs"
  shows "take (n + 1) (xs[n := v]) @ ys @ drop (n + 1 + k) (xs[n := v]) = take n xs @ (v # ys) @ drop (n + Suc k) xs"
  using take_Suc_conv_app_nth [of n "xs[n := v]"] assms by simp

text \<open>
  A console draws plain characters as the terminal types cells.  \<open>indent\<close> is the column a new
  line starts in, \<open>colour\<close> the attribute of new cells, \<open>wipe\<close> what scrolling makes of the cells of the
  last row.
\<close>

locale console =
  fixes put :: "'s \<Rightarrow> char \<Rightarrow> 's"
    and ok :: "'s \<Rightarrow> bool"
    and view :: "'s \<Rightarrow> terminal"
    and indent :: "'s \<Rightarrow> nat"
    and colour :: "'s \<Rightarrow> u8"
    and wipe :: "'s \<Rightarrow> cell \<Rightarrow> cell"
    and plain :: "char \<Rightarrow> bool"
  assumes put_plain: "ok s \<Longrightarrow> plain c \<Longrightarrow> c \<noteq> CHR 0x0A \<Longrightarrow>
      ok (put s c) \<and> view (put s c) = type_cell (wipe s) (indent s) (of_char c, colour s) (view s) \<and>
      indent (put s c) = indent s \<and> colour (put s c) = colour s \<and> wipe (put s c) = wipe s"
    and put_newline: "ok s \<Longrightarrow>
      ok (put s CHR 0x0A) \<and> view (put s CHR 0x0A) = line_feed (wipe s) (indent s) (view s) \<and>
      indent (put s CHR 0x0A) = indent s \<and> colour (put s CHR 0x0A) = colour s \<and> wipe (put s CHR 0x0A) = wipe s"
    and view_ok: "ok s \<Longrightarrow> screen_ok (view s)"
begin

lemma text_in_line:
  assumes "ok s" and "\<forall>c \<in> set str. plain c \<and> c \<noteq> CHR 0x0A"
    and "cursor_col (view s) + length str < 80"
  shows "ok (foldl put s str) \<and>
    view (foldl put s str) = (view s)\<lparr>
      grid := (grid (view s))[cursor_row (view s) :=
        take (cursor_col (view s)) (grid (view s) ! cursor_row (view s)) @ map (\<lambda>c. (of_char c, colour s)) str @
        drop (cursor_col (view s) + length str) (grid (view s) ! cursor_row (view s))],
      cursor_col := cursor_col (view s) + length str\<rparr> \<and>
    indent (foldl put s str) = indent s \<and> colour (foldl put s str) = colour s \<and> wipe (foldl put s str) = wipe s"
  using assms
proof (induction str arbitrary: s)
  case (Cons c str)
  let ?r = "grid (view s) ! cursor_row (view s)" and ?x = "cursor_col (view s)"
  have put: "ok (put s c)" "view (put s c) = type_cell (wipe s) (indent s) (of_char c, colour s) (view s)"
    "indent (put s c) = indent s" "colour (put s c) = colour s" "wipe (put s c) = wipe s"
    using put_plain [OF Cons.prems(1)] Cons.prems(2) by auto
  have x: "?x < 79" "?x < 80" using Cons.prems(3) by auto
  have shape: "cursor_row (view s) < length (grid (view s))" "length ?r = 80"
    using view_ok [OF Cons.prems(1)] by (auto simp: screen_ok_def)
  have view: "view (put s c) = (view s)\<lparr>grid := set_cell (cursor_row (view s)) ?x (of_char c, colour s) (grid (view s)),
      cursor_col := ?x + 1\<rparr>"
    using x by (simp add: put type_cell_def Let_def)
  have rest: "\<forall>c \<in> set str. plain c \<and> c \<noteq> CHR 0x0A" "cursor_col (view (put s c)) + length str < 80"
    using Cons.prems(2,3) by (simp_all add: view)
  have IH: "ok (foldl put (put s c) str)" "view (foldl put (put s c) str) = (view (put s c))\<lparr>
      grid := (grid (view (put s c)))[cursor_row (view (put s c)) :=
        take (cursor_col (view (put s c))) (grid (view (put s c)) ! cursor_row (view (put s c))) @
        map (\<lambda>c. (of_char c, colour s)) str @
        drop (cursor_col (view (put s c)) + length str) (grid (view (put s c)) ! cursor_row (view (put s c)))],
      cursor_col := cursor_col (view (put s c)) + length str\<rparr>"
    "indent (foldl put (put s c) str) = indent s" "colour (foldl put (put s c) str) = colour s"
    "wipe (foldl put (put s c) str) = wipe s"
    using Cons.IH [OF put(1) rest] unfolding put(3-5) by blast+
  let ?new = "take ?x ?r @ map (\<lambda>c. (of_char c, colour s)) (c # str) @ drop (?x + length (c # str)) ?r"
  have row: "grid (view (put s c)) ! cursor_row (view (put s c)) = ?r[?x := (of_char c, colour s)]"
    "cursor_row (view (put s c)) = cursor_row (view s)" "cursor_col (view (put s c)) = ?x + 1"
    using shape(1) by (simp_all add: view set_cell_def)
  have e: "take (?x + 1) (?r[?x := (of_char c, colour s)]) @ map (\<lambda>c. (of_char c, colour s)) str @
      drop (?x + 1 + length str) (?r[?x := (of_char c, colour s)]) = ?new"
    using splice_update [of ?x ?r "(of_char c, colour s)"] shape(2) x(2) by (simp only: list.map list.size add_Suc_right add_0_right)
  have "view (foldl put (put s c) str) = (view s)\<lparr>grid := (grid (view s))[cursor_row (view s) := ?new],
      cursor_col := ?x + length (c # str)\<rparr>"
    unfolding IH(2) row(2,3) row(1) [unfolded row(2)] e by (simp add: view set_cell_def)
  then show ?case using IH(1,3-5) by simp
qed (use view_ok in \<open>simp add: screen_ok_def\<close>)

lemma newline_rows:
  assumes "ok s" and "cursor_row (view s) = 24" and "y < 24"
  shows "grid (view (put s CHR 0x0A)) ! y = grid (view s) ! (y + 1)"
  using put_newline [OF assms(1)] view_ok [OF assms(1)] assms(2,3)
  by (simp add: line_feed_def scroll_up_def screen_ok_def nth_append nth_tl)

end

end
