(* ===== verification/Vga_Console.thy ===== *)
theory Vga_Console
  imports Text_Screen Kernel_Base
begin

text \<open>
  The kernel's screen console, src/lobo/arch/x86_64/drivers/vga_console.cpp with its header.  The
  memory is the kernel's, the text buffer is at \<open>bufferAddr\<close>; \<open>x\<close>, \<open>y\<close> and \<open>leftColumn\<close> are of the
  type \<open>int\<close> and stay small, so they are integers here, while the offsets into the buffer are
  converted to \<open>unsigned int\<close> as in the code.
\<close>

section \<open>The device\<close>

record vga =
  bufferAddr :: u64
  vga_x :: int
  vga_y :: int
  leftColumn :: int
  attribute :: u8

definition vga_initial :: vga where
  "vga_initial = \<lparr>bufferAddr = 0, vga_x = 0, vga_y = 0, leftColumn = 0, attribute = 0x0F\<rparr>"

definition vga_width :: int where "vga_width = 80"
definition vga_height :: int where "vga_height = 25"

type_synonym vga_state = "vga \<times> 64 bytes"

definition vga_Init :: "vga \<Rightarrow> int \<Rightarrow> int \<Rightarrow> vga" where
  "vga_Init d curX curY = d\<lparr>vga_x := curX, vga_y := curY, bufferAddr := 0xB8000\<rparr>"

text \<open>\<open>((y * width) + x) * 2\<close>, an \<open>int\<close> stored in an \<open>unsigned int\<close>.\<close>

definition vga_offset :: "int \<Rightarrow> int \<Rightarrow> u32" where
  "vga_offset y x = word_of_int ((y * vga_width + x) * 2)"

definition vga_store :: "vga_state \<Rightarrow> u32 \<Rightarrow> u8 \<Rightarrow> vga_state" where
  "vga_store s offset v = (case s of (d, m) \<Rightarrow> (d, m(bufferAddr d + ucast offset := v)))"

definition vga_load :: "vga_state \<Rightarrow> u32 \<Rightarrow> u8" where
  "vga_load s offset = (case s of (d, m) \<Rightarrow> m (bufferAddr d + ucast offset))"

section \<open>Operations\<close>

text \<open>The two loops of \<open>AttemptScroll\<close>, over \<open>yi\<close> from 1 and \<open>xi\<close> from 0, and the one over the last line.\<close>

definition vga_copy_cell :: "nat \<Rightarrow> vga_state \<Rightarrow> nat \<Rightarrow> vga_state" where
  "vga_copy_cell yi s xi =
     (let offsetI = vga_offset (int yi) (int xi); offsetP = vga_offset (int yi - 1) (int xi);
          s = vga_store s offsetP (vga_load s offsetI)
      in vga_store s (offsetP + 1) (vga_load s (offsetI + 1)))"

definition vga_copy_row :: "vga_state \<Rightarrow> nat \<Rightarrow> vga_state" where
  "vga_copy_row s yi = foldl (vga_copy_cell yi) s [0..<nat vga_width]"

definition vga_clear_cell :: "vga_state \<Rightarrow> nat \<Rightarrow> vga_state" where
  "vga_clear_cell s xi = vga_store s (vga_offset (vga_height - 1) (int xi)) (of_char CHR '' '')"

definition AttemptScroll :: "vga_state \<Rightarrow> vga_state" where
  "AttemptScroll s =
     (let s = (if vga_x (fst s) \<ge> vga_width
               then ((fst s)\<lparr>vga_x := leftColumn (fst s), vga_y := vga_y (fst s) + 1\<rparr>, snd s) else s) in
      if vga_y (fst s) \<ge> vga_height then
        let s = foldl vga_copy_row s [1..<nat vga_height];
            s = ((fst s)\<lparr>vga_y := vga_y (fst s) - 1\<rparr>, snd s)
        in foldl vga_clear_cell s [0..<nat vga_width]
      else s)"

definition vga_PrintChar :: "vga_state \<Rightarrow> char \<Rightarrow> vga_state" where
  "vga_PrintChar s c =
     (let d = fst s; offset = vga_offset (vga_y d) (vga_x d);
          s = (if c = CHR 0x0A then (d\<lparr>vga_x := leftColumn d, vga_y := vga_y d + 1\<rparr>, snd s)
               else if c = CHR 0x08 then
                 let d = d\<lparr>vga_x := vga_x d - 1\<rparr>;
                     d = (if vga_x d < leftColumn d then d\<lparr>vga_x := leftColumn d\<rparr> else d)
                 in vga_store (d, snd s) (vga_offset (vga_y d) (vga_x d)) (of_char CHR '' '')
               else
                 let s = vga_store s offset (of_char c); s = vga_store s (offset + 1) (attribute d)
                 in ((fst s)\<lparr>vga_x := vga_x (fst s) + 1\<rparr>, snd s))
      in AttemptScroll s)"

definition vga_Clear :: "vga \<Rightarrow> vga" where
  "vga_Clear d = d\<lparr>vga_x := 0, vga_y := 0\<rparr>"

definition vga_FormatSetLeftColumn :: "vga \<Rightarrow> int \<Rightarrow> vga" where
  "vga_FormatSetLeftColumn d column = d\<lparr>leftColumn := column\<rparr>"

section \<open>The device as a console\<close>

definition vga_ok :: "vga_state \<Rightarrow> bool" where
  "vga_ok s \<longleftrightarrow> 0 \<le> vga_x (fst s) \<and> vga_x (fst s) < 80 \<and> 0 \<le> vga_y (fst s) \<and> vga_y (fst s) < 25 \<and>
     0 \<le> leftColumn (fst s) \<and> leftColumn (fst s) < 80"

definition vga_view :: "vga_state \<Rightarrow> terminal" where
  "vga_view s = \<lparr>grid = screen (snd s) (bufferAddr (fst s)), cursor_col = nat (vga_x (fst s)),
     cursor_row = nat (vga_y (fst s))\<rparr>"

text \<open>Scrolling clears the characters of the last row and keeps their attributes.\<close>

definition vga_wipe :: "cell \<Rightarrow> cell" where "vga_wipe c = (of_char CHR '' '', snd c)"

lemma vga_offset_nat:
  assumes "y < 25" and "x < 80"
  shows "(ucast (vga_offset (int y) (int x)) :: u64) = of_nat (2 * (y * 80 + x))"
    "(ucast (vga_offset (int y) (int x) + 1) :: u64) = of_nat (2 * (y * 80 + x) + 1)"
proof -
  define k where "k = 2 * (y * 80 + x)"
  have k: "k < 4000" using assms by (simp add: k_def)
  have o: "vga_offset (int y) (int x) = of_nat k"
    by (simp add: vga_offset_def vga_width_def k_def algebra_simps)
  have u: "unat (of_nat j :: u32) = j" "unat (of_nat j :: u64) = j" if "j \<le> 4000" for j
    using that by (simp_all add: unat_of_nat)
  have o1: "vga_offset (int y) (int x) + 1 = of_nat (k + 1)" by (simp add: o)
  have "(ucast (of_nat j :: u32) :: u64) = of_nat j" if "j \<le> 4000" for j
    using u [OF that] unat_ucast_up [of "of_nat j :: u32", where 'b = 64] by (simp add: word_unat_eq_iff)
  then show "(ucast (vga_offset (int y) (int x)) :: u64) = of_nat k"
    "(ucast (vga_offset (int y) (int x) + 1) :: u64) = of_nat (k + 1)"
    unfolding o1 unfolding o using k by (simp_all del: of_nat_Suc of_nat_add)
qed

lemma vga_access:
  assumes "y < 25" and "x < 80"
  shows "vga_store (d, m) (vga_offset (int y) (int x)) v = (d, m(bufferAddr d + of_nat (2 * (y * 80 + x)) := v))"
    "vga_store (d, m) (vga_offset (int y) (int x) + 1) v = (d, m(bufferAddr d + of_nat (2 * (y * 80 + x) + 1) := v))"
    "vga_load (d, m) (vga_offset (int y) (int x)) = m (bufferAddr d + of_nat (2 * (y * 80 + x)))"
    "vga_load (d, m) (vga_offset (int y) (int x) + 1) = m (bufferAddr d + of_nat (2 * (y * 80 + x) + 1))"
  unfolding vga_store_def vga_load_def prod.case vga_offset_nat [OF assms] by (rule refl)+

lemma vga_put_cell:
  assumes "y < 25" and "x < 80"
  shows "vga_store (vga_store (d, m) (vga_offset (int y) (int x)) a) (vga_offset (int y) (int x) + 1) b =
      (d, put_cell m (bufferAddr d) (y * 80 + x) (a, b))"
  unfolding vga_access [OF assms] put_cell_def by simp

lemma vga_copy_cell_eq:
  assumes "y < 24" and "x < 80"
  shows "vga_copy_cell (Suc y) (d, m) x = (d, copy_cell (bufferAddr d) y m x)"
proof -
  define k where "k = y * 80 + x"
  define k' where "k' = Suc y * 80 + x"
  have lt: "k < 2000" "k' < 2000" "Suc y < 25" "y < 25" using assms by (auto simp: k_def k'_def)
  note access = vga_access [OF lt(3) assms(2), folded k'_def] vga_access [OF lt(4) assms(2), folded k_def]
  have "int (Suc y) - 1 = int y" by simp
  then show ?thesis
    using even_odd_word [of k' k, where 'a = 64] lt(1,2)
    unfolding vga_copy_cell_def Let_def copy_cell_def Suc_eq_plus1 [symmetric] k_def [symmetric] k'_def [symmetric]
    by (simp only: access put_cell_def cell_at_def fst_conv snd_conv fun_upd_apply add_left_cancel) simp
qed

lemma vga_copy_row_eq:
  assumes "y < 24"
  shows "vga_copy_row (d, m) (Suc y) = (d, copy_row (bufferAddr d) m y)"
proof -
  have "foldl (vga_copy_cell (Suc y)) (d, m) xs = (d, foldl (copy_cell (bufferAddr d) y) m xs)"
    if "\<forall>x \<in> set xs. x < 80" for xs
    using that by (induction xs arbitrary: m) (simp_all add: vga_copy_cell_eq [OF assms])
  then show ?thesis by (simp add: vga_copy_row_def copy_row_def vga_width_def del: upt_Suc)
qed

lemma vga_copy_rows_eq:
  "foldl vga_copy_row (d, m) [1..<25] = (d, foldl (copy_row (bufferAddr d)) m [0..<24])"
proof -
  have "foldl vga_copy_row (d, m) (map Suc ys) = (d, foldl (copy_row (bufferAddr d)) m ys)"
    if "\<forall>y \<in> set ys. y < 24" for ys
    using that by (induction ys arbitrary: m) (simp_all add: vga_copy_row_eq)
  moreover have "[1..<25] = map Suc [0..<24]" unfolding map_Suc_upt by simp
  ultimately show ?thesis by (simp del: upt_Suc)
qed

lemma vga_clear_row_eq:
  "foldl vga_clear_cell (d, m) [0..<80] = (d, foldl (wipe_cell vga_wipe (bufferAddr d)) m [0..<80])"
proof -
  have "vga_clear_cell (d, m) x = (d, wipe_cell vga_wipe (bufferAddr d) m x)" if "x < 80" for m x
    using put_cell_char [of "24 * 80 + x" m "bufferAddr d" "of_char CHR '' ''"] vga_access(1) [of 24 x d m] that
    by (simp add: vga_clear_cell_def vga_height_def wipe_cell_def vga_wipe_def)
  then have "foldl vga_clear_cell (d, m) xs = (d, foldl (wipe_cell vga_wipe (bufferAddr d)) m xs)"
    if "\<forall>x \<in> set xs. x < 80" for xs
    using that by (induction xs arbitrary: m) simp_all
  then show ?thesis by (simp del: upt_Suc)
qed

text \<open>What no operation on characters changes.\<close>

definition vga_same :: "vga_state \<Rightarrow> vga_state \<Rightarrow> bool" where
  "vga_same s s' \<longleftrightarrow> bufferAddr (fst s') = bufferAddr (fst s) \<and> leftColumn (fst s') = leftColumn (fst s) \<and>
     attribute (fst s') = attribute (fst s) \<and> same_off_screen (bufferAddr (fst s)) (snd s) (snd s')"

lemma vga_same_trans: "vga_same s t \<Longrightarrow> vga_same t u \<Longrightarrow> vga_same s u"
  by (auto simp: vga_same_def elim: same_off_screen_trans)

lemma AttemptScroll_in: "vga_x d < 80 \<Longrightarrow> vga_y d < 25 \<Longrightarrow> AttemptScroll (d, m) = (d, m)"
  by (simp add: AttemptScroll_def vga_width_def vga_height_def)

lemma AttemptScroll_newline:
  assumes "0 \<le> vga_y d" and "vga_y d < 25" and "0 \<le> leftColumn d" and "leftColumn d < 80"
    and s': "s' = AttemptScroll (d\<lparr>vga_x := leftColumn d, vga_y := vga_y d + 1\<rparr>, m)"
  shows "vga_ok s' \<and> vga_view s' = line_feed vga_wipe (nat (leftColumn d))
      \<lparr>grid = screen m (bufferAddr d), cursor_col = x, cursor_row = nat (vga_y d)\<rparr> \<and> vga_same (d, m) s'"
proof -
  consider "vga_y d < 24" | "vga_y d = 24" using assms(2) by linarith
  then show ?thesis
  proof cases
    case 1
    then have "nat (vga_y d) < 24" "nat (vga_y d + 1) = Suc (nat (vga_y d))" using assms(1) by auto
    with 1 show ?thesis using assms
      by (simp add: s' AttemptScroll_in vga_ok_def vga_view_def line_feed_def vga_same_def)
  next
    case 2
    have "s' = (d\<lparr>vga_x := leftColumn d, vga_y := 24\<rparr>,
        foldl (wipe_cell vga_wipe (bufferAddr d)) (foldl (copy_row (bufferAddr d)) m [0..<24]) [0..<80])"
      using assms(4) 2
      by (simp add: s' AttemptScroll_def Let_def vga_width_def vga_height_def vga_copy_rows_eq [unfolded One_nat_def] vga_clear_row_eq del: upt_Suc)
    then show ?thesis using assms 2
      by (simp add: vga_ok_def vga_view_def line_feed_def vga_same_def scroll_screen [OF _ refl] del: upt_Suc)
  qed
qed

lemma AttemptScroll_wrap:
  assumes "80 \<le> vga_x d" and "leftColumn d < 80"
  shows "AttemptScroll (d, m) = AttemptScroll (d\<lparr>vga_x := leftColumn d, vga_y := vga_y d + 1\<rparr>, m)"
  using assms by (simp add: AttemptScroll_def Let_def vga_width_def)

lemma vga_newline:
  assumes "vga_ok s"
  defines "s' \<equiv> vga_PrintChar s CHR 0x0A"
  shows "vga_ok s' \<and> vga_view s' = line_feed vga_wipe (nat (leftColumn (fst s))) (vga_view s) \<and> vga_same s s'"
proof -
  obtain d m where s: "s = (d, m)" by fastforce
  have "s' = AttemptScroll (d\<lparr>vga_x := leftColumn d, vga_y := vga_y d + 1\<rparr>, m)"
    by (simp add: s'_def s vga_PrintChar_def)
  from AttemptScroll_newline [OF _ _ _ _ this, of "nat (vga_x d)"] assms(1) show ?thesis
    by (simp add: s vga_ok_def vga_view_def)
qed

lemma vga_put_at_cursor:
  assumes "vga_ok (d, m)"
  shows "vga_store (vga_store (d, m) (vga_offset (vga_y d) (vga_x d)) a) (vga_offset (vga_y d) (vga_x d) + 1) b =
      (d, put_cell m (bufferAddr d) (nat (vga_y d) * 80 + nat (vga_x d)) (a, b))"
proof -
  have "nat (vga_y d) < 25" "nat (vga_x d) < 80" "int (nat (vga_y d)) = vga_y d" "int (nat (vga_x d)) = vga_x d"
    using assms by (auto simp: vga_ok_def)
  then show ?thesis using vga_put_cell [of "nat (vga_y d)" "nat (vga_x d)"] by metis
qed

lemma vga_plain:
  assumes "vga_ok s" and "c \<noteq> CHR 0x08" and "c \<noteq> CHR 0x0A"
  defines "s' \<equiv> vga_PrintChar s c"
  shows "vga_ok s' \<and> vga_view s' = type_cell vga_wipe (nat (leftColumn (fst s))) (of_char c, attribute (fst s)) (vga_view s) \<and>
    vga_same s s'"
proof -
  obtain d m where s: "s = (d, m)" by fastforce
  let ?m = "put_cell m (bufferAddr d) (nat (vga_y d) * 80 + nat (vga_x d)) (of_char c, attribute d)"
  have ok: "0 \<le> vga_x d" "vga_x d < 80" "0 \<le> vga_y d" "vga_y d < 25" "0 \<le> leftColumn d" "leftColumn d < 80"
    using assms(1) by (simp_all add: s vga_ok_def)
  then have nat: "nat (vga_y d) < 25" "nat (vga_x d) < 80" by auto
  have s': "s' = AttemptScroll (d\<lparr>vga_x := vga_x d + 1\<rparr>, ?m)"
    using assms(1-3) vga_put_at_cursor [of d m] by (simp add: s'_def s vga_PrintChar_def Let_def)
  have grid: "screen ?m (bufferAddr d) = set_cell (nat (vga_y d)) (nat (vga_x d)) (of_char c, attribute d) (screen m (bufferAddr d))"
    using screen_put [OF _ nat, where base = "bufferAddr d"] by simp
  have same: "vga_same s (d, ?m)"
    using put_cell_off_screen [of "nat (vga_y d) * 80 + nat (vga_x d)" "bufferAddr d" m] nat by (simp add: vga_same_def s)
  show ?thesis
  proof (cases "vga_x d < 79")
    case True
    then have "s' = (d\<lparr>vga_x := vga_x d + 1\<rparr>, ?m)" using ok by (simp add: s' AttemptScroll_in)
    moreover have "nat (vga_x d) < 79" "nat (vga_x d + 1) = Suc (nat (vga_x d))" using True ok by auto
    ultimately show ?thesis using ok True same
      by (simp add: vga_ok_def vga_view_def type_cell_def Let_def grid vga_same_def s)
  next
    case False
    then have x: "vga_x d = 79" using ok by simp
    then have "s' = AttemptScroll (d\<lparr>vga_x := leftColumn d, vga_y := vga_y d + 1\<rparr>, ?m)"
      using ok by (simp add: s' AttemptScroll_wrap)
    from AttemptScroll_newline [OF ok(3-6) this, of 79] same show ?thesis
      using grid by (auto simp: s vga_view_def type_cell_def Let_def x elim: vga_same_trans)
  qed
qed

lemma vga_backspace:
  assumes "vga_ok s"
  defines "s' \<equiv> vga_PrintChar s CHR 0x08"
  shows "vga_ok s' \<and> vga_view s' = rub_out (nat (leftColumn (fst s))) (vga_view s) \<and> vga_same s s'"
proof -
  obtain d m where s: "s = (d, m)" by fastforce
  let ?x = "max (leftColumn d) (vga_x d - 1)"
  have ok: "0 \<le> vga_x d" "vga_x d < 80" "0 \<le> vga_y d" "vga_y d < 25" "0 \<le> leftColumn d" "leftColumn d < 80"
    using assms(1) by (simp_all add: s vga_ok_def)
  then have nat: "nat (vga_y d) < 25" "nat ?x < 80" by auto
  have x: "nat ?x = max (nat (leftColumn d)) (nat (vga_x d) - 1)" by (simp add: max_def) linarith
  define k where "k = nat (vga_y d) * 80 + nat ?x"
  have k: "k < 2000" using nat by (simp add: k_def)
  let ?c = "(of_char CHR '' '', snd (cell_at m (bufferAddr d) k))"
  have "s' = AttemptScroll (vga_store (d\<lparr>vga_x := ?x\<rparr>, m) (vga_offset (vga_y d) ?x) (of_char CHR '' ''))"
    by (auto simp: s'_def s vga_PrintChar_def Let_def max_def)
  also have "vga_store (d\<lparr>vga_x := ?x\<rparr>, m) (vga_offset (vga_y d) ?x) (of_char CHR '' '') =
      (d\<lparr>vga_x := ?x\<rparr>, put_cell m (bufferAddr d) k ?c)"
  proof -
    have "int (nat (vga_y d)) = vga_y d" "int (nat ?x) = ?x" using ok by (auto simp: max_def)
    then show ?thesis
      using vga_access(1) [OF nat, of "d\<lparr>vga_x := ?x\<rparr>" m] put_cell_char [OF _ k, of m "bufferAddr d"]
      by (simp only: k_def [symmetric] vga.simps) simp
  qed
  finally have s': "s' = (d\<lparr>vga_x := ?x\<rparr>, put_cell m (bufferAddr d) k ?c)"
    using ok by (simp add: AttemptScroll_in)
  have "screen (put_cell m (bufferAddr d) k ?c) (bufferAddr d) = set_cell (nat (vga_y d)) (nat ?x) ?c (screen m (bufferAddr d))"
    using screen_put [OF _ nat, where base = "bufferAddr d"] by (simp add: k_def)
  moreover have "screen m (bufferAddr d) ! nat (vga_y d) ! nat ?x = cell_at m (bufferAddr d) k"
    using nat by (simp add: screen_nth k_def)
  ultimately show ?thesis
    using ok put_cell_off_screen [OF _ k, of "bufferAddr d" m]
    by (simp add: s' s vga_ok_def vga_view_def rub_out_def Let_def vga_same_def x)
qed

interpretation vga: console vga_PrintChar vga_ok vga_view
  "\<lambda>s. nat (leftColumn (fst s))" "\<lambda>s. attribute (fst s)" "\<lambda>_. vga_wipe" "\<lambda>c. c \<noteq> CHR 0x08"
proof
  fix s c
  show "vga_ok s \<Longrightarrow> screen_ok (vga_view s)"
    by (auto simp: vga_ok_def screen_ok_def vga_view_def screen_shape)
  show "vga_ok s \<Longrightarrow> c \<noteq> CHR 0x08 \<Longrightarrow> c \<noteq> CHR 0x0A \<Longrightarrow> vga_ok (vga_PrintChar s c) \<and>
      vga_view (vga_PrintChar s c) = type_cell vga_wipe (nat (leftColumn (fst s))) (of_char c, attribute (fst s)) (vga_view s) \<and>
      nat (leftColumn (fst (vga_PrintChar s c))) = nat (leftColumn (fst s)) \<and>
      attribute (fst (vga_PrintChar s c)) = attribute (fst s) \<and> vga_wipe = vga_wipe"
    using vga_plain [of s c] by (simp add: vga_same_def)
  show "vga_ok s \<Longrightarrow> vga_ok (vga_PrintChar s CHR 0x0A) \<and>
      vga_view (vga_PrintChar s CHR 0x0A) = line_feed vga_wipe (nat (leftColumn (fst s))) (vga_view s) \<and>
      nat (leftColumn (fst (vga_PrintChar s CHR 0x0A))) = nat (leftColumn (fst s)) \<and>
      attribute (fst (vga_PrintChar s CHR 0x0A)) = attribute (fst s) \<and> vga_wipe = vga_wipe"
    using vga_newline [of s] by (simp add: vga_same_def)
qed

section \<open>Properties\<close>

text \<open>The terminal's meaning of a character for this device.\<close>

definition vga_terminal :: "nat \<Rightarrow> u8 \<Rightarrow> terminal \<Rightarrow> char \<Rightarrow> terminal" where
  "vga_terminal left attr t c =
     (if c = CHR 0x0A then line_feed vga_wipe left t
      else if c = CHR 0x08 then rub_out left t
      else type_cell vga_wipe left (of_char c, attr) t)"

lemma vga_char:
  assumes "vga_ok s"
  shows "vga_ok (vga_PrintChar s c) \<and> vga_same s (vga_PrintChar s c) \<and>
    vga_view (vga_PrintChar s c) = vga_terminal (nat (leftColumn (fst s))) (attribute (fst s)) (vga_view s) c"
  using vga_newline [OF assms] vga_backspace [OF assms] vga_plain [OF assms, of c] by (auto simp: vga_terminal_def)

text \<open>C21. The screen console implements the terminal: for every string, newlines, backspaces and text
  of any length included, from every state with the cursor on the screen, the grid that the
  text buffer shows and the cursor are those of the terminal after the string (typing wraps at column
  80 and returns to the left column; a line feed in the last row moves every row up by one), the
  cursor stays on the screen and no byte outside the 4000 of the buffer is written.\<close>

theorem vga_refines_terminal:
  assumes "vga_ok s" and "s' = foldl vga_PrintChar s str"
  shows "vga_ok s' \<and>
    vga_view s' = foldl (vga_terminal (nat (leftColumn (fst s))) (attribute (fst s))) (vga_view s) str \<and>
    bufferAddr (fst s') = bufferAddr (fst s) \<and>
    (\<forall>p. \<not> in_range p (bufferAddr (fst s)) 4000 \<longrightarrow> snd s' p = snd s p)"
proof -
  have "vga_ok s' \<and> vga_same s s' \<and>
      vga_view s' = foldl (vga_terminal (nat (leftColumn (fst s))) (attribute (fst s))) (vga_view s) str"
    unfolding assms(2) using assms(1)
  proof (induction str arbitrary: s)
    case (Cons c str)
    note put = vga_char [OF Cons.prems, of c]
    have "vga_same s (foldl vga_PrintChar s (c # str))"
      using put Cons.IH [of "vga_PrintChar s c"] by (auto elim: vga_same_trans)
    then show ?case using put Cons.IH [of "vga_PrintChar s c"] by (auto simp: vga_same_def)
  qed (simp add: vga_same_def)
  then show ?thesis by (simp add: vga_same_def same_off_screen_def)
qed

definition sample_vga :: vga_state where
  "sample_vga = ((vga_Init vga_initial 0 24)\<lparr>leftColumn := 13\<rparr>, \<lambda>_. 0x20)"

theorem vga_refines_terminal_witness:
  "cursor_col (vga_view (foldl vga_PrintChar sample_vga [CHR ''A'', CHR 0x08, CHR 0x0A])) = 13 \<and>
   cursor_row (vga_view (foldl vga_PrintChar sample_vga [CHR ''A'', CHR 0x08, CHR 0x0A])) = 24"
proof -
  have "vga_ok sample_vga" by (simp add: sample_vga_def vga_ok_def vga_Init_def vga_initial_def)
  from vga_refines_terminal [OF this refl, of "[CHR ''A'', CHR 0x08, CHR 0x0A]"] show ?thesis
    by (simp add: vga_terminal_def type_cell_def line_feed_def rub_out_def Let_def vga_view_def sample_vga_def
        vga_Init_def vga_initial_def)
qed

end
