(* ===== verification/Uart.thy ===== *)
theory Uart
  imports Kernel_Base
begin

text \<open>
  The serial console, src/lobo/arch/x86_64/drivers/uart.cpp with its header.  The line status
  register answers each read with the next byte of \<open>line_status\<close>; when the answers run out while the
  code still polls, the result is \<open>Still_polling\<close>: nothing is known of what the device does then.
  Port writes are a trace.
\<close>

record uart =
  deviceInit :: bool
  uart_leftColumn :: int
  line_status :: "u8 list"
  sent :: "(u16 \<times> u8) list"

datatype log_stop = Still_polling | Format_failed

definition uart_outb :: "uart \<Rightarrow> u16 \<Rightarrow> u8 \<Rightarrow> uart" where
  "uart_outb s p v = s\<lparr>sent := sent s @ [(p, v)]\<rparr>"

definition uart_setup :: "uart \<Rightarrow> uart" where
  "uart_setup s =
     (if \<not> deviceInit s then
        let port = 0x3f8;
            s = uart_outb s (port + 1) 0x00; s = uart_outb s (port + 3) 0x80; s = uart_outb s (port + 0) 0x03;
            s = uart_outb s (port + 1) 0x00; s = uart_outb s (port + 3) 0x03; s = uart_outb s (port + 2) 0xC7;
            s = uart_outb s (port + 4) 0x0B
        in s\<lparr>deviceInit := True\<rparr>
      else s)"

text \<open>\<open>while ((inb(port + 5) & 0x20) == 0) {}\<close>\<close>

fun uart_poll :: "u8 list \<Rightarrow> log_stop + u8 list" where
  "uart_poll [] = Inl Still_polling"
| "uart_poll (b # bs) = (if b AND 0x20 = 0 then uart_poll bs else Inr bs)"

function uart_PrintChar :: "uart \<Rightarrow> char \<Rightarrow> log_stop + uart" where
  "uart_PrintChar s c =
     (let s = uart_setup s in
      bind_r (uart_poll (line_status s)) (\<lambda>rest.
      let s = uart_outb (s\<lparr>line_status := rest\<rparr>) 0x3f8 (of_char c) in
      if c = CHR 0x0A then
        bind_r (uart_PrintChar s CHR 0x0D) (\<lambda>s.
        fold_r (\<lambda>s _. uart_PrintChar s CHR '' '') [0..<nat (uart_leftColumn s)] s)
      else Inr s))"
  by pat_completeness auto
termination
  by (relation "measure (\<lambda>(s, c). if c = CHR 0x0A then 1 else 0)") auto

declare uart_PrintChar.simps [simp del]

definition uart_FormatSetLeftColumn :: "uart \<Rightarrow> int \<Rightarrow> uart" where
  "uart_FormatSetLeftColumn s column = s\<lparr>uart_leftColumn := column\<rparr>"

section \<open>What goes over the line\<close>

definition uart_setup_bytes :: "(u16 \<times> u8) list" where
  "uart_setup_bytes = [(0x3f9, 0x00), (0x3fb, 0x80), (0x3f8, 0x03), (0x3f9, 0x00), (0x3fb, 0x03), (0x3fa, 0xC7), (0x3fc, 0x0B)]"

definition uart_text :: "nat \<Rightarrow> char \<Rightarrow> string" where
  "uart_text left c = (if c = CHR 0x0A then [CHR 0x0A, CHR 0x0D] @ replicate left CHR '' '' else [c])"

definition ready :: "u8 \<Rightarrow> bool" where "ready b \<longleftrightarrow> b AND 0x20 \<noteq> 0"

text \<open>The answers left after \<open>n\<close> that said ready.\<close>

fun after_ready :: "nat \<Rightarrow> u8 list \<Rightarrow> u8 list" where
  "after_ready 0 bs = bs"
| "after_ready (Suc n) [] = []"
| "after_ready (Suc n) (b # bs) = (if ready b then after_ready n bs else after_ready (Suc n) bs)"

definition transmitted :: "uart \<Rightarrow> string \<Rightarrow> uart" where
  "transmitted s str = (if str = [] then s else
     s\<lparr>deviceInit := True, line_status := after_ready (length str) (line_status s),
       sent := sent s @ (if deviceInit s then [] else uart_setup_bytes) @ map (\<lambda>c. (0x3f8, of_char c)) str\<rparr>)"

definition can_transmit :: "uart \<Rightarrow> string \<Rightarrow> bool" where
  "can_transmit s str \<longleftrightarrow> length str \<le> length (filter ready (line_status s))"

definition transmits :: "(uart \<Rightarrow> log_stop + uart) \<Rightarrow> uart \<Rightarrow> string \<Rightarrow> bool" where
  "transmits f s str \<longleftrightarrow> f s = (if can_transmit s str then Inr (transmitted s str) else Inl Still_polling)"

lemma after_ready_add: "after_ready k (after_ready n bs) = after_ready (n + k) bs"
proof (induction n bs rule: after_ready.induct)
  case (2 n)
  show ?case by (cases k) simp_all
qed simp_all

lemma ready_after: "length (filter ready (after_ready n bs)) = length (filter ready bs) - n"
  by (induction n bs rule: after_ready.induct) auto

lemma transmitted_append: "transmitted (transmitted s xs) ys = transmitted s (xs @ ys)"
  by (cases s) (simp add: transmitted_def after_ready_add)

lemma transmitted_left [simp]: "uart_leftColumn (transmitted s xs) = uart_leftColumn s"
  by (simp add: transmitted_def)

lemma can_transmit_append: "can_transmit s (xs @ ys) \<longleftrightarrow> can_transmit s xs \<and> can_transmit (transmitted s xs) ys"
  by (auto simp: can_transmit_def transmitted_def ready_after)

lemma transmits_then:
  assumes "transmits f s xs" and "can_transmit s xs \<Longrightarrow> transmits g (transmitted s xs) ys"
  shows "transmits (\<lambda>s. bind_r (f s) g) s (xs @ ys)"
  using assms by (auto simp: transmits_def can_transmit_append transmitted_append)

lemma uart_poll_eq:
  "uart_poll bs = (if filter ready bs = [] then Inl Still_polling else Inr (after_ready 1 bs))"
  by (induction bs) (auto simp: ready_def)

lemma uart_setup_eq:
  "uart_setup s = s\<lparr>deviceInit := True, sent := sent s @ (if deviceInit s then [] else uart_setup_bytes)\<rparr>"
  by (cases s) (simp add: uart_setup_def Let_def uart_outb_def uart_setup_bytes_def)

lemma uart_plain:
  assumes "c \<noteq> CHR 0x0A"
  shows "transmits (\<lambda>s. uart_PrintChar s c) s [c]"
  using assms
  by (cases s) (auto simp: transmits_def uart_PrintChar.simps [of s] uart_PrintChar.simps Let_def uart_poll_eq uart_setup_eq
      uart_outb_def can_transmit_def transmitted_def Suc_le_eq)

lemma uart_spaces: "transmits (\<lambda>s. fold_r (\<lambda>s _. uart_PrintChar s CHR '' '') [0..<n] s) s (replicate n CHR '' '')"
proof (induction n)
  case 0
  show ?case by (simp add: transmits_def can_transmit_def transmitted_def)
next
  case (Suc n)
  have "transmits (\<lambda>s. bind_r (fold_r (\<lambda>s _. uart_PrintChar s CHR '' '') [0..<n] s) (\<lambda>s. uart_PrintChar s CHR '' '')) s
      (replicate n CHR '' '' @ [CHR '' ''])"
    by (rule transmits_then [OF Suc uart_plain]) simp
  moreover have "fold_r (\<lambda>s _. uart_PrintChar s CHR '' '') [n] = (\<lambda>s. uart_PrintChar s CHR '' '')"
    by (rule ext) (simp add: bind_r_def split: sum.split)
  ultimately show ?case by (simp add: fold_r_append replicate_append_same)
qed

lemma uart_char: "transmits (\<lambda>s. uart_PrintChar s c) s (uart_text (nat (uart_leftColumn s)) c)"
proof (cases "c = CHR 0x0A")
  case False
  then show ?thesis using uart_plain by (simp add: uart_text_def)
next
  case True
  let ?first = "\<lambda>s. let s = uart_setup s in bind_r (uart_poll (line_status s)) (\<lambda>rest.
      Inr (uart_outb (s\<lparr>line_status := rest\<rparr>) 0x3f8 (of_char CHR 0x0A)))"
  let ?spaces = "\<lambda>s. fold_r (\<lambda>s _. uart_PrintChar s CHR '' '') [0..<nat (uart_leftColumn s)] s"
  have first: "transmits ?first s [CHR 0x0A]"
    by (cases s) (auto simp: transmits_def Let_def uart_poll_eq uart_setup_eq uart_outb_def can_transmit_def
        transmitted_def Suc_le_eq)
  have spaces: "transmits ?spaces t (replicate (nat (uart_leftColumn t)) CHR '' '')" for t
    using uart_spaces by (simp add: transmits_def)
  have return: "transmits (\<lambda>s. bind_r (uart_PrintChar s CHR 0x0D) ?spaces) t
      ([CHR 0x0D] @ replicate (nat (uart_leftColumn t)) CHR '' '')" for t
    using spaces [of "transmitted t [CHR 0x0D]"] by (intro transmits_then [OF uart_plain]) simp_all
  from transmits_then [OF first return, simplified transmitted_left]
  have "transmits (\<lambda>s. bind_r (?first s) (\<lambda>s. bind_r (uart_PrintChar s CHR 0x0D) ?spaces)) s
      ([CHR 0x0A] @ [CHR 0x0D] @ replicate (nat (uart_leftColumn s)) CHR '' '')" .
  then show ?thesis
    by (simp add: True transmits_def uart_text_def uart_PrintChar.simps [of s "CHR 0x0A"] Let_def bind_r_assoc)
qed

lemma uart_string:
  "transmits (fold_r uart_PrintChar str) s (concat (map (uart_text (nat (uart_leftColumn s))) str))"
proof (induction str arbitrary: s)
  case Nil
  show ?case by (simp add: transmits_def can_transmit_def transmitted_def)
next
  case (Cons c str)
  show ?case
    using transmits_then [OF uart_char [of c s], of "fold_r uart_PrintChar str"] Cons.IH [of "transmitted s _"]
    by (simp add: transmits_def)
qed

section \<open>Properties\<close>

text \<open>C22. \<open>PrintChar\<close> returns exactly when the line gets ready often enough: printing a string returns if
  and only if among the answers of the line status register at least as many say ready as there are
  bytes to send, and then exactly the string's bytes were sent, each line feed followed by a
  carriage return and the spaces of the left column, behind the seven writes that set the device
  up if it was not; the answers up to the last ready one were read and no more.\<close>

theorem uart_transmits:
  assumes "bytes = concat (map (uart_text (nat (uart_leftColumn s))) str)" and "str \<noteq> []"
  shows "fold_r uart_PrintChar str s =
    (if length bytes \<le> length (filter ready (line_status s))
     then Inr (s\<lparr>deviceInit := True, line_status := after_ready (length bytes) (line_status s),
       sent := sent s @ (if deviceInit s then [] else uart_setup_bytes) @ map (\<lambda>c. (0x3f8, of_char c)) bytes\<rparr>)
     else Inl Still_polling)"
proof -
  have "bytes \<noteq> []" using assms by (cases str) (auto simp: uart_text_def)
  then show ?thesis
    using uart_string [of str s, folded assms(1)] by (simp add: transmits_def can_transmit_def transmitted_def)
qed

theorem uart_transmits_witness:
  "map snd (case fold_r uart_PrintChar [CHR ''A'', CHR 0x0A] \<lparr>deviceInit = True, uart_leftColumn = 1,
       line_status = [0x60, 0x00, 0x60, 0x20, 0x20], sent = []\<rparr> of Inr s \<Rightarrow> sent s | Inl e \<Rightarrow> []) = [0x41, 0x0A, 0x0D, 0x20]"
  using uart_transmits [OF refl, of "[CHR ''A'', CHR 0x0A]" "\<lparr>deviceInit = True, uart_leftColumn = 1,
       line_status = [0x60, 0x00, 0x60, 0x20, 0x20], sent = []\<rparr>"]
  by (simp add: uart_text_def ready_def)

end
