(* ===== verification/Klog.thy ===== *)
theory Klog
  imports Vga_Console Uart Libc_Printf
begin

text \<open>
  The kernel log: src/lobo/log/log.cpp, log.h, log_devices.h, libc_helpers.cpp, panic.cpp and version.cpp.
  The two device pointers are options of a device; a virtual call is a case distinction on the
  device's class.  \<open>log_buf\<close> is the static buffer of the library's number conversion.  The other
  theories keep the log calls of the kernel as a trace; \<open>log_perform\<close> is what one call of that
  trace does to the devices.
\<close>

section \<open>Devices\<close>

datatype log_device = Uart_device uart | Vga_device vga_state

definition device_PrintChar :: "log_device \<Rightarrow> char \<Rightarrow> log_stop + log_device" where
  "device_PrintChar d c = (case d of
     Uart_device u \<Rightarrow> bind_r (uart_PrintChar u c) (\<lambda>u. Inr (Uart_device u))
   | Vga_device v \<Rightarrow> Inr (Vga_device (vga_PrintChar v c)))"

definition device_FormatSetLeftColumn :: "log_device \<Rightarrow> int \<Rightarrow> log_device" where
  "device_FormatSetLeftColumn d column = (case d of
     Uart_device u \<Rightarrow> Uart_device (uart_FormatSetLeftColumn u column)
   | Vga_device (v, m) \<Rightarrow> Vga_device (vga_FormatSetLeftColumn v column, m))"

record log_state =
  m_serialOutDevice :: "log_device option"
  m_terminalOutDevice :: "log_device option"
  m_fmtLeftColumn :: int
  log_buf :: string

definition log_initial :: log_state where
  "log_initial = \<lparr>m_serialOutDevice = None, m_terminalOutDevice = None, m_fmtLeftColumn = 0, log_buf = itoa_buffer\<rparr>"

section \<open>Operations\<close>

definition SetSerialLogging :: "log_state \<Rightarrow> log_device option \<Rightarrow> log_state" where
  "SetSerialLogging L device = L\<lparr>m_serialOutDevice := device\<rparr>"

definition SetTerminalDevice :: "log_state \<Rightarrow> log_device option \<Rightarrow> log_state" where
  "SetTerminalDevice L device = L\<lparr>m_terminalOutDevice := device\<rparr>"

definition print_if_set :: "log_device option \<Rightarrow> char \<Rightarrow> log_stop + log_device option" where
  "print_if_set dev c = (case dev of None \<Rightarrow> Inr None
     | Some d \<Rightarrow> bind_r (device_PrintChar d c) (\<lambda>d. Inr (Some d)))"

definition log_WriteChar :: "log_state \<Rightarrow> char \<Rightarrow> log_stop + log_state" where
  "log_WriteChar L c =
     bind_r (print_if_set (m_serialOutDevice L) c) (\<lambda>d.
     let L = L\<lparr>m_serialOutDevice := d\<rparr> in
     bind_r (print_if_set (m_terminalOutDevice L) c) (\<lambda>d.
     Inr (L\<lparr>m_terminalOutDevice := d\<rparr>)))"

text \<open>The string without its terminator.\<close>

definition log_WriteString :: "log_state \<Rightarrow> string \<Rightarrow> log_stop + log_state" where
  "log_WriteString L s = fold_r log_WriteChar s L"

definition log_FormatSetLeftColumn :: "log_state \<Rightarrow> int \<Rightarrow> log_state \<times> int" where
  "log_FormatSetLeftColumn L column =
     (let old = m_fmtLeftColumn L; L = L\<lparr>m_fmtLeftColumn := column\<rparr>;
          L = L\<lparr>m_terminalOutDevice := map_option (\<lambda>d. device_FormatSetLeftColumn d column) (m_terminalOutDevice L)\<rparr>;
          L = L\<lparr>m_serialOutDevice := map_option (\<lambda>d. device_FormatSetLeftColumn d column) (m_serialOutDevice L)\<rparr>
      in (L, old))"

text \<open>
  \<open>vprintf\<close> with the kernel's helpers: what it prints goes to the log, character by character
  (\<open>vprintf_print_helper\<close>, \<open>vprintf_print_helper_string\<close>).
\<close>

definition log_vprintf :: "log_state \<Rightarrow> string \<Rightarrow> varg list \<Rightarrow> log_stop + log_state" where
  "log_vprintf L fmt arg = (case vprintf (log_buf L) (fmt @ [NUL]) arg of
     Inl _ \<Rightarrow> Inl Format_failed
   | Inr st \<Rightarrow> log_WriteString (L\<lparr>log_buf := bufs st\<rparr>) (out st))"

definition log_LogArg :: "log_state \<Rightarrow> string \<Rightarrow> string \<Rightarrow> varg list \<Rightarrow> log_stop + log_state" where
  "log_LogArg L category fmt arg =
     bind_r (log_vprintf L ''%8s | '' [StrArg category]) (\<lambda>L.
     let L = fst (log_FormatSetLeftColumn L 13) in
     bind_r (log_vprintf L fmt arg) (\<lambda>L.
     let L = fst (log_FormatSetLeftColumn L 0) in
     log_WriteChar L CHR 0x0A))"

definition log_Log :: "log_state \<Rightarrow> string \<Rightarrow> string \<Rightarrow> varg list \<Rightarrow> log_stop + log_state" where
  "log_Log L category fmt va = log_LogArg L category fmt va"

definition log_LogRaw :: "log_state \<Rightarrow> string \<Rightarrow> varg list \<Rightarrow> log_stop + log_state" where
  "log_LogRaw L fmt va = log_vprintf L fmt va"

definition log_perform :: "log_state \<Rightarrow> log_call \<Rightarrow> log_stop + log_state" where
  "log_perform L c = (case c of
     Log category fmt va \<Rightarrow> log_Log L category fmt va
   | LogRaw fmt va \<Rightarrow> log_LogRaw L fmt va
   | WriteChar c \<Rightarrow> log_WriteChar L c)"

definition kernel_version_print :: "log_call list" where
  "kernel_version_print =
     (let rule = '' +----------------------------------------------------------------------------+'' @ [CHR 0x0A];
          second = '' +-------+--------------------------------------------------------------------+'' @ [CHR 0x0A]
      in [LogRaw rule [], LogRaw (''%26sThe Lobo Kernel (v 0.0.0.1)'' @ [CHR 0x0A]) [StrArg []], LogRaw second []])"

text \<open>
  \<open>panic\<close> passes its argument list to the variadic \<open>Log\<close>: the call gets one argument, the list's
  address.  The processor is halted after the call.
\<close>

definition panic_call :: "string \<Rightarrow> u64 \<Rightarrow> log_call" where
  "panic_call fmt va_list_addr = Log ''panic'' fmt [IntArg va_list_addr]"

definition assert_call :: "string \<Rightarrow> string \<Rightarrow> u64 \<Rightarrow> string \<Rightarrow> u64 \<Rightarrow> log_call list" where
  "assert_call expression file line function_name va_list_addr =
     [Log ''assert'' ([CHR 0x22] @ ''%s'' @ [CHR 0x22] @ '' failed'' @ [CHR 0x0A] @ ''In file %s, on line %d'' @ [CHR 0x0A] @
        ''In function '' @ [CHR 0x22] @ ''%s'' @ [CHR 0x22]) [StrArg expression, StrArg file, IntArg line, StrArg function_name],
      panic_call ''Assertion failed'' va_list_addr]"

section \<open>One device at a time\<close>

definition run_device :: "log_device option \<Rightarrow> string \<Rightarrow> log_stop + log_device option" where
  "run_device dev s = fold_r print_if_set s dev"

lemma write_devices:
  assumes "run_device (m_serialOutDevice L) s = Inr d" and "run_device (m_terminalOutDevice L) s = Inr t"
  shows "log_WriteString L s = Inr (L\<lparr>m_serialOutDevice := d, m_terminalOutDevice := t\<rparr>)"
  using assms
proof (induction s arbitrary: L)
  case Nil
  then show ?case by (cases L) (simp add: run_device_def log_WriteString_def)
next
  case (Cons c s)
  from Cons.prems obtain d' t' where step: "print_if_set (m_serialOutDevice L) c = Inr d'" "run_device d' s = Inr d"
    "print_if_set (m_terminalOutDevice L) c = Inr t'" "run_device t' s = Inr t"
    by (auto simp: run_device_def bind_r_eq_Inr)
  have "log_WriteChar L c = Inr (L\<lparr>m_serialOutDevice := d', m_terminalOutDevice := t'\<rparr>)"
    using step by (simp add: log_WriteChar_def Let_def)
  then show ?case
    using Cons.IH [of "L\<lparr>m_serialOutDevice := d', m_terminalOutDevice := t'\<rparr>"] step by (simp add: log_WriteString_def)
qed

lemma write_char_string: "log_WriteChar L c = log_WriteString L [c]"
  by (simp add: log_WriteString_def bind_r_def split: sum.split)

lemma run_vga: "run_device (Some (Vga_device v)) s = Inr (Some (Vga_device (foldl vga_PrintChar v s)))"
  by (induction s arbitrary: v) (simp_all add: run_device_def print_if_set_def device_PrintChar_def)

lemma run_uart:
  "run_device (Some (Uart_device u)) s = bind_r (fold_r uart_PrintChar s u) (\<lambda>u. Inr (Some (Uart_device u)))"
proof (induction s arbitrary: u)
  case (Cons c s)
  then show ?case
    by (simp add: run_device_def print_if_set_def device_PrintChar_def bind_r_assoc)
qed (simp add: run_device_def)

text \<open>Text of one line on the screen, and over the serial line.\<close>

definition plain_text :: "string \<Rightarrow> bool" where
  "plain_text s \<longleftrightarrow> CHR 0x0A \<notin> set s \<and> CHR 0x08 \<notin> set s"

definition write_row :: "u8 \<Rightarrow> nat \<Rightarrow> string \<Rightarrow> terminal \<Rightarrow> terminal" where
  "write_row attr x s t = t\<lparr>
     grid := (grid t)[cursor_row t := take x (grid t ! cursor_row t) @ map (\<lambda>c. (of_char c, attr)) s @
       drop (x + length s) (grid t ! cursor_row t)],
     cursor_col := x + length s\<rparr>"

lemma uart_line:
  assumes "plain_text s" and "can_transmit u s"
  shows "fold_r uart_PrintChar s u = Inr (transmitted u s)"
proof -
  have "concat (map (uart_text left) s) = s" for left
    using assms(1) by (induction s) (auto simp: uart_text_def plain_text_def)
  then show ?thesis using uart_string [of s u] assms(2) by (simp add: transmits_def)
qed

lemma uart_line_feed:
  assumes "uart_leftColumn u = 0" and "can_transmit u [CHR 0x0A, CHR 0x0D]"
  shows "fold_r uart_PrintChar [CHR 0x0A] u = Inr (transmitted u [CHR 0x0A, CHR 0x0D])"
  using uart_string [of "[CHR 0x0A]" u] assms by (simp add: transmits_def uart_text_def)

lemma uart_set_left_simps [simp]:
  "transmitted (uart_FormatSetLeftColumn u n) s = uart_FormatSetLeftColumn (transmitted u s) n"
  "can_transmit (uart_FormatSetLeftColumn u n) s = can_transmit u s"
  "uart_FormatSetLeftColumn (uart_FormatSetLeftColumn u k) n = uart_FormatSetLeftColumn u n"
  "uart_leftColumn (uart_FormatSetLeftColumn u n) = n" "sent (uart_FormatSetLeftColumn u n) = sent u"
  by (cases u, simp add: uart_FormatSetLeftColumn_def transmitted_def can_transmit_def)+

section \<open>Formatted output\<close>

lemma log_vprintf_items:
  assumes "\<forall>it \<in> set its. item_ok it" and "length (log_buf L) = 65"
  obtains b where "length b = 65"
    "log_vprintf L (items_format its) (concat (map kernel_printf.item_args its)) = log_WriteString (L\<lparr>log_buf := b\<rparr>) (items_text its)"
  using kernel_printf.loop_items [OF assms(1), of "\<lparr>args = concat (map kernel_printf.item_args its), bufs = log_buf L, out = []\<rparr>" "[]" "[]"]
    assms(2) that
  by (auto simp: log_vprintf_def vprintf_def)

lemma category_items:
  "items_format [Str False 8 c, Lit CHR '' '', Lit CHR ''|'', Lit CHR '' ''] = ''%8s | ''"
  "concat (map kernel_printf.item_args [Str False 8 c, Lit CHR '' '', Lit CHR ''|'', Lit CHR '' '']) = [StrArg c]"
  "items_text [Str False 8 c, Lit CHR '' '', Lit CHR ''|'', Lit CHR '' ''] = replicate (8 - length c) CHR '' '' @ c @ '' | ''"
proof -
  have "digits 10 8 = [8]" by (simp add: digits.simps [of 10])
  then show "items_format [Str False 8 c, Lit CHR '' '', Lit CHR ''|'', Lit CHR '' ''] = ''%8s | ''"
    by (simp add: items_format_def width_format_def numeral_string_def lut_def)
qed (simp_all add: items_text_def in_field_def)


lemma vga_row:
  assumes "vga_ok v" and "plain_text s" and "cursor_col (vga_view v) + length s < 80"
  shows "vga_ok (foldl vga_PrintChar v s)"
    and "vga_view (foldl vga_PrintChar v s) = write_row (attribute (fst v)) (cursor_col (vga_view v)) s (vga_view v)"
    and "leftColumn (fst (foldl vga_PrintChar v s)) = leftColumn (fst v)"
    and "attribute (fst (foldl vga_PrintChar v s)) = attribute (fst v)"
proof -
  have "\<forall>c \<in> set s. c \<noteq> CHR 0x08 \<and> c \<noteq> CHR 0x0A" using assms(2) by (auto simp: plain_text_def)
  note line = vga.text_in_line [OF assms(1) this assms(3)]
  then show "vga_ok (foldl vga_PrintChar v s)" "attribute (fst (foldl vga_PrintChar v s)) = attribute (fst v)"
    "vga_view (foldl vga_PrintChar v s) = write_row (attribute (fst v)) (cursor_col (vga_view v)) s (vga_view v)"
    by (simp_all add: write_row_def)
  have "vga_same v (foldl vga_PrintChar v s)" using assms(1)
  proof (induction s arbitrary: v)
    case (Cons c s)
    note put = vga_char [OF Cons.prems, of c]
    then show ?case using Cons.IH [of "vga_PrintChar v c"] by (auto elim: vga_same_trans)
  qed (simp add: vga_same_def)
  then show "leftColumn (fst (foldl vga_PrintChar v s)) = leftColumn (fst v)" by (simp add: vga_same_def)
qed

text \<open>The columns the text starts in do not matter for text without line feeds, so the two parts of a
  line can be put together.\<close>

definition set_left :: "int \<Rightarrow> vga_state \<Rightarrow> vga_state" where
  "set_left n v = (vga_FormatSetLeftColumn (fst v) n, snd v)"

lemma set_left_simps [simp]:
  "vga_view (set_left n v) = vga_view v" "attribute (fst (set_left n v)) = attribute (fst v)"
  "leftColumn (fst (set_left n v)) = n"
  "vga_ok v \<Longrightarrow> 0 \<le> n \<Longrightarrow> n < 80 \<Longrightarrow> vga_ok (set_left n v)"
  by (simp_all add: set_left_def vga_view_def vga_FormatSetLeftColumn_def vga_ok_def)

lemma write_row_append:
  assumes "screen_ok t" and "x + length s + length s' < 80"
  shows "write_row attr (x + length s) s' (write_row attr x s t) = write_row attr x (s @ s') t"
proof -
  have "cursor_row t < length (grid t)" "length (grid t ! cursor_row t) = 80" using assms(1) by (auto simp: screen_ok_def)
  then show ?thesis using assms(2) by (simp add: write_row_def algebra_simps)
qed

lemma log_set_left:
  "fst (log_FormatSetLeftColumn \<lparr>m_serialOutDevice = Some (Uart_device u), m_terminalOutDevice = Some (Vga_device v),
      m_fmtLeftColumn = k, log_buf = b\<rparr> n) =
    \<lparr>m_serialOutDevice = Some (Uart_device (uart_FormatSetLeftColumn u n)),
      m_terminalOutDevice = Some (Vga_device (set_left n v)), m_fmtLeftColumn = n, log_buf = b\<rparr>"
  by (cases v) (simp add: log_FormatSetLeftColumn_def Let_def device_FormatSetLeftColumn_def set_left_def)

lemma log_text:
  assumes "fold_r uart_PrintChar s u = Inr u'"
  shows "log_WriteString \<lparr>m_serialOutDevice = Some (Uart_device u), m_terminalOutDevice = Some (Vga_device v),
      m_fmtLeftColumn = k, log_buf = b\<rparr> s =
    Inr \<lparr>m_serialOutDevice = Some (Uart_device u'), m_terminalOutDevice = Some (Vga_device (foldl vga_PrintChar v s)),
      m_fmtLeftColumn = k, log_buf = b\<rparr>"
  by (subst write_devices) (simp_all add: run_vga run_uart assms)

section \<open>Properties\<close>

text \<open>A line on the screen: two texts in one row, the left column changed between them, and the line feed.\<close>

lemma vga_line:
  assumes v: "vga_ok v" "cursor_col (vga_view v) = 0" and plain: "plain_text p" "plain_text body"
    and short: "length p + length body < 80" "0 \<le> k" "k < 80" "0 \<le> k'" "k' < 80"
  shows "vga_ok (vga_PrintChar (set_left k' (foldl vga_PrintChar (set_left k (foldl vga_PrintChar v p)) body)) CHR 0x0A)"
    "vga_view (vga_PrintChar (set_left k' (foldl vga_PrintChar (set_left k (foldl vga_PrintChar v p)) body)) CHR 0x0A) =
       line_feed vga_wipe (nat k') (write_row (attribute (fst v)) 0 (p @ body) (vga_view v))"
    "leftColumn (fst (vga_PrintChar (set_left k' (foldl vga_PrintChar (set_left k (foldl vga_PrintChar v p)) body)) CHR 0x0A)) = k'"
proof -
  define v1 where "v1 = foldl vga_PrintChar v p"
  define v3 where "v3 = foldl vga_PrintChar (set_left k v1) body"
  have v1: "vga_ok v1" "vga_view v1 = write_row (attribute (fst v)) 0 p (vga_view v)" "attribute (fst v1) = attribute (fst v)"
    using vga_row [OF v(1) plain(1), folded v1_def] v(2) short by simp_all
  have col: "cursor_col (vga_view v1) = length p" using v1(2) by (simp add: write_row_def)
  have v2: "vga_ok (set_left k v1)" using v1(1) short by simp
  have v3: "vga_ok v3" "vga_view v3 = write_row (attribute (fst v)) (length p) body (vga_view v1)"
    using vga_row [OF v2 plain(2), folded v3_def] col short v1(3) by simp_all
  have view: "vga_view v3 = write_row (attribute (fst v)) 0 (p @ body) (vga_view v)"
    using write_row_append [of "vga_view v" 0 p body "attribute (fst v)"] vga.view_ok [OF v(1)] short
    by (simp add: v3(2) v1(2))
  show "vga_ok (vga_PrintChar (set_left k' (foldl vga_PrintChar (set_left k (foldl vga_PrintChar v p)) body)) CHR 0x0A)"
    "vga_view (vga_PrintChar (set_left k' (foldl vga_PrintChar (set_left k (foldl vga_PrintChar v p)) body)) CHR 0x0A) =
       line_feed vga_wipe (nat k') (write_row (attribute (fst v)) 0 (p @ body) (vga_view v))"
    "leftColumn (fst (vga_PrintChar (set_left k' (foldl vga_PrintChar (set_left k (foldl vga_PrintChar v p)) body)) CHR 0x0A)) = k'"
    unfolding v1_def [symmetric] v3_def [symmetric] using vga_newline [of "set_left k' v3"] v3(1) view short by (simp_all add: vga_same_def)
qed

text \<open>C23. A line of the log is what it says, on both devices: with the serial device and the screen set, for
  a category of at most eight characters and a format whose text fits the screen's line, \<open>Log\<close>
  writes the category right-aligned in eight columns, a bar and the formatted text into the
  cursor's row, goes to the start of the next line (scrolling in the last one), sends the same
  line over the serial line, ended by a line feed and a carriage return, and leaves the left
  column at 0; it returns when the serial line reports ready once for each byte.\<close>

theorem log_line_appears:
  assumes L: "L = \<lparr>m_serialOutDevice = Some (Uart_device u), m_terminalOutDevice = Some (Vga_device v),
      m_fmtLeftColumn = k, log_buf = b\<rparr>"
    and v: "vga_ok v" "cursor_col (vga_view v) = 0" and b: "length b = 65"
    and its: "\<forall>it \<in> set its. item_ok it" and cat: "length category \<le> 8" "plain_text category"
    and line: "line = replicate (8 - length category) CHR '' '' @ category @ '' | '' @ items_text its"
    and short: "length line < 80" "plain_text (items_text its)"
    and ready: "length line + 2 \<le> length (filter ready (line_status u))"
  shows "\<exists>u' v' b'. log_Log L category (items_format its) (concat (map kernel_printf.item_args its)) =
      Inr \<lparr>m_serialOutDevice = Some (Uart_device u'), m_terminalOutDevice = Some (Vga_device v'),
        m_fmtLeftColumn = 0, log_buf = b'\<rparr> \<and> length b' = 65 \<and>
    vga_view v' = line_feed vga_wipe 0 (write_row (attribute (fst v)) 0 line (vga_view v)) \<and> vga_ok v' \<and> leftColumn (fst v') = 0 \<and>
    sent u' = sent u @ (if deviceInit u then [] else uart_setup_bytes) @
      map (\<lambda>c. (0x3f8, of_char c)) (line @ [CHR 0x0A, CHR 0x0D]) \<and> uart_leftColumn u' = 0"
proof -
  let ?p = "replicate (8 - length category) CHR '' '' @ category @ '' | ''" and ?body = "items_text its"
  let ?L = "\<lambda>u v k b. \<lparr>m_serialOutDevice = Some (Uart_device u), m_terminalOutDevice = Some (Vga_device v),
      m_fmtLeftColumn = k, log_buf = b\<rparr>"
  have p: "plain_text ?p" "length ?p = 11" using cat by (auto simp: plain_text_def)
  have len: "length line = 11 + length ?body" and line': "line = ?p @ ?body" using cat(1) by (simp_all add: line)
  have can: "can_transmit u ?p" "can_transmit (transmitted u ?p) ?body"
    "can_transmit (transmitted u line) [CHR 0x0A, CHR 0x0D]"
    using ready len p(2) by (auto simp: line' can_transmit_def transmitted_def ready_after)
  define v1 where "v1 = foldl vga_PrintChar v ?p"
  define v3 where "v3 = foldl vga_PrintChar (set_left 13 v1) ?body"
  define v4 where "v4 = vga_PrintChar (set_left 0 v3) CHR 0x0A"
  have v4: "vga_ok v4" "vga_view v4 = line_feed vga_wipe 0 (write_row (attribute (fst v)) 0 line (vga_view v))" "leftColumn (fst v4) = 0"
    using vga_line [OF v p(1) short(2), of 13 0] short(1) len p(2) unfolding v4_def v3_def v1_def line' by simp_all
  obtain b1 where b1: "length b1 = 65"
      "log_vprintf L ''%8s | '' [StrArg category] = log_WriteString (?L u v k b1) ?p"
    using log_vprintf_items [of "[Str False 8 category, Lit CHR '' '', Lit CHR ''|'', Lit CHR '' '']" L] b cat(1)
    unfolding category_items by (auto simp: L)
  obtain b2 where b2: "length b2 = 65"
      "log_vprintf (?L (uart_FormatSetLeftColumn (transmitted u ?p) 13) (set_left 13 v1) 13 b1) (items_format its)
         (concat (map kernel_printf.item_args its)) =
       log_WriteString (?L (uart_FormatSetLeftColumn (transmitted u ?p) 13) (set_left 13 v1) 13 b2) ?body"
    using log_vprintf_items [OF its, of "?L (uart_FormatSetLeftColumn (transmitted u ?p) 13) (set_left 13 v1) 13 b1"] b1(1)
    by auto
  let ?u = "uart_FormatSetLeftColumn (transmitted u (line @ [CHR 0x0A, CHR 0x0D])) 0"
  have first: "log_WriteString (?L u v k b1) ?p = Inr (?L (transmitted u ?p) v1 k b1)"
    using log_text [OF uart_line [OF p(1) can(1)]] by (simp add: v1_def)
  have second: "log_WriteString (?L (uart_FormatSetLeftColumn (transmitted u ?p) 13) (set_left 13 v1) 13 b2) ?body =
      Inr (?L (uart_FormatSetLeftColumn (transmitted u line) 13) v3 13 b2)"
    using log_text [OF uart_line [OF short(2), of "uart_FormatSetLeftColumn (transmitted u ?p) 13"], of "set_left 13 v1" 13 b2] can(2)
    by (simp add: v3_def transmitted_append line')
  have third: "log_WriteChar (?L (uart_FormatSetLeftColumn (transmitted u line) 0) (set_left 0 v3) 0 b2) CHR 0x0A =
      Inr (?L ?u v4 0 b2)"
    using log_text [OF uart_line_feed [of "uart_FormatSetLeftColumn (transmitted u line) 0"], of "set_left 0 v3" 0 b2] can(3)
    by (simp add: write_char_string v4_def transmitted_append)
  have "log_Log L category (items_format its) (concat (map kernel_printf.item_args its)) = Inr (?L ?u v4 0 b2)"
    by (simp add: log_Log_def log_LogArg_def b1(2) first log_set_left b2(2) second third)
  moreover have "sent ?u = sent u @ (if deviceInit u then [] else uart_setup_bytes) @
      map (\<lambda>c. (0x3f8, of_char c)) (line @ [CHR 0x0A, CHR 0x0D])"
    by (simp add: transmitted_def)
  ultimately show ?thesis using v4 b2(1) by auto
qed

definition sample_log :: log_state where
  "sample_log = \<lparr>m_serialOutDevice = Some (Uart_device \<lparr>deviceInit = False, uart_leftColumn = 0,
       line_status = replicate 20 0x20, sent = []\<rparr>),
     m_terminalOutDevice = Some (Vga_device (vga_Init vga_initial 0 24, \<lambda>_. 0)), m_fmtLeftColumn = 0, log_buf = itoa_buffer\<rparr>"

theorem log_line_appears_witness:
  "\<exists>L'. log_Log sample_log ''pmm'' ''ok%%'' [] = Inr L' \<and> m_fmtLeftColumn L' = 0"
proof -
  have "vga_ok (vga_Init vga_initial 0 24, \<lambda>_. 0)" by (simp add: vga_ok_def vga_Init_def vga_initial_def)
  moreover have "\<forall>it \<in> set [Lit CHR ''o'', Lit CHR ''k'', Percent]. item_ok it" by simp
  moreover have "filter ready (replicate 20 0x20) = replicate 20 0x20" by (simp add: ready_def)
  ultimately show ?thesis
    using log_line_appears [OF _ _ _ _ _ _ _ refl, of sample_log _ _ _ itoa_buffer "[Lit CHR ''o'', Lit CHR ''k'', Percent]" "''pmm''"]
    by (auto simp: sample_log_def items_format_def items_text_def plain_text_def itoa_buffer_def vga_view_def
        vga_Init_def vga_initial_def)
qed

end
