(* ===== verification/Kernel_Early.thy ===== *)
theory Kernel_Early
  imports Boot_Memory Interrupts Klog Debugger Page_Tables
begin

text \<open>
  The kernel's way up: \<open>kernel_early\<close> of src/lobo/arch/x86_64/kernel_early.cpp and \<open>kernel_main\<close> of
  src/lobo/main.cpp, which compose the components, and one round of the keyboard thread.  The
  addresses that the linker fixes are the record \<open>boot_env\<close>.  The log calls are appended to the trace;
  \<open>boot_log\<close> is the log object with the devices set.
\<close>

record boot_env =
  isr_entry :: "nat \<Rightarrow> u64"
  irq_entry :: "nat \<Rightarrow> u64"
  table_idt_addr :: u64
  table_idt_ptr_addr :: u64
  serial_drv :: u64
  vga_drv :: u64
  keyboard_drv :: u64
  thread_read_keyboard :: u64
  test_thread2 :: u64
  test_thread3 :: u64
  test_thread4 :: u64
  after_paging :: u64
  return_addr :: "nat \<Rightarrow> u64"

record boot_state =
  ints :: int_state
  boot_log :: log_state
  boot_serial_logger_device :: uart
  boot_vga_console_device :: vga_state
  boot_registry :: driver_registry

section \<open>Running operations of the components\<close>

abbreviation boot_sys :: "boot_state \<Rightarrow> kstate" where "boot_sys b \<equiv> sys (kern (ints b))"

definition put_sys :: "boot_state \<Rightarrow> kstate \<Rightarrow> boot_state" where
  "put_sys b s = b\<lparr>ints := (ints b)\<lparr>kern := (kern (ints b))\<lparr>sys := s\<rparr>\<rparr>\<rparr>"

definition run_sys :: "(kstate \<Rightarrow> kpanic + kstate) \<Rightarrow> boot_state \<Rightarrow> kpanic + boot_state" where
  "run_sys f b = bind_r (f (boot_sys b)) (\<lambda>s. Inr (put_sys b s))"

definition add_driver :: "boot_state \<Rightarrow> u64 \<Rightarrow> kpanic + boot_state" where
  "add_driver b drv =
     bind_r (registry_add (boot_sys b) (list_heap (kern (ints b))) (boot_registry b) drv) (\<lambda>(s, h, r).
     let b = put_sys b s in
     Inr (b\<lparr>ints := (ints b)\<lparr>kern := (kern (ints b))\<lparr>list_heap := h\<rparr>\<rparr>, boot_registry := r\<rparr>))"

section \<open>The code\<close>

definition slog :: "sched_state \<Rightarrow> log_call \<Rightarrow> sched_state" where
  "slog st c = st\<lparr>sys := log_event (sys st) c\<rparr>"

text \<open>Up to \<open>IdleLoop\<close>, which halts the processor until an interrupt, for ever.\<close>

definition kernel_main :: "boot_env \<Rightarrow> sched_state \<Rightarrow> kpanic + sched_state" where
  "kernel_main env st =
     (let st = slog st (Log ''lobo'' ''Entered Kernel Main'' []) in
      bind_r (debug_print_free_memory (sys st)) (\<lambda>s.
      bind_r (Scheduler_Init (return_addr env 0) (return_addr env 1) (st\<lparr>sys := s\<rparr>)) (\<lambda>st.
      bind_r (CreateThread st ''k/keyboard'' (thread_read_keyboard env)) (\<lambda>(_, st).
      bind_r (CreateThread st ''k/test2'' (test_thread2 env)) (\<lambda>(_, st).
      bind_r (CreateThread st ''k/test_dead'' (test_thread3 env)) (\<lambda>(deadThread, st).
      bind_r (CreateThread st ''k/test_waiting'' (test_thread4 env)) (\<lambda>(waitingThread, st).
      let st = set_state st deadThread Dead;
          st = set_state st waitingThread Waiting;
          st = EnableScheduling st
      in Inr (slog st (Log ''lobo'' ''Entered idle thread'' [])))))))))"

definition early_devices :: "awd_info \<Rightarrow> boot_state \<Rightarrow> boot_state" where
  "early_devices info b =
     (let b = b\<lparr>boot_vga_console_device :=
                (vga_Init (fst (boot_vga_console_device b)) 0 (sint (log_cursor_y info)), snd (boot_vga_console_device b))\<rparr>;
          b = b\<lparr>boot_log := SetSerialLogging (boot_log b) (Some (Uart_device (boot_serial_logger_device b)))\<rparr>
      in b\<lparr>boot_log := SetTerminalDevice (boot_log b) (Some (Vga_device (boot_vga_console_device b)))\<rparr>)"

definition debug_lines :: "log_call list" where
  "debug_lines =
     [Log ''debug'' ''   Kernel VM Base: 0x%016p'' [IntArg KERNEL_VMB],
      Log ''debug'' ''Kernel VM Address: 0x%016p'' [IntArg KERNEL_VMA]]"

text \<open>
  The instruction after the load of the page-table register, which the linker puts at \<open>after_paging\<close>, is
  fetched through the tables then in the register.  Where they do not map it the processor can go no
  further: the page fault finds the gate table unmapped too, and it resets.  Physical memory is seen in
  the kernel's window on it.
\<close>

definition kernel_translate :: "kstate \<Rightarrow> u64 \<Rightarrow> u64 option" where
  "kernel_translate s = processor_translate (\<lambda>t i. load64 (kmem s) (entry_ptr (MEM_PHYS_TO_VIRT t) i)) (cr3 s)"

definition fetch_next :: "boot_env \<Rightarrow> kstate \<Rightarrow> kpanic + kstate" where
  "fetch_next env s = (case kernel_translate s (after_paging env) of None \<Rightarrow> Inl Unmapped_fetch | Some _ \<Rightarrow> Inr s)"

definition kernel_early :: "boot_env \<Rightarrow> u64 \<Rightarrow> boot_state \<Rightarrow> kpanic + boot_state" where
  "kernel_early env awd_ptr b =
     (let info = read_awd_info (kmem (boot_sys b)) awd_ptr;
          b = put_sys b (heap_early_init (boot_sys b) (ucast (ptr_malloc_current info) + KERNEL_VMB)
                (ucast (ptr_malloc_limit info) + KERNEL_VMB));
          b = early_devices info b;
          b = put_sys b (foldl log_event (boot_sys b) (kernel_version_print @ debug_lines));
          b = b\<lparr>ints := init_idt (isr_entry env) (irq_entry env) (table_idt_addr env) (table_idt_ptr_addr env) (ints b)\<rparr>
      in
      bind_r (run_sys vmm_init b) (\<lambda>b.
      bind_r (run_sys (fetch_next env) b) (\<lambda>b.
      bind_r (run_sys (\<lambda>s. init_memory s (MEM_PHYS_TO_VIRT awd_ptr)) b) (\<lambda>b.
      bind_r (run_sys (\<lambda>s. Inr (heap_init_full s)) b) (\<lambda>b.
      bind_r (add_driver b (serial_drv env)) (\<lambda>b.
      bind_r (add_driver b (vga_drv env)) (\<lambda>b.
      bind_r (add_driver b (keyboard_drv env)) (\<lambda>b.
      bind_r (kernel_main env (kern (ints b))) (\<lambda>st.
      Inr (b\<lparr>ints := (ints b)\<lparr>kern := st\<rparr>\<rparr>))))))))))"

text \<open>
  One round of the loop of \<open>thread_read_keyboard\<close>; \<open>input\<close> is what the debugger reads if it is entered,
  and the result \<open>None\<close> that it is still reading.
\<close>

definition read_keyboard_round ::
    "keyboard \<Rightarrow> debug_state \<Rightarrow> string \<Rightarrow> kpanic + (keyboard \<times> debug_state \<times> string) option" where
  "read_keyboard_round kb d input =
     bind_r (getchar_async kb) (\<lambda>(c, kb).
     if c = CHR ''~'' then
       bind_r (debugger_enter d input) (\<lambda>r. Inr (map_option (\<lambda>(d, input). (kb, d, input)) r))
     else if c \<noteq> NUL then Inr (Some (kb, dlog d (WriteChar c), input))
     else Inr (Some (kb, d, input)))"

text \<open>One round of the other test threads.\<close>

definition test_thread2_round :: "u64 \<Rightarrow> sched_state \<Rightarrow> kpanic + sched_state" where
  "test_thread2_round ret_addr st = Yield ret_addr st"

definition test_thread_round :: "string \<Rightarrow> u64 \<Rightarrow> debug_state \<Rightarrow> string \<Rightarrow> kpanic + (debug_state \<times> string) option" where
  "test_thread_round line ret_addr d input =
     (let d = dlog d (Log ''lobo'' line []) in
      bind_r (debugger_enter d input) (\<lambda>r. case r of
        None \<Rightarrow> Inr None
      | Some (d, input) \<Rightarrow> bind_r (Yield ret_addr (kernel d)) (\<lambda>st. Inr (Some (d\<lparr>kernel := st\<rparr>, input)))))"

section \<open>The threads of the running kernel\<close>

text \<open>
  The state the kernel runs in: the idle thread and the two ready threads take turns, the dead and
  the waiting one stay out.
\<close>

definition boot_threads :: "sched_state \<Rightarrow> u64 list \<Rightarrow> nat \<Rightarrow> bool" where
  "boot_threads st ts i \<longleftrightarrow> sched_ok st ts i \<and> length ts = 5 \<and> i < 3 \<and> currentThread (sched st) = ts ! i \<and>
     schedulingEnabled (sched st) \<and> state (tcbs st (ts ! 3)) = Dead \<and> state (tcbs st (ts ! 4)) = Waiting \<and>
     (\<forall>j < 3. state (tcbs st (ts ! j)) = Ready \<or> state (tcbs st (ts ! j)) = Running \<and> j = i)"

lemma slog_same: "same_sched st (slog st c)"
  by (simp add: same_sched_def slog_def log_event_def)

lemma debug_print_free_memory_same:
  "debug_print_free_memory s = Inr t \<Longrightarrow> \<exists>cs. t = fold (\<lambda>c s. log_event s c) cs s"
  by (auto simp: debug_print_free_memory_def bind_r_eq_Inr Let_def)

lemma fold_log_fields:
  "kheap (fold (\<lambda>c s. log_event s c) cs s) = kheap s" "kernel_pmm (fold (\<lambda>c s. log_event s c) cs s) = kernel_pmm s"
  by (induction cs arbitrary: s) (simp_all add: log_event_def)

lemma first_ready_boot:
  assumes "boot_threads st ts i"
  shows "first_ready st ts i 5 = Some (Suc i mod 3)"
proof -
  have st: "state (tcbs st (ts ! 3)) = Dead" "state (tcbs st (ts ! 4)) = Waiting" "i < 3" "length ts = 5"
    using assms by (auto simp: boot_threads_def)
  have ready: "state (tcbs st (ts ! j)) = Ready" if "j < 3" "j \<noteq> i" for j
    using assms that by (auto simp: boot_threads_def)
  have "[1..<Suc 5] = [1, 2, 3, 4, 5 :: nat]" by (simp add: upt_rec)
  note fr = first_ready_def [of st ts i 5, unfolded this]
  consider "i = 0" | "i = 1" | "i = 2" using st(3) by linarith
  then show ?thesis
  proof cases
    case 1
    then show ?thesis unfolding fr using ready [of 1] st(4) by simp
  next
    case 2
    then show ?thesis unfolding fr using ready [of 2] st(4) by (simp add: numeral_2_eq_2)
  next
    case 3
    then show ?thesis unfolding fr using ready [of 0] st by (simp add: numeral_2_eq_2)
  qed
qed

lemma boot_threads_slice:
  assumes "boot_threads st ts i"
  shows "\<exists>st'. time_slice st q = Inr st' \<and> boot_threads st' ts (Suc i mod 3)"
proof -
  obtain r rs pc m where q: "q = (r, rs, pc, m)" by (cases q)
  let ?st = "run_code st rs pc m"
  have same: "same_sched st ?st" by (rule same_sched_steps)
  have t: "boot_threads ?st ts i"
    using assms same same_sched_frame(1) [OF same] by (auto simp: boot_threads_def same_sched_def run_code_def)
  then have ok: "sched_ok ?st ts i" "length ts = 5" "schedulingEnabled (sched ?st)" "i < 3"
    by (simp_all add: boot_threads_def)
  then have at: "at_thread ?st ts i" by (simp add: sched_ok_def)
  have j: "Suc i mod 3 < 5" "Suc i mod 3 < 3" using ok(4) by simp_all
  have "first_ready ?st ts i 501 = Some (Suc i mod 3)"
    using first_ready_round [of ts 501 ?st i] first_ready_boot [OF t] ok(2) by simp
  then have run: "Schedule r ?st = Inr (dispatch r ?st ts (Suc i mod 3))"
    using schedule_loop_first [OF at, of 0 501 r] ok(3) by (simp add: Schedule_def maxTries_def)
  have "distinct ts" using ok(1) by (simp add: sched_ok_def)
  then have neq: "ts ! a = ts ! b \<longleftrightarrow> a = b" if "a < 5" "b < 5" for a b
    using that ok(2) by (simp add: nth_eq_iff_index_eq)
  have cur: "currentThread (sched ?st) = ts ! i" using t by (simp add: boot_threads_def)
  have "boot_threads (dispatch r ?st ts (Suc i mod 3)) ts (Suc i mod 3)"
    unfolding boot_threads_def dispatch_fields cur
    using sched_ok_dispatch [OF ok(1), of "Suc i mod 3" r] t ok j neq
    by (auto simp: boot_threads_def)
  then show ?thesis using run by (simp add: time_slice_def q)
qed

lemma creates_next:
  assumes "CreateThread st name f = Inr (p, st')" and "sched_ok st ts i" 
  shows "sched_ok st' (ts @ [p]) i" "currentThread (sched st') = currentThread (sched st)"
    "state (tcbs st' p) = Ready" "\<And>q. q \<in> set ts \<Longrightarrow> tcbs st' q = tcbs st q" "p \<noteq> currentThread (sched st)"
proof -
  have c: "creates st ts p st'"
    using assms by (intro CreateThread_creates) (auto simp: sched_ok_def at_thread_def)
  show ok: "sched_ok st' (ts @ [p]) i" by (rule sched_ok_creates [OF assms(2) c])
  show "currentThread (sched st') = currentThread (sched st)" "state (tcbs st' p) = Ready"
    using c by (auto simp: creates_def)
  have "p \<notin> set ts" using ok by (simp add: sched_ok_def)
  then show "tcbs st' q = tcbs st q" if "q \<in> set ts" for q using c that by (auto simp: creates_def)
  show "p \<noteq> currentThread (sched st)" using assms(2) \<open>p \<notin> set ts\<close> by (auto simp: sched_ok_def)
qed

text \<open>The frames that four creations in a row leave.\<close>

lemma four_created:
  assumes ok: "sched_ok st1 ts i" and below: "bitmap_below st1"
    and c: "CreateThread st1 n1 f1 = Inr (p1, st2)" "CreateThread st2 n2 f2 = Inr (p2, st3)"
      "CreateThread st3 n3 f3 = Inr (p3, st4)" "CreateThread st4 n4 f4 = Inr (p4, st5)"
  shows "created_on st5 p1 n1 f1 \<and> created_on st5 p2 n2 f2 \<and> created_on st5 p3 n3 f3 \<and> created_on st5 p4 n4 f4"
proof -
  have use: "holds_threads s us" "heap_usable (sys s)" if "sched_ok s us j" for s us j
    using that by (simp_all add: sched_ok_def at_thread_def)
  note ok2 = creates_next(1) [OF c(1) ok]
  note ok3 = creates_next(1) [OF c(2) ok2]
  note ok4 = creates_next(1) [OF c(3) ok3]
  note ok5 = creates_next(1) [OF c(4) ok4]
  have "distinct ((((ts @ [p1]) @ [p2]) @ [p3]) @ [p4])" using ok5 unfolding sched_ok_def by blast
  then have d: "p1 \<noteq> p2" "p1 \<noteq> p3" "p1 \<noteq> p4" "p2 \<noteq> p3" "p2 \<noteq> p4" "p3 \<noteq> p4" by simp_all
  note m1 = CreateThread_created [OF c(1) use [OF ok] below]
  note m2 = CreateThread_created [OF c(2) use [OF ok2] m1(3)]
  note m3 = CreateThread_created [OF c(3) use [OF ok3] m2(3)]
  note m4 = CreateThread_created [OF c(4) use [OF ok4] m3(3)]
  have 2: "frame_apart st3 p1 \<and> created_on st3 p1 n1 f1" using m2(4) [OF d(1) m1(2)] m1(1) by blast
  have 3: "frame_apart st4 p1 \<and> created_on st4 p1 n1 f1" "frame_apart st4 p2 \<and> created_on st4 p2 n2 f2"
    using m3(4) [OF d(2)] m3(4) [OF d(4)] 2 m2(1,2) by blast+
  show ?thesis using m4(4) [OF d(3)] m4(4) [OF d(5)] m4(4) [OF d(6)] 3 m3(1,2) m4(1) by blast
qed

lemma created_on_marks [simp]:
  "created_on (slog st c) p n f = created_on st p n f" "created_on (EnableScheduling st) p n f = created_on st p n f"
  "created_on (set_state st q v) p n f = created_on st p n f"
  by (simp_all add: created_on_def slog_def log_event_def EnableScheduling_def set_state_def)

text \<open>The calls of \<open>kernel_main\<close> one by one.\<close>

lemma kernel_main_calls:
  assumes start: "sched_start st" and run: "kernel_main env st = Inr st'"
  obtains st0 st1 st2 st3 st4 st5 p1 p2 p3 p4 where
    "sched_start st0" "idleThread (sched st0) = idleThread (sched st)" "bitmap_below st0 = bitmap_below st"
    "Scheduler_Init (return_addr env 0) (return_addr env 1) st0 = Inr st1"
    "CreateThread st1 ''k/keyboard'' (thread_read_keyboard env) = Inr (p1, st2)"
    "CreateThread st2 ''k/test2'' (test_thread2 env) = Inr (p2, st3)"
    "CreateThread st3 ''k/test_dead'' (test_thread3 env) = Inr (p3, st4)"
    "CreateThread st4 ''k/test_waiting'' (test_thread4 env) = Inr (p4, st5)"
    "st' = slog (EnableScheduling (set_state (set_state st5 p3 Dead) p4 Waiting)) (Log ''lobo'' ''Entered idle thread'' [])"
proof -
  let ?st = "slog st (Log ''lobo'' ''Entered Kernel Main'' [])"
  from run obtain s st1 p1 st2 p2 st3 p3 st4 p4 st5 where s: "debug_print_free_memory (sys ?st) = Inr s"
    and calls: "Scheduler_Init (return_addr env 0) (return_addr env 1) (?st\<lparr>sys := s\<rparr>) = Inr st1"
      "CreateThread st1 ''k/keyboard'' (thread_read_keyboard env) = Inr (p1, st2)"
      "CreateThread st2 ''k/test2'' (test_thread2 env) = Inr (p2, st3)"
      "CreateThread st3 ''k/test_dead'' (test_thread3 env) = Inr (p3, st4)"
      "CreateThread st4 ''k/test_waiting'' (test_thread4 env) = Inr (p4, st5)"
      "st' = slog (EnableScheduling (set_state (set_state st5 p3 Dead) p4 Waiting)) (Log ''lobo'' ''Entered idle thread'' [])"
    by (auto simp: kernel_main_def Let_def bind_r_eq_Inr)
  have same: "kheap s = kheap (sys st)" "kernel_pmm s = kernel_pmm (sys st)"
    using debug_print_free_memory_same [OF s] by (auto simp: fold_log_fields) (simp_all add: slog_def log_event_def)
  have "sched_start (?st\<lparr>sys := s\<rparr>)" "idleThread (sched (?st\<lparr>sys := s\<rparr>)) = idleThread (sched st)"
    "bitmap_below (?st\<lparr>sys := s\<rparr>) = bitmap_below st"
    using start same by (simp_all add: sched_start_def slog_def heap_usable_def bitmap_below_def)
  then show thesis using that calls by blast
qed

lemma kernel_main_boot_threads:
  assumes start: "sched_start st" and run: "kernel_main env st = Inr st'"
  obtains ts where "boot_threads st' ts 0" "ts ! 0 = idleThread (sched st)"
    "bitmap_below st \<Longrightarrow> created_on st' (ts ! 1) ''k/keyboard'' (thread_read_keyboard env) \<and>
       created_on st' (ts ! 2) ''k/test2'' (test_thread2 env) \<and> created_on st' (ts ! 3) ''k/test_dead'' (test_thread3 env) \<and>
       created_on st' (ts ! 4) ''k/test_waiting'' (test_thread4 env)"
proof -
  let ?idle = "idleThread (sched st)"
  obtain st0 st1 st2 st3 st4 st5 p1 p2 p3 p4 where st0: "sched_start st0" "idleThread (sched st0) = ?idle"
      "bitmap_below st0 = bitmap_below st"
    and st1: "Scheduler_Init (return_addr env 0) (return_addr env 1) st0 = Inr st1"
    and c1: "CreateThread st1 ''k/keyboard'' (thread_read_keyboard env) = Inr (p1, st2)"
    and c2: "CreateThread st2 ''k/test2'' (test_thread2 env) = Inr (p2, st3)"
    and c3: "CreateThread st3 ''k/test_dead'' (test_thread3 env) = Inr (p3, st4)"
    and c4: "CreateThread st4 ''k/test_waiting'' (test_thread4 env) = Inr (p4, st5)"
    and st': "st' = slog (EnableScheduling (set_state (set_state st5 p3 Dead) p4 Waiting)) (Log ''lobo'' ''Entered idle thread'' [])"
    by (rule kernel_main_calls [OF start run])
  from Scheduler_Init_inv [OF st0(1) st1] have inv: "sched_inv st1 [?idle] 0" by (simp add: st0(2))
  then have ok1: "sched_ok st1 [?idle] 0" and cur1: "currentThread (sched st1) = ?idle"
    and idle1: "state (tcbs st1 ?idle) = Ready \<or> state (tcbs st1 ?idle) = Running"
    by (auto simp: sched_inv_def)
  note n2 = creates_next [OF c1 ok1]
  note n3 = creates_next [OF c2 n2(1)]
  note n4 = creates_next [OF c3 n3(1)]
  note n5 = creates_next [OF c4 n4(1)]
  let ?ts = "[?idle, p1, p2, p3, p4]"
  have ok5: "sched_ok st5 ?ts 0" using n5(1) by simp
  have dist: "distinct ?ts" using ok5 unfolding sched_ok_def by blast
  have cur: "currentThread (sched st5) = ?idle" using cur1 n2(2) n3(2) n4(2) n5(2) by simp
  have states: "state (tcbs st5 p1) = Ready" "state (tcbs st5 p2) = Ready" "state (tcbs st5 ?idle) = state (tcbs st1 ?idle)"
    using n2(3,4) n3(3,4) n4(4) n5(4) by simp_all
  let ?m = "set_state (set_state st5 p3 Dead) p4 Waiting"
  have "sched_ok ?m ?ts 0"
    using dist cur by (intro sched_ok_mark sched_ok_mark [OF ok5]) auto
  moreover have same: "same_sched ?m (EnableScheduling ?m)" "same_sched (EnableScheduling ?m) st'"
    unfolding st' by (rule same_sched_steps, rule slog_same)
  ultimately have ok': "sched_ok st' ?ts 0"
    using same_sched_frame(1) [OF same(1)] same_sched_frame(1) [OF same(2)] by simp
  have "state (tcbs st' p) = state (tcbs ?m p)" "currentThread (sched st') = ?idle" for p
    using same cur by (simp_all add: same_sched_def)
  moreover have "schedulingEnabled (sched st')" by (simp add: st' slog_def EnableScheduling_def)
  moreover have "\<forall>j < 3. state (tcbs ?m (?ts ! j)) = Ready \<or> state (tcbs ?m (?ts ! j)) = Running \<and> j = 0"
    using dist states idle1 by (auto simp: set_state_def less_Suc_eq numeral_3_eq_3)
  ultimately have "boot_threads st' ?ts 0"
    using ok' dist by (simp add: boot_threads_def) (auto simp: set_state_def)
  moreover have "created_on st5 p1 ''k/keyboard'' (thread_read_keyboard env) \<and> created_on st5 p2 ''k/test2'' (test_thread2 env) \<and>
      created_on st5 p3 ''k/test_dead'' (test_thread3 env) \<and> created_on st5 p4 ''k/test_waiting'' (test_thread4 env)"
    if "bitmap_below st"
    using four_created [OF ok1 Scheduler_Init_bitmap [OF st0(1) st1] c1 c2 c3 c4] that st0(3) by blast
  ultimately show thesis using that [of ?ts] by (simp add: st')
qed

section \<open>Taking turns\<close>

text \<open>C33. What the kernel runs after \<open>kernel_main\<close>: five threads, with the idle thread on the processor.
  The other four are \<open>k/keyboard\<close>, \<open>k/test2\<close>, \<open>k/test_dead\<close> and \<open>k/test_waiting\<close> in this order, each with
  the frame on its stack that starts it at its own function (where the page bitmap lies below the heap, so
  that accounting for a block does not write into one).  From then on, whatever code the threads run, timer
  interrupt after timer interrupt switches between the idle thread, \<open>k/keyboard\<close> and \<open>k/test2\<close> in turn, and
  the dead and the waiting thread never get the processor.\<close>

theorem kernel_main_takes_turns:
  assumes "sched_start st" and "kernel_main env st = Inr st'"
  shows "\<exists>ts. distinct ts \<and> length ts = 5 \<and> ts ! 0 = idleThread (sched st) \<and>
    (bitmap_below st \<longrightarrow> created_on st' (ts ! 1) ''k/keyboard'' (thread_read_keyboard env) \<and>
       created_on st' (ts ! 2) ''k/test2'' (test_thread2 env) \<and> created_on st' (ts ! 3) ''k/test_dead'' (test_thread3 env) \<and>
       created_on st' (ts ! 4) ''k/test_waiting'' (test_thread4 env)) \<and>
    state (tcbs st' (ts ! 3)) = Dead \<and> state (tcbs st' (ts ! 4)) = Waiting \<and>
    (\<forall>qs. \<exists>st''. fold_r time_slice qs st' = Inr st'' \<and> currentThread (sched st'') = ts ! (length qs mod 3))"
proof -
  obtain ts where ts: "boot_threads st' ts 0" "ts ! 0 = idleThread (sched st)"
    and made: "bitmap_below st \<Longrightarrow> created_on st' (ts ! 1) ''k/keyboard'' (thread_read_keyboard env) \<and>
       created_on st' (ts ! 2) ''k/test2'' (test_thread2 env) \<and> created_on st' (ts ! 3) ''k/test_dead'' (test_thread3 env) \<and>
       created_on st' (ts ! 4) ''k/test_waiting'' (test_thread4 env)"
    by (rule kernel_main_boot_threads [OF assms]) blast
  have "\<exists>st''. fold_r time_slice qs s = Inr st'' \<and> boot_threads st'' ts ((i + length qs) mod 3)"
    if "boot_threads s ts i" for qs s i
    using that
  proof (induction qs arbitrary: s i)
    case Nil
    then show ?case by (auto simp: boot_threads_def)
  next
    case (Cons q qs)
    from boot_threads_slice [OF Cons.prems, of q] obtain t where t: "time_slice s q = Inr t" "boot_threads t ts (Suc i mod 3)"
      by blast
    from Cons.IH [OF t(2)] show ?case using t(1) by (auto simp: mod_simps)
  qed
  from this [OF ts(1)] have "\<exists>st''. fold_r time_slice qs st' = Inr st'' \<and> currentThread (sched st'') = ts ! (length qs mod 3)" for qs
    by (auto simp: boot_threads_def)
  moreover have "distinct ts" "length ts = 5" "state (tcbs st' (ts ! 3)) = Dead" "state (tcbs st' (ts ! 4)) = Waiting"
    using ts(1) by (simp_all add: boot_threads_def sched_ok_def)
  ultimately show ?thesis using ts(2) made by blast
qed

definition sample_env :: boot_env where
  "sample_env = \<lparr>isr_entry = (\<lambda>i. 0x1000 + of_nat i), irq_entry = (\<lambda>i. 0x2000 + of_nat i), table_idt_addr = 0x5000,
     table_idt_ptr_addr = 0x6000, serial_drv = 0x300, vga_drv = 0x310, keyboard_drv = 0x320,
     thread_read_keyboard = 0x4000, test_thread2 = 0x4100, test_thread3 = 0x4200, test_thread4 = 0x4300, after_paging = KERNEL_VMA,
     return_addr = (\<lambda>_. 0)\<rparr>"

section \<open>The kernel comes up when the heap has room\<close>

text \<open>A heap of the early mode with \<open>n\<close> bytes left.\<close>

definition room :: "kstate \<Rightarrow> nat \<Rightarrow> bool" where
  "room s n \<longleftrightarrow> currentMode (kheap s) = EarlyBoot \<and> heap_usable s \<and> heap_cursor s + n \<le> heap_limit s"

lemma room_log [simp]: "room (log_event s c) n = room s n"
  by (simp add: room_def heap_usable_def log_event_def)

lemma room_same: "kheap s = kheap t \<Longrightarrow> room s n = room t n"
  by (simp add: room_def heap_usable_def)

lemma kmalloc_room:
  assumes "room s m" and "n + unat sz + 8 \<le> m" and "unat sz \<le> 0x8000"
  shows "\<exists>b t. kmalloc s sz = Inr (b, t) \<and> room t n"
proof -
  let ?b = "align_base (earlyAllocBase (kheap s)) 8"
  have r: "currentMode (kheap s) = EarlyBoot" "heap_usable s" "heap_cursor s + n + unat sz + 8 \<le> heap_limit s"
    using assms(1,2) by (simp_all add: room_def)
  then have b: "unat ?b < heap_cursor s + 8"
    using align_base_unat(3) [of 8 "earlyAllocBase (kheap s)"] by (simp add: heap_usable_def)
  then have "unat (?b + sz) = unat ?b + unat sz" using r(2,3) assms(3) by (simp add: heap_usable_def unat_add_lt)
  then have "?b + sz \<le> earlyAllocLimit (kheap s)" using b r(3) by (simp add: word_le_nat_alt)
  then obtain t where t: "kmalloc s sz = Inr (?b, t)" using r(1) by (auto simp: kmalloc_def kmalloc_early)
  note k = kmalloc_usable [OF r(2) t assms(3)]
  have "kheap t = (kheap s)\<lparr>earlyAllocBase := ?b + sz\<rparr>" using kmalloc_heap [OF t [unfolded kmalloc_def]] by simp
  then have "room t n" using r b k(1,3) by (simp add: room_def)
  then show ?thesis using t by blast
qed

lemma push_back_room:
  assumes "room s m" and "n + 24 \<le> m"
  shows "\<exists>s' h' l'. push_back (s, h, l) v = Inr (s', h', l') \<and> room s' n"
proof -
  have "unat NODE_SIZE = 16" by (simp add: NODE_SIZE_def)
  with assms kmalloc_room [of s m n NODE_SIZE] obtain b t where "kmalloc s NODE_SIZE = Inr (b, t)" "room t n" by auto
  then show ?thesis by (simp add: push_back_def create_head_def Let_def)
qed

lemma push_thread_room:
  assumes "room (sys st) m" and "n + 24 \<le> m"
  shows "\<exists>st'. push_thread st p = Inr st' \<and> room (sys st') n"
  using push_back_room [OF assms, of "list_heap st" "threads (sched st)" p] by (auto simp: push_thread_def)

lemma push_task_room:
  assumes "room (sys st) m" and "n + 24 \<le> m"
  shows "\<exists>st' l. push_task st p = Inr st' \<and> room (sys st') n \<and> sched st' = (sched st)\<lparr>tasks := l\<rparr>"
  using push_back_room [OF assms, of "list_heap st" "tasks (sched st)" p] by (auto simp: push_task_def)

lemma CreateThread_room:
  assumes "room (sys st) m" and "n + 0x8000 \<le> m"
  shows "\<exists>p st'. CreateThread st name f = Inr (p, st') \<and> room (sys st') n"
proof -
  have sz: "unat TCB_SIZE = 40" "unat THREAD_STACK_SIZE = 0x4000"
    by (simp_all add: TCB_SIZE_def THREAD_STACK_SIZE_def PAGE_SIZE_def)
  obtain p s where 1: "kmalloc (sys st) TCB_SIZE = Inr (p, s)" "room s (n + 0x6000)"
    using kmalloc_room [OF assms(1), of "n + 0x6000" TCB_SIZE] assms(2) sz by auto
  let ?s = "log_event s (Log ''thread'' ''Creating thread %s => 0x%16p'' [StrArg name, IntArg f])"
  have "room ?s (n + 0x6000)" using 1(2) by simp
  then obtain b t where 2: "kmalloc ?s THREAD_STACK_SIZE = Inr (b, t)" "room t (n + 24)"
    using kmalloc_room [of ?s "n + 0x6000" "n + 24" THREAD_STACK_SIZE] sz by auto
  then have "room (t\<lparr>kmem := k\<rparr>) (n + 24)" for k by (simp add: room_def heap_usable_def)
  then have "\<exists>st'. push_thread (st\<lparr>sys := t\<lparr>kmem := k\<rparr>, tcbs := c, next_tid := i\<rparr>) p = Inr st' \<and> room (sys st') n" for k c i
    by (intro push_thread_room [of _ "n + 24"]) simp_all
  then show ?thesis using 1(1) 2(1) unfolding CreateThread_def Let_def by (simp add: bind_r_eq_Inr)
qed

lemma Switch_room:
  "newThread \<noteq> 0 \<Longrightarrow> room (sys st) n \<Longrightarrow> \<exists>st'. SwitchThread r st newThread = Inr st' \<and> room (sys st') n \<and>
     idleThread (sched st') = idleThread (sched st) \<and> kernelTask (sched st') = kernelTask (sched st)"
  "task \<noteq> 0 \<Longrightarrow> room (sys st) n \<Longrightarrow> \<exists>st'. SwitchTask r st task = Inr st' \<and> room (sys st') n \<and>
     idleThread (sched st') = idleThread (sched st) \<and> kernelTask (sched st') = kernelTask (sched st)"
  by (simp_all add: SwitchThread_def SwitchTask_def Let_def call_routine_def of_machine_def room_def heap_usable_def assert_def guard_def)

lemma Scheduler_Init_room:
  assumes "room (sys st) m" and "n + 0x40 \<le> m" and "idleThread (sched st) \<noteq> 0" "kernelTask (sched st) \<noteq> 0"
  shows "\<exists>st'. Scheduler_Init r1 r2 st = Inr st' \<and> room (sys st') n"
proof -
  let ?kt = "kernelTask (sched st)" and ?it = "idleThread (sched st)"
  let ?st1 = "st\<lparr>task_blocks := (task_blocks st)(?kt := \<lparr>vas = MEM_VIRT_TO_PHYS (pdir_kernel (kernel_vmm (sys st))),
                 taskID = 0, task_state = Running, taskName = ''Lobo Kernel''\<rparr>)\<rparr>"
  obtain st2 l where 1: "push_task ?st1 ?kt = Inr st2" "room (sys st2) (n + 24)" "sched st2 = (sched st)\<lparr>tasks := l\<rparr>"
    using push_task_room [of ?st1 m "n + 24" ?kt] assms(1,2) by auto
  let ?st3 = "st2\<lparr>tcbs := (tcbs st2)(?it := (tcbs st2 ?it)\<lparr>stack_top := 0, threadName := ''k/idle'', thread_taskID := 0\<rparr>),
                  sched := (sched st2)\<lparr>currentThread := ?it, currentTask := ?kt\<rparr>\<rparr>"
  obtain st4 where 2: "SwitchTask r1 ?st3 ?kt = Inr st4" "room (sys st4) (n + 24)"
    using Switch_room(2) [of ?kt ?st3 "n + 24" r1] assms(4) 1 by auto
  obtain st5 where 3: "SwitchThread r2 st4 ?it = Inr st5" "room (sys st5) (n + 24)"
    using Switch_room(1) [of ?it st4 "n + 24" r2] assms(3) 2 by auto
  obtain st6 where 4: "push_thread st5 ?it = Inr st6" "room (sys st6) n"
    using push_thread_room [of st5 "n + 24" n ?it] 3 by auto
  show ?thesis using 1 2 3 4 by (simp add: Scheduler_Init_def Let_def)
qed

text \<open>With 160 KiB of heap left in the early mode, and page accounting that does not fail, \<open>kernel_main\<close> returns.\<close>

lemma kernel_main_returns:
  assumes "room (sys st) m" "0x28000 \<le> m" and "idleThread (sched st) \<noteq> 0" "kernelTask (sched st) \<noteq> 0"
    and free: "debug_print_free_memory (sys (slog st (Log ''lobo'' ''Entered Kernel Main'' []))) = Inr s"
  shows "\<exists>st'. kernel_main env st = Inr st'"
proof -
  let ?st = "slog st (Log ''lobo'' ''Entered Kernel Main'' [])"
  have "kheap s = kheap (sys st)"
    using debug_print_free_memory_same [OF free] by (auto simp: fold_log_fields) (simp add: slog_def log_event_def)
  then have "room (sys (?st\<lparr>sys := s\<rparr>)) m" using assms(1) room_same [of s "sys st"] by simp
  then obtain st1 where 1: "Scheduler_Init (return_addr env 0) (return_addr env 1) (?st\<lparr>sys := s\<rparr>) = Inr st1"
      "room (sys st1) 0x20000"
    using Scheduler_Init_room [of "?st\<lparr>sys := s\<rparr>" m "0x20000" "return_addr env 0" "return_addr env 1"] assms(2-4) by (auto simp: slog_def)
  obtain p1 st2 where 2: "CreateThread st1 ''k/keyboard'' (thread_read_keyboard env) = Inr (p1, st2)" "room (sys st2) 0x18000"
    using CreateThread_room [OF 1(2), of "0x18000"] by simp blast
  obtain p2 st3 where 3: "CreateThread st2 ''k/test2'' (test_thread2 env) = Inr (p2, st3)" "room (sys st3) 0x10000"
    using CreateThread_room [OF 2(2), of "0x10000"] by simp blast
  obtain p3 st4 where 4: "CreateThread st3 ''k/test_dead'' (test_thread3 env) = Inr (p3, st4)" "room (sys st4) 0x8000"
    using CreateThread_room [OF 3(2), of "0x8000"] by simp blast
  obtain p4 st5 where 5: "CreateThread st4 ''k/test_waiting'' (test_thread4 env) = Inr (p4, st5)" "room (sys st5) 0"
    using CreateThread_room [OF 4(2), of "0"] by simp blast
  show ?thesis using free 1(1) 2(1) 3(1) 4(1) 5(1) by (simp add: kernel_main_def Let_def)
qed

definition sample_main :: sched_state where
  "sample_main = sample_sched\<lparr>sys := (sys sample_sched)\<lparr>kernel_pmm := pmm_initial\<rparr>\<rparr>"

lemma sample_main_start: "sched_start sample_main" "bitmap_below sample_main"
  by (simp_all add: sample_main_def sched_start_def heap_usable_def bitmap_below_def sample_sched_def sample_heap_def
      pmm_initial_def null_bitset_def in_bitset_def in_range_unat)

lemma sample_kernel_main: "\<exists>st'. kernel_main sample_env sample_main = Inr st'"
proof -
  have "room (sys sample_main) 0x28000"
    by (simp add: room_def heap_usable_def sample_main_def sample_sched_def sample_heap_def)
  moreover obtain s where "debug_print_free_memory (sys (slog sample_main (Log ''lobo'' ''Entered Kernel Main'' []))) = Inr s"
    by (simp add: slog_def debug_print_free_memory_def count_free.simps usage_lines_def
      sample_main_def sample_sched_def sample_heap_def pmm_initial_def)
  ultimately show ?thesis by (rule_tac kernel_main_returns [where m = "0x28000"]) (simp_all add: sample_main_def sample_sched_def)
qed

abbreviation sample_slices :: "(u64 \<times> (reg \<Rightarrow> u64) \<times> u64 \<times> 64 bytes) list" where
  "sample_slices \<equiv> [(0, \<lambda>_. 1, 0, \<lambda>_. 0), (0, \<lambda>_. 2, 0, \<lambda>_. 0), (0, \<lambda>_. 3, 0, \<lambda>_. 0), (0, \<lambda>_. 4, 0, \<lambda>_. 0), (0, \<lambda>_. 5, 0, \<lambda>_. 0)]"

theorem kernel_main_takes_turns_witness:
  "\<exists>st' st'' p. kernel_main sample_env sample_main = Inr st' \<and> created_on st' p ''k/test2'' 0x4100 \<and>
     fold_r time_slice sample_slices st' = Inr st'' \<and> currentThread (sched st'') = p"
proof -
  obtain st' where run: "kernel_main sample_env sample_main = Inr st'" using sample_kernel_main ..
  from kernel_main_takes_turns [OF sample_main_start(1) run] sample_main_start(2) obtain ts where ts: "created_on st' (ts ! 2) ''k/test2'' (test_thread2 sample_env)"
      "\<And>qs. \<exists>st''. fold_r time_slice qs st' = Inr st'' \<and> currentThread (sched st'') = ts ! (length qs mod 3)"
    by blast
  have "length sample_slices mod 3 = 2" "test_thread2 sample_env = 0x4100" by (simp_all add: sample_env_def)
  then show ?thesis using run ts(1) ts(2) [of sample_slices] by metis
qed

text \<open>In this state, with its dead and its waiting thread, \<open>k/test2\<close> has its turn within five slices.\<close>

theorem scheduler_fair_witness:
  "\<exists>st' ts k st''. kernel_main sample_env sample_main = Inr st' \<and> length ts = 5 \<and> state (tcbs st' (ts ! 3)) = Dead \<and>
     1 \<le> k \<and> k \<le> 5 \<and> fold_r time_slice (sample_slices @ take k sample_slices) st' = Inr st'' \<and>
     currentThread (sched st'') = ts ! 2"
proof -
  obtain st' where run: "kernel_main sample_env sample_main = Inr st'" using sample_kernel_main ..
  obtain ts where "boot_threads st' ts 0" by (rule kernel_main_boot_threads [OF sample_main_start(1) run])
  then have ts: "sched_ok st' ts 0" "length ts = 5" "schedulingEnabled (sched st')" "state (tcbs st' (ts ! 3)) = Dead"
    "state (tcbs st' (ts ! 2)) = Ready \<or> state (tcbs st' (ts ! 2)) = Running"
    unfolding boot_threads_def by (blast, blast, blast, blast, metis less_add_one numeral_2_eq_2 numeral_3_eq_3 lessI)
  then have "length ts \<le> Suc maxTries" "ts ! 2 \<in> set ts" "length sample_slices = length ts" by (simp_all add: maxTries_def)
  from scheduler_fair [OF ts(1,3) this(1,2) ts(5) this(3), of sample_slices] show ?thesis
    using run ts(2,4) by auto
qed

section \<open>Loading the empty directory\<close>

lemma early_devices_ints [simp]: "ints (early_devices info b) = ints b"
  by (simp add: early_devices_def Let_def)

lemma init_idt_sys:
  "sys (kern (init_idt isr irq a p st)) = (log_event (log_event (sys (kern st)) (Log ''int'' ''Initialising interrupts'' []))
     (Log ''int'' ''Interrupts enabled'' []))\<lparr>if_flag := True\<rparr>"
  by (simp add: init_idt_def Let_def ilog_def set_if_def pic_remap_def outb_def log_event_def)

text \<open>The kernel's state when \<open>kernel_early\<close> reaches the virtual memory manager.\<close>

definition early_sys :: "boot_state \<Rightarrow> awd_info \<Rightarrow> kstate \<Rightarrow> bool" where
  "early_sys b info s \<longleftrightarrow> kmem s = kmem (boot_sys b) \<and> kernel_pmm s = kernel_pmm (boot_sys b) \<and>
     kernel_vmm s = kernel_vmm (boot_sys b) \<and>
     kheap s = \<lparr>earlyAllocBase = ucast (ptr_malloc_current info) + KERNEL_VMB,
       earlyAllocLimit = ucast (ptr_malloc_limit info) + KERNEL_VMB, currentMode = EarlyBoot\<rparr>"

lemma kernel_early_memory:
  assumes "info = read_awd_info (kmem (boot_sys b)) awd_ptr"
  obtains b' where "early_sys b info (boot_sys b')"
    "\<And>e. bind_r (vmm_init (boot_sys b')) (fetch_next env) = Inl e \<Longrightarrow> kernel_early env awd_ptr b = Inl e"
proof -
  let ?b1 = "early_devices info (put_sys b (heap_early_init (boot_sys b) (ucast (ptr_malloc_current info) + KERNEL_VMB)
                (ucast (ptr_malloc_limit info) + KERNEL_VMB)))"
  let ?b2 = "put_sys ?b1 (foldl log_event (boot_sys ?b1) (kernel_version_print @ debug_lines))"
  let ?b3 = "?b2\<lparr>ints := init_idt (isr_entry env) (irq_entry env) (table_idt_addr env) (table_idt_ptr_addr env) (ints ?b2)\<rparr>"
  have "early_sys b info (boot_sys ?b3)"
    by (simp add: early_sys_def init_idt_sys put_sys_def heap_early_init_def log_event_def kernel_version_print_def debug_lines_def)
  moreover have "kernel_early env awd_ptr b = Inl e"
    if "bind_r (vmm_init (boot_sys ?b3)) (fetch_next env) = Inl e" for e
  proof -
    have e: "kernel_early env awd_ptr b = bind_r (run_sys vmm_init ?b3) (\<lambda>b.
      bind_r (run_sys (fetch_next env) b) (\<lambda>b.
      bind_r (run_sys (\<lambda>s. init_memory s (MEM_PHYS_TO_VIRT awd_ptr)) b) (\<lambda>b.
      bind_r (run_sys (\<lambda>s. Inr (heap_init_full s)) b) (\<lambda>b.
      bind_r (add_driver b (serial_drv env)) (\<lambda>b.
      bind_r (add_driver b (vga_drv env)) (\<lambda>b.
      bind_r (add_driver b (keyboard_drv env)) (\<lambda>b.
      bind_r (kernel_main env (kern (ints b))) (\<lambda>st.
      Inr (b\<lparr>ints := (ints b)\<lparr>kern := st\<rparr>\<rparr>)))))))))"
      by (simp only: kernel_early_def Let_def assms)
    define b3 where "b3 = ?b3"
    from that have t: "bind_r (vmm_init (boot_sys b3)) (fetch_next env) = Inl e"
      by (simp only: b3_def)
    show ?thesis unfolding e b3_def [symmetric]
      using t by (cases "vmm_init (boot_sys b3)") (simp_all add: run_sys_def put_sys_def)
  qed
  ultimately show thesis using that by blast
qed

lemma unat_phys_to_virt:
  assumes "unat (a :: u64) < 2 ^ 31"
  shows "unat (a + KERNEL_VMB) = unat a + (2 ^ 64 - 2 ^ 31)"
  using assms unat_add_lt [of a KERNEL_VMB] by (simp add: KERNEL_VMB_def)

text \<open>Through a directory without entries nothing is translated.\<close>

lemma empty_directory_translates_nothing:
  assumes "\<forall>i < 512. entry (kmem s) root i = 0" and "page_aligned root" and "cr3 s = MEM_VIRT_TO_PHYS root"
    and "unat (MEM_VIRT_TO_PHYS root) < 2 ^ 32"
  shows "kernel_translate s v = None"
proof -
  have "MEM_VIRT_TO_PHYS root < 0x100000000" using assms(4) by (simp add: word_less_nat_alt)
  then have "entry_frame (cr3 s) = MEM_VIRT_TO_PHYS root"
    unfolding assms(3) by (intro entry_frame_aligned(2) page_aligned_phys assms(2))
  moreover have "load64 (kmem s) (entry_ptr root (index_p4 v)) = 0" using assms(1) by (simp add: entry_load)
  ultimately show ?thesis by (simp add: kernel_translate_def processor_translate_def)
qed

text \<open>The way up ends there: with two pages of heap below 2 GiB, \<open>kernel_early\<close> sets up the heap, the
  console and the interrupts, loads the empty page directory, and the next fetch fails.\<close>

lemma kernel_early_faults:
  assumes info: "info = read_awd_info (kmem (boot_sys b)) awd_ptr"
    and fresh: "kernel_pmm (boot_sys b) = pmm_initial" "kernel_vmm (boot_sys b) = vmm_initial"
    and room: "unat (ptr_malloc_current info) + 0x2000 \<le> unat (ptr_malloc_limit info)"
      "unat (ptr_malloc_limit info) + 0x2000 \<le> 2 ^ 31"
  shows "kernel_early env awd_ptr b = Inl Unmapped_fetch"
proof -
  obtain b' where early: "early_sys b info (boot_sys b')"
    and run: "\<And>e. bind_r (vmm_init (boot_sys b')) (fetch_next env) = Inl e \<Longrightarrow> kernel_early env awd_ptr b = Inl e"
    using kernel_early_memory [OF info] by blast
  let ?s = "boot_sys b'"
  define cur where "cur = unat (ptr_malloc_current info)"
  define lim where "lim = unat (ptr_malloc_limit info)"
  have small: "cur + 0x2000 \<le> lim" "lim + 0x2000 \<le> 2 ^ 31" using room by (simp_all add: cur_def lim_def)
  have mode: "currentMode (kheap ?s) = EarlyBoot" using early by (simp add: early_sys_def)
  have cursor: "heap_cursor ?s = cur + (2 ^ 64 - 2 ^ 31)" and limit: "heap_limit ?s = lim + (2 ^ 64 - 2 ^ 31)"
    using early small by (simp_all add: early_sys_def unat_phys_to_virt unat_ucast_up [where 'b = 64] cur_def lim_def)
  have ready: "heap_ready ?s"
    using early small cursor limit fresh(1) by (simp add: heap_ready_def early_sys_def pmm_initial_def in_bitset_def null_bitset_def in_range_def)
  have pages: "1 \<le> heap_pages ?s" using small by (simp add: heap_pages_def cursor limit)
  have fresh_vmm: "\<not> m_init (kernel_vmm ?s)" using early fresh(2) by (simp add: early_sys_def vmm_initial_def)
  have positive: "0 < heap_cursor ?s" by (simp add: cursor)
  from vmm_init_early [OF fresh_vmm ready positive mode pages] obtain t root where t: "vmm_init ?s = Inr t"
      "cr3 t = MEM_VIRT_TO_PHYS root" "\<forall>i < 512. entry (kmem t) root i = 0" "page_aligned root"
      "heap_cursor ?s \<le> unat root" "unat root < heap_cursor ?s + 4096"
    by blast
  have "unat (MEM_VIRT_TO_PHYS root) = unat root - (2 ^ 64 - 2 ^ 31)"
    using t(5) cursor by (simp add: MEM_VIRT_TO_PHYS_def KERNEL_VMB_def unat_sub_le)
  then have "unat (MEM_VIRT_TO_PHYS root) < 2 ^ 32" using t(6) cursor small by simp
  from empty_directory_translates_nothing [OF t(3,4,2) this]
  have "fetch_next env t = Inl Unmapped_fetch" by (simp add: fetch_next_def)
  then show ?thesis using run t(1) by simp
qed

definition sample_kernel :: boot_state where
  "sample_kernel = \<lparr>ints = sample_int\<lparr>kern := sample_sched\<lparr>sys := (sample_heap 0 0 Uninitialised)
       \<lparr>kernel_pmm := pmm_initial, kmem := (\<lambda>_. 0)(0x115 := 0x10, 0x11A := 1)\<rparr>\<rparr>\<rparr>,
     boot_log = log_initial, boot_serial_logger_device = \<lparr>deviceInit = False, uart_leftColumn = 0, line_status = [], sent = []\<rparr>,
     boot_vga_console_device = (vga_initial, \<lambda>_. 0), boot_registry = registry_initial\<rparr>"

end
