(* ===== verification/Loader_Console.thy ===== *)
theory Loader_Console
  imports Text_Screen
begin

text \<open>
  The loader's text console, src/awd/console/console.c.  The loader runs on a 32-bit processor
  without translation of addresses; its memory is a function of the physical address and the text
  buffer is part of it.
\<close>

section \<open>The code\<close>

record ConsoleData =
  con_x :: u32
  con_y :: u32
  con_color :: u8
  con_width :: u32
  con_height :: u32
  buffer_addr :: u32

type_synonym console_state = "ConsoleData \<times> 32 bytes"

definition CONSOLE_DEFAULT_COLOR :: u8 where "CONSOLE_DEFAULT_COLOR = 0x0F"
definition CONSOLE_ERROR_COLOR :: u8 where "CONSOLE_ERROR_COLOR = 0x4F"

definition console_write_char :: "console_state \<Rightarrow> u32 \<Rightarrow> u32 \<Rightarrow> char \<Rightarrow> u8 \<Rightarrow> console_state" where
  "console_write_char s x y c attribute = (case s of (d, m) \<Rightarrow>
     let pos = ((y * con_width d) + x) * 2
     in (d, m(buffer_addr d + pos := of_char c, buffer_addr d + (pos + 1) := attribute)))"

definition console_clear_column :: "console_state \<Rightarrow> nat \<Rightarrow> console_state" where
  "console_clear_column s x =
     foldl (\<lambda>s y. console_write_char s (of_nat x) (of_nat y) CHR '' '' CONSOLE_DEFAULT_COLOR) s
       [0..<unat (con_height (fst s))]"

definition console_clear :: "console_state \<Rightarrow> console_state" where
  "console_clear s = foldl console_clear_column s [0..<unat (con_width (fst s))]"

definition console_init :: "console_state \<Rightarrow> console_state" where
  "console_init s = console_clear
     (\<lparr>con_x = 0, con_y = 0, con_color = CONSOLE_DEFAULT_COLOR, con_width = 80, con_height = 25, buffer_addr = 0xB8000\<rparr>, snd s)"

definition console_scroll_cell :: "nat \<Rightarrow> console_state \<Rightarrow> nat \<Rightarrow> console_state" where
  "console_scroll_cell line s x = (case s of (d, m) \<Rightarrow>
     let src = 2 * (((of_nat line + 1) * con_width d) + of_nat x);
         dest = 2 * ((of_nat line * con_width d) + of_nat x);
         c = m (buffer_addr d + src);
         att = m (buffer_addr d + (src + 1))
     in (d, m(buffer_addr d + dest := c, buffer_addr d + (dest + 1) := att)))"

definition console_scroll_line :: "console_state \<Rightarrow> nat \<Rightarrow> console_state" where
  "console_scroll_line s line = foldl (console_scroll_cell line) s [0..<unat (con_width (fst s))]"

definition console_clear_cell :: "console_state \<Rightarrow> nat \<Rightarrow> console_state" where
  "console_clear_cell s x =
     console_write_char s (of_nat x) (con_height (fst s) - 1) CHR '' '' (con_color (fst s))"

definition console_scroll :: "console_state \<Rightarrow> console_state" where
  "console_scroll s =
     (let s = foldl console_scroll_line s [0..<unat (con_height (fst s) - 1)]
      in foldl console_clear_cell s [0..<unat (con_width (fst s))])"

definition console_set_color :: "console_state \<Rightarrow> u8 \<Rightarrow> console_state" where
  "console_set_color s attr = ((fst s)\<lparr>con_color := attr\<rparr>, snd s)"

definition console_newline :: "console_state \<Rightarrow> console_state" where
  "console_newline s =
     (let d = (fst s)\<lparr>con_y := con_y (fst s) + 1, con_x := 0\<rparr>
      in if con_y d \<ge> con_height d
         then console_scroll (d\<lparr>con_y := con_height d - 1\<rparr>, snd s)
         else (d, snd s))"

definition console_print_char :: "console_state \<Rightarrow> char \<Rightarrow> console_state" where
  "console_print_char s c =
     (if c = CHR 0x0A then console_newline s
      else
        let s = console_write_char s (con_x (fst s)) (con_y (fst s)) c (con_color (fst s));
            s = ((fst s)\<lparr>con_x := con_x (fst s) + 1\<rparr>, snd s)
        in if con_x (fst s) \<ge> con_width (fst s) then console_newline s else s)"

definition console_print_string :: "console_state \<Rightarrow> string \<Rightarrow> console_state" where
  "console_print_string s str = foldl console_print_char s str"

definition console_get_y :: "console_state \<Rightarrow> u32" where
  "console_get_y s = con_y (fst s)"

section \<open>The console as a terminal\<close>

definition con_ok :: "console_state \<Rightarrow> bool" where
  "con_ok s \<longleftrightarrow> con_width (fst s) = 80 \<and> con_height (fst s) = 25 \<and> con_x (fst s) < 80 \<and> con_y (fst s) < 25"

definition con_view :: "console_state \<Rightarrow> terminal" where
  "con_view s = \<lparr>grid = screen (snd s) (buffer_addr (fst s)), cursor_col = unat (con_x (fst s)),
     cursor_row = unat (con_y (fst s))\<rparr>"

text \<open>Scrolling fills the last row with spaces of the current colour.\<close>

definition con_wipe :: "u8 \<Rightarrow> cell \<Rightarrow> cell" where "con_wipe attr c = (of_char CHR '' '', attr)"

definition con_same :: "console_state \<Rightarrow> console_state \<Rightarrow> bool" where
  "con_same s s' \<longleftrightarrow> con_color (fst s') = con_color (fst s) \<and> buffer_addr (fst s') = buffer_addr (fst s) \<and>
     same_off_screen (buffer_addr (fst s)) (snd s) (snd s')"

lemma con_same_trans: "con_same s t \<Longrightarrow> con_same t u \<Longrightarrow> con_same s u"
  by (auto simp: con_same_def elim: same_off_screen_trans)

lemma con_same_refl [simp]: "con_same s s"
  by (simp add: con_same_def)

lemma console_write_char_put:
  assumes "con_width d = 80"
  shows "console_write_char (d, m) (of_nat x) (of_nat y) c a = (d, put_cell m (buffer_addr d) (y * 80 + x) (of_char c, a))"
  using assms by (simp add: console_write_char_def put_cell_def Let_def algebra_simps)

lemma console_scroll_cell_copy:
  assumes "con_width d = 80"
  shows "console_scroll_cell y (d, m) x = (d, copy_cell (buffer_addr d) y m x)"
  using assms by (simp add: console_scroll_cell_def copy_cell_def put_cell_def cell_at_def Let_def algebra_simps)

lemma console_scroll_line_copy:
  assumes "con_width d = 80"
  shows "console_scroll_line (d, m) y = (d, copy_row (buffer_addr d) m y)"
proof -
  have "foldl (console_scroll_cell y) (d, m) xs = (d, foldl (copy_cell (buffer_addr d) y) m xs)" for xs
    by (induction xs arbitrary: m) (simp_all add: console_scroll_cell_copy [OF assms])
  then show ?thesis using assms by (simp add: console_scroll_line_def copy_row_def)
qed

lemma console_scroll_screen:
  assumes "con_width d = 80" and "con_height d = 25"
  shows "console_scroll (d, m) =
    (d, foldl (wipe_cell (con_wipe (con_color d)) (buffer_addr d)) (foldl (copy_row (buffer_addr d)) m [0..<24]) [0..<80])"
proof -
  have rows: "foldl console_scroll_line (d, m) ys = (d, foldl (copy_row (buffer_addr d)) m ys)" for ys
    by (induction ys arbitrary: m) (simp_all add: console_scroll_line_copy [OF assms(1)])
  have "console_clear_cell (d, m) x = (d, wipe_cell (con_wipe (con_color d)) (buffer_addr d) m x)" for m x
    using console_write_char_put [OF assms(1), of m x 24] assms(2)
    by (simp add: console_clear_cell_def wipe_cell_def con_wipe_def)
  then have "foldl console_clear_cell (d, m) xs = (d, foldl (wipe_cell (con_wipe (con_color d)) (buffer_addr d)) m xs)" for m xs
    by (induction xs arbitrary: m) simp_all
  then show ?thesis using assms by (simp add: console_scroll_def rows Let_def del: upt_Suc)
qed

lemma console_newline_view:
  assumes "con_width d = 80" "con_height d = 25" "con_y d < 25" and s': "s' = console_newline (d, m)"
  shows "con_ok s' \<and> con_same (d, m) s' \<and> con_view s' = line_feed (con_wipe (con_color d)) 0
      \<lparr>grid = screen m (buffer_addr d), cursor_col = x, cursor_row = unat (con_y d)\<rparr>"
proof -
  have y: "unat (con_y d) < 25" using assms(3) by (simp add: word_less_nat_alt)
  then have y1: "unat (con_y d + 1) = unat (con_y d) + 1" by (intro trans [OF unat_add_lt]) auto
  show ?thesis
  proof (cases "unat (con_y d) < 24")
    case True
    then show ?thesis using assms(1,2) y1
      by (simp add: s' console_newline_def Let_def word_le_nat_alt con_ok_def con_view_def line_feed_def con_same_def word_less_nat_alt)
  next
    case False
    then have "unat (con_y d) = 24" using y by simp
    then show ?thesis using assms(1,2) y1
      by (simp add: s' console_newline_def Let_def word_le_nat_alt console_scroll_screen con_ok_def con_view_def
          line_feed_def con_same_def scroll_screen [OF _ refl] del: upt_Suc)
  qed
qed

lemma console_plain:
  assumes "con_ok s" and "c \<noteq> CHR 0x0A" and s': "s' = console_print_char s c"
  shows "con_ok s' \<and> con_same s s' \<and> con_view s' =
    type_cell (con_wipe (con_color (fst s))) 0 (of_char c, con_color (fst s)) (con_view s)"
proof -
  obtain d m where s: "s = (d, m)" by fastforce
  have ok: "con_width d = 80" "con_height d = 25" "con_y d < 25" "con_x d < 80" using assms(1) by (simp_all add: s con_ok_def)
  let ?m = "put_cell m (buffer_addr d) (unat (con_y d) * 80 + unat (con_x d)) (of_char c, con_color d)"
  let ?d = "d\<lparr>con_x := con_x d + 1\<rparr>"
  have nat: "unat (con_y d) < 25" "unat (con_x d) < 80" using ok by (simp_all add: word_less_nat_alt)
  then have x1: "unat (con_x d + 1) = unat (con_x d) + 1" by (intro trans [OF unat_add_lt]) auto
  have put: "s' = (if con_x d + 1 \<ge> 80 then console_newline (?d, ?m) else (?d, ?m))"
    using console_write_char_put [OF ok(1), of m "unat (con_x d)" "unat (con_y d)"] assms(2) ok(1)
    by (simp add: s' s console_print_char_def Let_def)
  have grid: "screen ?m (buffer_addr d) = set_cell (unat (con_y d)) (unat (con_x d)) (of_char c, con_color d) (screen m (buffer_addr d))"
    using screen_put [OF _ nat, where base = "buffer_addr d"] by simp
  have same: "con_same s (?d, ?m)"
    using put_cell_off_screen [of "unat (con_y d) * 80 + unat (con_x d)" "buffer_addr d" m] nat by (simp add: con_same_def s)
  show ?thesis
  proof (cases "unat (con_x d) < 79")
    case True
    then have "s' = (?d, ?m)" using x1 by (simp add: put word_le_nat_alt)
    then show ?thesis using True x1 ok same
      by (simp add: con_ok_def con_view_def type_cell_def Let_def grid s word_less_nat_alt)
  next
    case False
    then have "s' = console_newline (?d, ?m)" using x1 nat by (simp add: put word_le_nat_alt)
    from console_newline_view [OF _ _ _ this, of "unat (con_x d)"] ok same False nat show ?thesis
      by (auto simp: con_view_def type_cell_def Let_def grid s elim: con_same_trans)
  qed
qed

lemma console_line_feed:
  assumes "con_ok s" and s': "s' = console_print_char s CHR 0x0A"
  shows "con_ok s' \<and> con_same s s' \<and> con_view s' = line_feed (con_wipe (con_color (fst s))) 0 (con_view s)"
  using assms console_newline_view [of "fst s" s' "snd s" "unat (con_x (fst s))"]
  by (simp add: con_ok_def console_print_char_def con_view_def)

interpretation loader_console: console console_print_char con_ok con_view "\<lambda>_. 0" "\<lambda>s. con_color (fst s)"
  "\<lambda>s. con_wipe (con_color (fst s))" "\<lambda>_. True"
proof
  fix s c
  show "con_ok s \<Longrightarrow> screen_ok (con_view s)"
    by (auto simp: con_ok_def screen_ok_def con_view_def screen_shape word_less_nat_alt)
  show "con_ok s \<Longrightarrow> True \<Longrightarrow> c \<noteq> CHR 0x0A \<Longrightarrow> con_ok (console_print_char s c) \<and>
      con_view (console_print_char s c) = type_cell (con_wipe (con_color (fst s))) 0 (of_char c, con_color (fst s)) (con_view s) \<and>
      0 = 0 \<and> con_color (fst (console_print_char s c)) = con_color (fst s) \<and>
      con_wipe (con_color (fst (console_print_char s c))) = con_wipe (con_color (fst s))"
    using console_plain [OF _ _ refl, of s c] by (simp add: con_same_def)
  show "con_ok s \<Longrightarrow> con_ok (console_print_char s CHR 0x0A) \<and>
      con_view (console_print_char s CHR 0x0A) = line_feed (con_wipe (con_color (fst s))) 0 (con_view s) \<and>
      0 = 0 \<and> con_color (fst (console_print_char s CHR 0x0A)) = con_color (fst s) \<and>
      con_wipe (con_color (fst (console_print_char s CHR 0x0A))) = con_wipe (con_color (fst s))"
    using console_line_feed [OF _ refl, of s] by (simp add: con_same_def)
qed

section \<open>Clearing\<close>

lemma put_cells_same:
  assumes "\<forall>k \<in> set ks. k < 2000" and "m' = foldl (\<lambda>m k. put_cell m (base :: u32) k c) m ks"
  shows "(\<forall>j < 2000. cell_at m' base j = (if j \<in> set ks then c else cell_at m base j)) \<and> same_off_screen base m m'"
  using assms
proof (induction ks arbitrary: m m' rule: rev_induct)
  case (snoc k ks)
  let ?m = "foldl (\<lambda>m k. put_cell m base k c) m ks"
  have k: "k < 2000" using snoc.prems(1) by simp
  note IH = snoc.IH [OF _ refl, of m]
  have "same_off_screen base ?m (put_cell ?m base k c)"
    by (rule put_cell_off_screen [OF _ k]) simp
  then have "same_off_screen base m (put_cell ?m base k c)"
    using IH snoc.prems(1) same_off_screen_trans by auto
  then show ?case using IH snoc.prems cell_at_put [OF _ k, of _ ?m base c] by auto
qed simp

text \<open>The cells in the order in which \<open>console_clear\<close> writes them, column by column.\<close>

definition clear_order :: "nat list" where
  "clear_order = concat (map (\<lambda>x. map (\<lambda>y. y * 80 + x) [0..<25]) [0..<80])"

lemma clear_order_set: "set clear_order = {..<2000}"
proof -
  have cells: "set (concat (map (\<lambda>x. map (\<lambda>y. y * 80 + x) [0..<h]) [0..<w])) = {k. \<exists>x y. k = y * 80 + x \<and> x < w \<and> y < h}" for w h
    by (auto; blast)
  have "(\<exists>x y. k = y * 80 + x \<and> x < 80 \<and> y < 25) \<longleftrightarrow> k < 2000" for k :: nat
  proof
    assume "k < 2000"
    then have "k = k div 80 * 80 + k mod 80" "k mod 80 < 80" "k div 80 < 25" by auto
    then show "\<exists>x y. k = y * 80 + x \<and> x < 80 \<and> y < 25" by blast
  qed auto
  then show ?thesis unfolding clear_order_def cells by blast
qed

lemma console_clear_cells:
  assumes "con_width d = 80" and "con_height d = 25"
  shows "console_clear (d, m) =
    (d, foldl (\<lambda>m k. put_cell m (buffer_addr d) k (of_char CHR '' '', CONSOLE_DEFAULT_COLOR)) m clear_order)"
proof -
  let ?put = "\<lambda>m k. put_cell m (buffer_addr d) k (of_char CHR '' '', CONSOLE_DEFAULT_COLOR)"
  have "foldl (\<lambda>s y. console_write_char s (of_nat x) (of_nat y) CHR '' '' CONSOLE_DEFAULT_COLOR) (d, m) ys =
      (d, foldl ?put m (map (\<lambda>y. y * 80 + x) ys))" for m x ys
    by (induction ys arbitrary: m) (simp_all add: console_write_char_put [OF assms(1)])
  then have column: "console_clear_column (d, m) x = (d, foldl ?put m (map (\<lambda>y. y * 80 + x) [0..<25]))" for m x
    using assms(2) by (simp add: console_clear_column_def del: upt_Suc)
  have "foldl console_clear_column (d, m) xs = (d, foldl ?put m (concat (map (\<lambda>x. map (\<lambda>y. y * 80 + x) [0..<25]) xs)))" for m xs
    by (induction xs arbitrary: m) (simp_all add: column del: upt_Suc)
  then show ?thesis using assms(1) by (simp add: console_clear_def clear_order_def del: upt_Suc)
qed

definition blank_terminal :: terminal where
  "blank_terminal = \<lparr>grid = replicate 25 (replicate 80 (of_char CHR '' '', CONSOLE_DEFAULT_COLOR)), cursor_col = 0, cursor_row = 0\<rparr>"

lemma console_init_blank:
  "con_ok (console_init s) \<and> con_view (console_init s) = blank_terminal \<and> con_color (fst (console_init s)) = CONSOLE_DEFAULT_COLOR \<and>
   buffer_addr (fst (console_init s)) = 0xB8000 \<and> same_off_screen 0xB8000 (snd s) (snd (console_init s))"
proof -
  let ?d = "\<lparr>con_x = 0, con_y = 0, con_color = CONSOLE_DEFAULT_COLOR, con_width = 80, con_height = 25, buffer_addr = 0xB8000\<rparr>"
  define m where "m = foldl (\<lambda>m k. put_cell m 0xB8000 k (of_char CHR '' '', CONSOLE_DEFAULT_COLOR)) (snd s) clear_order"
  have init: "console_init s = (?d, m)" using console_clear_cells [of ?d "snd s"] by (simp add: console_init_def m_def)
  note cells = put_cells_same [OF _ m_def, unfolded clear_order_set, simplified]
  have "screen m 0xB8000 = replicate 25 (replicate 80 (of_char CHR '' '', CONSOLE_DEFAULT_COLOR))"
    by (rule screen_eqI) (use cells in auto)
  then show ?thesis using cells by (simp add: init con_ok_def con_view_def blank_terminal_def)
qed

section \<open>Properties\<close>

text \<open>The terminal's meaning of a character.\<close>

definition con_terminal :: "u8 \<Rightarrow> terminal \<Rightarrow> char \<Rightarrow> terminal" where
  "con_terminal attr t c =
     (if c = CHR 0x0A then line_feed (con_wipe attr) 0 t else type_cell (con_wipe attr) 0 (of_char c, attr) t)"

lemma console_string:
  assumes "con_ok s"
  shows "con_ok (console_print_string s str) \<and> con_same s (console_print_string s str) \<and>
    con_view (console_print_string s str) = foldl (con_terminal (con_color (fst s))) (con_view s) str"
  using assms
proof (induction str arbitrary: s)
  case (Cons c str)
  let ?t = "console_print_char s c"
  have put: "con_ok ?t" "con_same s ?t" "con_view ?t = con_terminal (con_color (fst s)) (con_view s) c"
    using console_line_feed [OF Cons.prems refl] console_plain [OF Cons.prems _ refl, of c] by (auto simp: con_terminal_def)
  have "con_color (fst ?t) = con_color (fst s)" using put(2) by (simp add: con_same_def)
  then show ?case using Cons.IH [OF put(1)] put con_same_trans [OF put(2)]
    by (simp add: console_print_string_def)
qed (simp add: console_print_string_def)

text \<open>C40. The loader's console, from its initialisation on, implements the terminal for every string: the
  screen starts blank, the text wraps at column 80, a line feed in the last row moves every row up by
  one and fills the last with spaces; the cursor stays on the screen, and of the memory only the 4000
  bytes of the text buffer change.\<close>

theorem loader_console_refines_terminal:
  "let s' = console_print_string (console_init s) str
   in con_ok s' \<and> con_view s' = foldl (con_terminal CONSOLE_DEFAULT_COLOR) blank_terminal str \<and>
      console_get_y s' = of_nat (cursor_row (con_view s')) \<and> same_off_screen 0xB8000 (snd s) (snd s')"
proof -
  note init = console_init_blank [of s]
  note run = console_string [OF conjunct1 [OF init], of str]
  then show ?thesis using init same_off_screen_trans
    by (auto simp: Let_def con_same_def console_get_y_def con_view_def)
qed

end
