(* ===== verification/Loader_State.thy ===== *)
theory Loader_State
  imports Loader_Console Libc_Printf
begin

text \<open>
  The state of the loader, src/awd: its global variables and the physical memory, and what it prints:
  console/logging.c, panic.c, version.c and requirements.c.  A call of \<open>awd_halt\<close> does not return; it
  is the outcome \<open>Halted\<close>, with the state the machine is left in.
\<close>

section \<open>The state\<close>

record mem_region =
  r_start :: u64
  r_end :: u64

record mem_info =
  region_low_memory :: mem_region
  region_awd_image :: mem_region
  region_multiboot_files :: mem_region
  region_awd_malloc :: mem_region
  region_kernel_image :: mem_region

record awd_mapped_region =
  phys_start :: u64
  phys_end :: u64
  virt_start :: u64
  virt_end :: u64
  map_attribute :: u8

text \<open>The globals: \<open>amem\<close> is the physical memory, the conversion buffers are those of the two number
  printers, \<open>paging_cr3\<close> is the table that \<open>paging_enable\<close> loaded.\<close>

record loader =
  amem :: "32 bytes"
  console_data :: ConsoleData
  number_buffers :: "char list \<times> char list"
  heap_phys_base :: u64
  heap_phys_current :: u64
  heap_phys_limit :: u64
  alloc_enabled :: bool
  mem :: mem_info
  paging_queue_num :: u32
  paging_queue :: "awd_mapped_region list"
  paging_cr3 :: "u32 option"

text \<open>Besides halting: a format error, a read of a string that has no end, a store past the queue, a loop
  that does not end.\<close>

datatype awd_stop = Halted loader | Bad_format printf_error | Unterminated_string | Queue_overrun | Endless

section \<open>Printing\<close>

definition con :: "loader \<Rightarrow> console_state" where
  "con st = (console_data st, amem st)"

definition put_con :: "loader \<Rightarrow> console_state \<Rightarrow> loader" where
  "put_con st c = st\<lparr>console_data := fst c, amem := snd c\<rparr>"

text \<open>\<open>vprintf\<close> prints character by character through \<open>console_print_char\<close>.\<close>

definition log_color :: "u8 \<Rightarrow> loader \<Rightarrow> string \<Rightarrow> awd_arg list \<Rightarrow> awd_stop + loader" where
  "log_color color st fmt arg =
     (let st = put_con st (console_set_color (con st) color) in
      case awd_vprintf (number_buffers st) (fmt @ [NUL]) arg of
        Inl e \<Rightarrow> Inl (Bad_format e)
      | Inr p \<Rightarrow> Inr (put_con (st\<lparr>number_buffers := bufs p\<rparr>) (console_print_string (con st) (out p))))"

definition log_info :: "loader \<Rightarrow> string \<Rightarrow> awd_arg list \<Rightarrow> awd_stop + loader" where
  "log_info st fmt arg = log_color CONSOLE_DEFAULT_COLOR st fmt arg"

definition log_notice :: "loader \<Rightarrow> string \<Rightarrow> awd_arg list \<Rightarrow> awd_stop + loader" where
  "log_notice st fmt arg = log_color CONSOLE_DEFAULT_COLOR st fmt arg"

definition log_error :: "loader \<Rightarrow> string \<Rightarrow> awd_arg list \<Rightarrow> awd_stop + loader" where
  "log_error st fmt arg = log_color CONSOLE_ERROR_COLOR st fmt arg"

definition awd_panic :: "loader \<Rightarrow> string \<Rightarrow> awd_arg list \<Rightarrow> awd_stop + 'a" where
  "awd_panic st fmt arg = bind_r (log_color CONSOLE_ERROR_COLOR st fmt arg) (\<lambda>st. Inl (Halted st))"

definition newline :: string where "newline = [CHR 0x0A]"

definition awd_version_display :: "loader \<Rightarrow> awd_stop + loader" where
  "awd_version_display st = log_notice st (''African Wild Dog Loader (version 0.0.1.0)'' @ newline) []"

text \<open>The two checks are assembly routines; their results are parameters.\<close>

definition awd_cpu_requirements :: "int \<Rightarrow> int \<Rightarrow> loader \<Rightarrow> awd_stop + loader" where
  "awd_cpu_requirements check_cpuid check_longmode st =
     bind_r (if check_cpuid = 0
             then bind_r (log_error st ''CPU does not support CPUID. Unable to boot...'' []) (\<lambda>st. Inl (Halted st))
             else Inr st) (\<lambda>st.
     if check_longmode = 0
     then bind_r (log_error st ''CPU does not support longmode. Unable to boot...'' []) (\<lambda>st. Inl (Halted st))
     else Inr st)"

text \<open>A 64-bit argument takes two slots; a string argument is read from memory up to its terminator.\<close>

definition arg64 :: "u64 \<Rightarrow> awd_arg list" where
  "arg64 v = [Slot (ucast v), Slot (ucast (drop_bit 32 v))]"

definition string_at :: "32 bytes \<Rightarrow> u32 \<Rightarrow> awd_stop + string" where
  "string_at m p = (case awd_strlen m p of
     None \<Rightarrow> Inl Unterminated_string
   | Some n \<Rightarrow> Inr (map (\<lambda>i. char_of (unat (m (p + of_nat i)))) [0..<unat n]))"

section \<open>What printing does to the state\<close>

text \<open>The console as \<open>console_init\<close> leaves it, and buffers of the declared sizes.\<close>

definition text_ok :: "loader \<Rightarrow> bool" where
  "text_ok st \<longleftrightarrow> con_ok (con st) \<and> buffer_addr (console_data st) = 0xB8000 \<and>
     length (fst (number_buffers st)) = 33 \<and> length (snd (number_buffers st)) = 65"

text \<open>Printing changes the console, the conversion buffers and the text buffer, nothing else.\<close>

definition same_but_screen :: "loader \<Rightarrow> loader \<Rightarrow> bool" where
  "same_but_screen st st' \<longleftrightarrow> same_off_screen 0xB8000 (amem st) (amem st') \<and>
     st' = st\<lparr>amem := amem st', console_data := console_data st', number_buffers := number_buffers st'\<rparr>"

lemma same_but_screen_fields:
  assumes "same_but_screen st st'"
  shows "heap_phys_base st' = heap_phys_base st" "heap_phys_current st' = heap_phys_current st"
    "heap_phys_limit st' = heap_phys_limit st" "alloc_enabled st' = alloc_enabled st" "mem st' = mem st"
    "paging_queue_num st' = paging_queue_num st" "paging_queue st' = paging_queue st" "paging_cr3 st' = paging_cr3 st"
    "\<And>x. \<not> in_range x 0xB8000 4000 \<Longrightarrow> amem st' x = amem st x"
proof -
  have e: "st' = st\<lparr>amem := amem st', console_data := console_data st', number_buffers := number_buffers st'\<rparr>"
    using assms by (simp add: same_but_screen_def)
  show "heap_phys_base st' = heap_phys_base st" "heap_phys_current st' = heap_phys_current st"
    "heap_phys_limit st' = heap_phys_limit st" "alloc_enabled st' = alloc_enabled st" "mem st' = mem st"
    "paging_queue_num st' = paging_queue_num st" "paging_queue st' = paging_queue st" "paging_cr3 st' = paging_cr3 st"
    by (subst e, simp)+
  show "\<And>x. \<not> in_range x 0xB8000 4000 \<Longrightarrow> amem st' x = amem st x"
    using assms by (simp add: same_but_screen_def same_off_screen_def)
qed

lemma same_but_screen_refl [simp]: "same_but_screen st st"
  by (simp add: same_but_screen_def)

lemma same_but_screen_trans:
  assumes "same_but_screen a b" and "same_but_screen b c"
  shows "same_but_screen a c"
proof -
  have "b = a\<lparr>amem := amem b, console_data := console_data b, number_buffers := number_buffers b\<rparr>"
    "c = b\<lparr>amem := amem c, console_data := console_data c, number_buffers := number_buffers c\<rparr>"
    using assms by (simp_all add: same_but_screen_def)
  then have "c = a\<lparr>amem := amem c, console_data := console_data c, number_buffers := number_buffers c\<rparr>"
    by (cases a; cases b; cases c) simp
  moreover have "same_off_screen 0xB8000 (amem a) (amem c)"
    using assms by (auto simp: same_but_screen_def elim: same_off_screen_trans)
  ultimately show ?thesis by (simp add: same_but_screen_def)
qed

lemma put_con_simps [simp]:
  "con (put_con st c) = c" "number_buffers (put_con st c) = number_buffers st"
  by (simp_all add: con_def put_con_def)

text \<open>Every format that is written by items prints.\<close>

lemma log_color_prints:
  assumes "text_ok st" and "\<forall>it \<in> set its. item_ok it" and "fmt = items_format its"
    and "arg = concat (map awd_printf.item_args its) @ as"
  shows "\<exists>st'. log_color color st fmt arg = Inr st' \<and> text_ok st' \<and> same_but_screen st st' \<and>
    con_view (con st') = foldl (con_terminal color) (con_view (con st)) (items_text its)"
proof -
  let ?c = "console_set_color (con st) color"
  have ok: "con_ok ?c" "con_view ?c = con_view (con st)" "con_color (fst ?c) = color" "buffer_addr (fst ?c) = 0xB8000"
    "snd ?c = amem st"
    using assms(1) by (simp_all add: text_ok_def con_ok_def console_set_color_def con_view_def con_def)
  from awd_printf.loop_items [OF assms(2), of "\<lparr>args = arg, bufs = number_buffers st, out = []\<rparr>" as "[]"]
  obtain b where b: "awd_vprintf (number_buffers st) (items_format its @ [NUL]) arg =
      Inr \<lparr>args = as, bufs = b, out = items_text its\<rparr>" "length (fst b) = 33" "length (snd b) = 65"
    using assms(1,4) by (auto simp: text_ok_def awd_vprintf_def)
  let ?c' = "console_print_string ?c (items_text its)"
  note run = console_string [OF ok(1), of "items_text its"]
  have "log_color color st fmt arg = Inr (put_con (put_con st ?c\<lparr>number_buffers := b\<rparr>) ?c')"
    using b(1) by (simp add: log_color_def assms(3) Let_def)
  moreover have "text_ok (put_con (put_con st ?c\<lparr>number_buffers := b\<rparr>) ?c')"
    using run b(2,3) ok by (simp add: text_ok_def con_same_def) (simp add: put_con_def)
  moreover have "same_but_screen st (put_con (put_con st ?c\<lparr>number_buffers := b\<rparr>) ?c')"
    using run ok by (cases st) (simp add: same_but_screen_def con_same_def put_con_def)
  ultimately show ?thesis using run ok by auto
qed

lemma items_format_append [simp]: "items_format (xs @ ys) = items_format xs @ items_format ys"
  by (simp add: items_format_def)

lemma items_format_Lit [simp]: "items_format (map Lit s) = s"
  by (induction s) (simp_all add: items_format_def)

lemma items_format_Cons [simp]: "items_format [] = []" "items_format (it # its) = item_format it @ items_format its"
  by (simp_all add: items_format_def)

text \<open>The widths that the loader's formats use.\<close>

lemma width_formats [simp]:
  "width_format l z 0 = (if l then ''-'' else []) @ (if z then ''0'' else [])"
  "width_format l z 2 = (if l then ''-'' else []) @ (if z then ''0'' else []) @ ''2''"
  "width_format l z 16 = (if l then ''-'' else []) @ (if z then ''0'' else []) @ ''16''"
  "width_format l z 19 = (if l then ''-'' else []) @ (if z then ''0'' else []) @ ''19''"
proof -
  have "digits 10 2 = [2]" "digits 10 16 = [1, 6]" "digits 10 19 = [1, 9]" by (simp_all add: digits.simps [of 10])
  then have "numeral_string 10 2 = ''2''" "numeral_string 10 16 = ''16''" "numeral_string 10 19 = ''19''"
    by (simp_all add: numeral_string_def lut_def)
  then show
    "width_format l z 0 = (if l then ''-'' else []) @ (if z then ''0'' else [])"
    "width_format l z 2 = (if l then ''-'' else []) @ (if z then ''0'' else []) @ ''2''"
    "width_format l z 16 = (if l then ''-'' else []) @ (if z then ''0'' else []) @ ''16''"
    "width_format l z 19 = (if l then ''-'' else []) @ (if z then ''0'' else []) @ ''19''"
    by (simp_all add: width_format_def)
qed

lemma item_args_Lit [simp]: "concat (map awd_printf.item_args (map Lit s)) = []"
  by (induction s) simp_all

text \<open>A text without percent signs.\<close>

lemma log_color_text:
  assumes "text_ok st" and "\<forall>c \<in> set fmt. c \<noteq> NUL \<and> c \<noteq> CHR ''%''"
  shows "\<exists>st'. log_color color st fmt [] = Inr st' \<and> text_ok st' \<and> same_but_screen st st'"
  using log_color_prints [OF assms(1), of "map Lit fmt" fmt "[]" "[]" color] assms(2) by auto

end
