(* ===== verification/Loader_Heap.thy ===== *)
theory Loader_Heap
  imports Loader_State Kheap
begin

text \<open>
  The loader's allocator and its table of memory regions, src/awd/memory/alloc.c and memory.c.
  Addresses are kept in 64 bits, a pointer is the low half; the linker's symbols are parameters.
\<close>

section \<open>The code\<close>

definition AWD_ALLOC_SIZE :: u64 where "AWD_ALLOC_SIZE = 64 * 0x1000"
definition AWD_ALLOC_MIN_ALIGNMENT :: u32 where "AWD_ALLOC_MIN_ALIGNMENT = 8"

definition PAGE_ROUND_UP :: "u64 \<Rightarrow> u64" where
  "PAGE_ROUND_UP x = (x + 0x1000 - 1) AND NOT (0x1000 - 1)"

definition alloc_init :: "loader \<Rightarrow> u64 \<Rightarrow> loader" where
  "alloc_init st phys_base = st\<lparr>heap_phys_base := phys_base, heap_phys_current := phys_base,
     heap_phys_limit := phys_base + AWD_ALLOC_SIZE, alloc_enabled := True\<rparr>"

definition alloc_finalize :: "loader \<Rightarrow> loader" where
  "alloc_finalize st = st\<lparr>alloc_enabled := False\<rparr>"

definition alloc_get_current :: "loader \<Rightarrow> u64" where "alloc_get_current st = heap_phys_current st"
definition alloc_get_limit :: "loader \<Rightarrow> u64" where "alloc_get_limit st = heap_phys_limit st"

definition align_current :: "u64 \<Rightarrow> u64 \<Rightarrow> u64" where
  "align_current cur al = (if cur mod al \<noteq> 0 then cur + (al - cur mod al) else cur)"

definition malloc_aligned :: "loader \<Rightarrow> u32 \<Rightarrow> u32 \<Rightarrow> awd_stop + (u32 \<times> loader)" where
  "malloc_aligned st sz al =
     bind_r (if \<not> alloc_enabled st
             then awd_panic st (''malloc: Allocation not enabled! (sz: 0x%x, align: 0x%x)'' @ newline) [Slot sz, Slot al]
             else Inr st) (\<lambda>st.
     let al = (if al \<ge> AWD_ALLOC_MIN_ALIGNMENT then al else AWD_ALLOC_MIN_ALIGNMENT);
         st = st\<lparr>heap_phys_current := align_current (heap_phys_current st) (ucast al)\<rparr>
     in if heap_phys_current st + ucast sz \<ge> heap_phys_limit st
        then awd_panic st (''malloc: Allocation hit limit (sz: 0x%x, align: 0x%x)'' @ newline) [Slot sz, Slot al]
        else Inr (ucast (heap_phys_current st), st\<lparr>heap_phys_current := heap_phys_current st + ucast sz\<rparr>))"

definition malloc :: "loader \<Rightarrow> u32 \<Rightarrow> awd_stop + (u32 \<times> loader)" where
  "malloc st sz = malloc_aligned st sz 0"

definition memory_init :: "u64 \<Rightarrow> u64 \<Rightarrow> loader \<Rightarrow> loader" where
  "memory_init awd_phys_start awd_phys_end st = st\<lparr>mem := (mem st)\<lparr>
     region_low_memory := \<lparr>r_start = 0x0, r_end = 0x100000 - 1\<rparr>,
     region_awd_image := \<lparr>r_start = awd_phys_start, r_end = PAGE_ROUND_UP awd_phys_end - 1\<rparr>\<rparr>\<rparr>"

definition memory_heap_init :: "loader \<Rightarrow> u64 \<Rightarrow> loader" where
  "memory_heap_init st heap_base = alloc_init
     (st\<lparr>mem := (mem st)\<lparr>region_awd_malloc := \<lparr>r_start = heap_base, r_end = heap_base + AWD_ALLOC_SIZE - 1\<rparr>\<rparr>\<rparr>) heap_base"

definition region_print :: "loader \<Rightarrow> string \<Rightarrow> mem_region \<Rightarrow> awd_stop + loader" where
  "region_print st name region =
     log_info st ('' * %19s : %016p -> %016p'' @ newline) (StrSlot name # arg64 (r_start region) @ arg64 (r_end region))"

definition memory_regions_print :: "loader \<Rightarrow> awd_stop + loader" where
  "memory_regions_print st =
     bind_r (log_info st (''mem: Printing current memory regions'' @ newline) []) (\<lambda>st.
     bind_r (log_info st (''   %19s : %-16s    %-16s'' @ newline) [StrSlot ''Region Name'', StrSlot ''Start'', StrSlot ''End'']) (\<lambda>st.
     bind_r (region_print st ''Low Memory'' (region_low_memory (mem st))) (\<lambda>st.
     bind_r (region_print st ''AWD Memory Image'' (region_awd_image (mem st))) (\<lambda>st.
     bind_r (region_print st ''Multiboot Modules'' (region_multiboot_files (mem st))) (\<lambda>st.
     bind_r (region_print st ''AWD Alloc'' (region_awd_malloc (mem st))) (\<lambda>st.
     bind_r (region_print st ''Kernel Memory Image'' (region_kernel_image (mem st))) (\<lambda>st.
     let kb_taken = (r_end (region_awd_malloc (mem st)) - r_start (region_awd_image (mem st))) div 1024
     in log_info st ('' * Memory regions are tracking %d kb of high memory.'' @ newline) (arg64 kb_taken))))))))"

section \<open>Rounding\<close>

lemma and_not_mask_unat:
  fixes w :: "'a::len word"
  assumes "n < LENGTH('a)"
  shows "unat (w AND NOT (mask n)) = unat w div 2 ^ n * 2 ^ n"
proof -
  have "w AND NOT (mask n) = push_bit n (drop_bit n w)"
    by (rule bit_word_eqI) (auto simp: bit_simps)
  also have "\<dots> = w - take_bit n w" using bits_ident [of n w] by (simp add: eq_diff_eq)
  also have "unat \<dots> = unat w - unat w mod 2 ^ n"
  proof -
    have "unat (take_bit n w) = unat w mod 2 ^ n" by (simp add: unsigned_take_bit_eq flip: take_bit_eq_mod)
    then show ?thesis by (subst unat_sub_le) simp_all
  qed
  finally show ?thesis by (simp add: minus_mod_eq_div_mult)
qed

lemma PAGE_ROUND_UP_unat:
  assumes "unat x + 4095 < 2 ^ 64"
  shows "unat (PAGE_ROUND_UP x) = (unat x + 4095) div 4096 * 4096"
proof -
  have m: "NOT (0x1000 - 1 :: u64) = NOT (mask 12)" by (simp add: mask_eq_exp_minus_1)
  have e: "x + 0x1000 - 1 = 4095 + x" by simp
  have "unat (4095 + x) = unat x + 4095" using assms by (intro trans [OF unat_add_lt]) simp_all
  then show ?thesis unfolding PAGE_ROUND_UP_def m e by (subst and_not_mask_unat) simp_all
qed

section \<open>Allocation\<close>

lemma awd_panic_no_result [simp]: "awd_panic st f as \<noteq> Inr r" "Inr r \<noteq> awd_panic st f as"
  by (cases "log_color CONSOLE_ERROR_COLOR st f as"; simp add: awd_panic_def)+

abbreviation loader_cursor :: "loader \<Rightarrow> nat" where "loader_cursor st \<equiv> unat (heap_phys_current st)"
abbreviation loader_limit :: "loader \<Rightarrow> nat" where "loader_limit st \<equiv> unat (heap_phys_limit st)"

definition effective_alignment :: "u32 \<Rightarrow> nat" where
  "effective_alignment al = max (unat al) 8"

lemma align_current_unat:
  assumes "unat cur \<le> 2 ^ 32" and "al \<noteq> (0 :: u32)"
  shows "unat al dvd unat (align_current cur (ucast al))" "unat cur \<le> unat (align_current cur (ucast al))"
    "unat (align_current cur (ucast al)) < unat cur + unat al"
proof -
  have "unat (ucast al :: u64) = unat al" by (rule unat_ucast_up) simp
  moreover have "(ucast al :: u64) \<noteq> 0" using assms(2) by (metis calculation unat_0 unat_eq_zero)
  moreover have "unat al < 2 ^ 32" using unat_lt_power [of al] by simp
  moreover have "align_current cur (ucast al) = align_base cur (ucast al)" by (simp add: align_current_def align_base_def)
  ultimately show "unat al dvd unat (align_current cur (ucast al))" "unat cur \<le> unat (align_current cur (ucast al))"
    "unat (align_current cur (ucast al)) < unat cur + unat al"
    using align_base_unat [of "ucast al" cur] assms(1) by simp_all
qed

text \<open>What a call does on a heap below 4 GiB, decided by the aligned cursor and the size.\<close>

lemma malloc_aligned_block:
  assumes "alloc_enabled st" and "loader_cursor st \<le> loader_limit st" and "loader_limit st \<le> 2 ^ 32"
  obtains b where "effective_alignment al dvd b" "loader_cursor st \<le> b" "b < loader_cursor st + effective_alignment al"
    "b + unat sz < loader_limit st \<Longrightarrow> malloc_aligned st sz al = Inr (of_nat b, st\<lparr>heap_phys_current := of_nat (b + unat sz)\<rparr>)"
    "loader_limit st \<le> b + unat sz \<Longrightarrow> malloc_aligned st sz al = awd_panic (st\<lparr>heap_phys_current := of_nat b\<rparr>)
       (''malloc: Allocation hit limit (sz: 0x%x, align: 0x%x)'' @ newline) [Slot sz, Slot (of_nat (effective_alignment al))]"
proof -
  define a where "a = (if al \<ge> AWD_ALLOC_MIN_ALIGNMENT then al else AWD_ALLOC_MIN_ALIGNMENT)"
  define c where "c = align_current (heap_phys_current st) (ucast a)"
  have a: "unat a = effective_alignment al" "a \<noteq> 0"
    by (auto simp: a_def AWD_ALLOC_MIN_ALIGNMENT_def effective_alignment_def word_le_nat_alt max_def unat_eq_zero [symmetric])
  have "loader_cursor st \<le> 2 ^ 32" using assms(2,3) by linarith
  note al = align_current_unat [OF this a(2), folded c_def, unfolded a(1)]
  have "effective_alignment al < 2 ^ 32" using unat_lt_power [of a] a(1) by simp
  then have small: "unat c < 2 ^ 33" using al(3) \<open>loader_cursor st \<le> 2 ^ 32\<close> by simp
  have sz: "unat (ucast sz :: u64) = unat sz" "unat sz < 2 ^ 32"
    using unat_ucast_up [of sz, where 'b = 64] unat_lt_power [of sz] by simp_all
  then have sum: "unat (c + ucast sz) = unat c + unat sz" using small by (intro trans [OF unat_add_lt]) auto
  have c: "c + ucast sz = of_nat (unat c + unat sz)" by (simp flip: sum)
  have run: "malloc_aligned st sz al = (if heap_phys_limit st \<le> c + ucast sz
      then awd_panic (st\<lparr>heap_phys_current := c\<rparr>) (''malloc: Allocation hit limit (sz: 0x%x, align: 0x%x)'' @ newline) [Slot sz, Slot a]
      else Inr (ucast c, st\<lparr>heap_phys_current := c + ucast sz\<rparr>))"
    using assms(1) by (simp add: malloc_aligned_def Let_def a_def [symmetric] c_def [symmetric])
  show thesis
  proof (rule that [of "unat c"])
    have "of_nat (effective_alignment al) = a" by (simp flip: a(1))
    then show "malloc_aligned st sz al = awd_panic (st\<lparr>heap_phys_current := of_nat (unat c)\<rparr>)
       (''malloc: Allocation hit limit (sz: 0x%x, align: 0x%x)'' @ newline) [Slot sz, Slot (of_nat (effective_alignment al))]"
      if "loader_limit st \<le> unat c + unat sz"
      using that sum by (simp add: run word_le_nat_alt)
    show "malloc_aligned st sz al = Inr (of_nat (unat c), st\<lparr>heap_phys_current := of_nat (unat c + unat sz)\<rparr>)"
      if "unat c + unat sz < loader_limit st"
      using that sum unfolding c [symmetric] by (simp add: run word_le_nat_alt word_unat_eq_iff unat_ucast_mod)
  qed (use al in simp_all)
qed

lemma malloc_page:
  assumes "alloc_enabled st" and "loader_limit st \<le> 2 ^ 32" and "loader_cursor st + unat sz + 4096 \<le> loader_limit st"
  shows "\<exists>b. 4096 dvd b \<and> loader_cursor st \<le> b \<and> b < loader_cursor st + 4096 \<and>
    malloc_aligned st sz 0x1000 = Inr (of_nat b, st\<lparr>heap_phys_current := of_nat (b + unat sz)\<rparr>)"
proof -
  have "loader_cursor st \<le> loader_limit st" using assms(3) by simp
  from malloc_aligned_block [OF assms(1) this assms(2), of "0x1000" sz] obtain b where
    b: "4096 dvd b" "loader_cursor st \<le> b" "b < loader_cursor st + 4096"
      "b + unat sz < loader_limit st \<Longrightarrow> malloc_aligned st sz 0x1000 = Inr (of_nat b, st\<lparr>heap_phys_current := of_nat (b + unat sz)\<rparr>)"
    by (auto simp: effective_alignment_def)
  then show ?thesis using assms(3) by (intro exI [of _ b]) simp
qed

lemma malloc_aligned_same:
  assumes "malloc_aligned st sz al = Inr (b, t)"
  shows "\<exists>c. t = st\<lparr>heap_phys_current := c\<rparr>" "alloc_enabled st"
  using assms by (auto simp: malloc_aligned_def awd_panic_def bind_r_eq_Inr Let_def split: if_splits)

definition malloc_req :: "loader \<Rightarrow> u32 \<times> u32 \<Rightarrow> awd_stop + (nat \<times> loader)" where
  "malloc_req st r = bind_r (malloc_aligned st (fst r) (snd r)) (\<lambda>(b, t). Inr (unat b, t))"

interpretation loader_malloc: bump_allocator malloc_req loader_cursor loader_limit
  "\<lambda>r. unat (fst r)" "\<lambda>r. effective_alignment (snd r)" "\<lambda>lim r. lim \<le> 2 ^ 32"
proof
  fix s t :: loader and r b
  assume *: "loader_cursor s \<le> loader_limit s" "loader_limit s \<le> 2 ^ 32" and run: "malloc_req s r = Inr (b, t)"
  obtain sz al where r: "r = (sz, al)" by fastforce
  from run obtain p where p: "malloc_aligned s sz al = Inr (p, t)" "b = unat p" by (auto simp: malloc_req_def r bind_r_eq_Inr)
  from malloc_aligned_same [OF p(1)] have "alloc_enabled s" by blast
  from malloc_aligned_block [OF this *, of al sz] obtain c where c: "effective_alignment al dvd c" "loader_cursor s \<le> c"
    "c + unat sz < loader_limit s \<Longrightarrow> malloc_aligned s sz al = Inr (of_nat c, s\<lparr>heap_phys_current := of_nat (c + unat sz)\<rparr>)"
    "loader_limit s \<le> c + unat sz \<Longrightarrow> \<exists>s' f as. malloc_aligned s sz al = awd_panic s' f as"
    by metis
  have lt: "c + unat sz < loader_limit s"
    using c(4) p(1) by (cases "c + unat sz < loader_limit s") auto
  then have u: "unat (of_nat (c + unat sz) :: u64) = c + unat sz" using *(2) by (subst unat_of_nat) simp
  have "b = c" "t = s\<lparr>heap_phys_current := of_nat (c + unat sz)\<rparr>"
    using c(3) [OF lt] p *(2) lt by (auto simp: unat_of_nat)
  then show "loader_cursor s \<le> b \<and> effective_alignment (snd r) dvd b \<and> b + unat (fst r) = loader_cursor t \<and>
      loader_cursor t \<le> loader_limit s \<and> loader_limit t = loader_limit s"
    using c(1,2) lt u by (simp add: r del: of_nat_add)
qed

section \<open>Properties\<close>

text \<open>The blocks of any sequence of \<open>malloc_aligned\<close> calls of the loader that succeeds are aligned as
  asked, to eight at least, lie between the heap's current end and its limit, which a block never
  reaches, and do not overlap; the heap has to lie below 4 GiB, where its pointers do.\<close>

theorem loader_malloc_blocks:
  assumes "loader_cursor st \<le> loader_limit st" and "loader_limit st \<le> 2 ^ 32"
    and "alloc_all malloc_req st rs = Inr (bs, t)"
  shows "length bs = length rs \<and>
    (\<forall>i < length rs. loader_cursor st \<le> bs ! i \<and> bs ! i + unat (fst (rs ! i)) \<le> loader_limit st \<and>
       effective_alignment (snd (rs ! i)) dvd bs ! i) \<and>
    (\<forall>i j. i < j \<longrightarrow> j < length rs \<longrightarrow> bs ! i + unat (fst (rs ! i)) \<le> bs ! j)"
  using loader_malloc.alloc_all_blocks [OF assms(1) _ assms(3)] loader_malloc.alloc_all_disjoint [OF assms(1) _ assms(3)] assms(2)
  by (auto intro: order_trans)

text \<open>The loader's globals before \<open>awd_main\<close>: everything is zero, no page is mapped.\<close>

definition loader_initial :: loader where
  "loader_initial =
     (let z = \<lparr>r_start = 0, r_end = 0\<rparr>; q = \<lparr>phys_start = 0, phys_end = 0, virt_start = 0, virt_end = 0, map_attribute = 0\<rparr>
      in \<lparr>amem = (\<lambda>_. 0),
          console_data = \<lparr>con_x = 0, con_y = 0, con_color = 0, con_width = 0, con_height = 0, buffer_addr = 0\<rparr>,
          number_buffers = (awd_itoa_buffer, awd_itoa64_buffer), heap_phys_base = 0, heap_phys_current = 0,
          heap_phys_limit = 0, alloc_enabled = False,
          mem = \<lparr>region_low_memory = z, region_awd_image = z, region_multiboot_files = z, region_awd_malloc = z,
                 region_kernel_image = z\<rparr>,
          paging_queue_num = 0, paging_queue = replicate 10 q, paging_cr3 = None\<rparr>)"

theorem loader_malloc_blocks_witness:
  "\<exists>bs t. alloc_all malloc_req (alloc_init loader_initial 0x400000) [(0x11, 0), (0x1000, 0x1000)] = Inr (bs, t) \<and>
     bs ! 0 + 0x11 \<le> bs ! 1"
proof -
  let ?s = "alloc_init loader_initial 0x400000" and ?rs = "[(0x11, 0), (0x1000, 0x1000)] :: (u32 \<times> u32) list"
  obtain bs t where run: "alloc_all malloc_req ?s ?rs = Inr (bs, t)"
    by (simp add: malloc_req_def malloc_aligned_def alloc_init_def loader_initial_def align_current_def Let_def
        AWD_ALLOC_SIZE_def AWD_ALLOC_MIN_ALIGNMENT_def)
  have "loader_cursor ?s \<le> loader_limit ?s" "loader_limit ?s \<le> 2 ^ 32"
    by (simp_all add: alloc_init_def AWD_ALLOC_SIZE_def)
  from loader_malloc_blocks [OF this run] have "bs ! 0 + unat (fst (?rs ! 0)) \<le> bs ! 1"
    by (elim conjE allE [of _ 0] allE [of _ 1]) simp
  with run show ?thesis by auto
qed

end
