(* ===== verification/Loader_Kernel.thy ===== *)
theory Loader_Kernel
  imports Loader_Heap
begin

text \<open>
  Finding, analysing and loading the kernel: src/awd/multiboot.c with the structures of
  includes/multiboot.h, and src/awd/kernel/kernel.c with those of includes/elf64.h.  The structures are
  read from the physical memory at their offsets; pointers and sizes are truncated to 32 bits where the
  code stores them in 32-bit variables.
\<close>

section \<open>The multiboot structures\<close>

record multiboot_info =
  mb_flags :: u32
  mem_lower :: u32
  mem_upper :: u32
  boot_device :: u32
  mb_cmdline :: u32
  mods_count :: u32
  mods_addr :: u32
  mb_u :: "u32 list"
  mmap_length :: u32
  mmap_addr :: u32
  drives_length :: u32
  drives_addr :: u32
  config_table :: u32
  boot_loader_name :: u32
  apm_table :: u32
  vbe_control_info :: u32
  vbe_mode_info :: u32
  vbe_mode :: u16
  vbe_interface_seg :: u16
  vbe_interface_off :: u16
  vbe_interface_len :: u16
  framebuffer_addr :: u64
  framebuffer_pitch :: u32
  framebuffer_width :: u32
  framebuffer_height :: u32
  framebuffer_bpp :: u8
  framebuffer_type :: u8
  framebuffer_color :: "u8 list"

text \<open>The two unions are kept as the words and the bytes they consist of.\<close>

definition read_multiboot_info :: "32 bytes \<Rightarrow> u32 \<Rightarrow> multiboot_info" where
  "read_multiboot_info m a =
     \<lparr>mb_flags = load32 m a, mem_lower = load32 m (a + 4), mem_upper = load32 m (a + 8),
      boot_device = load32 m (a + 12), mb_cmdline = load32 m (a + 16), mods_count = load32 m (a + 20),
      mods_addr = load32 m (a + 24), mb_u = map (\<lambda>i. load32 m (a + 28 + 4 * of_nat i)) [0..<4],
      mmap_length = load32 m (a + 44), mmap_addr = load32 m (a + 48), drives_length = load32 m (a + 52),
      drives_addr = load32 m (a + 56), config_table = load32 m (a + 60), boot_loader_name = load32 m (a + 64),
      apm_table = load32 m (a + 68), vbe_control_info = load32 m (a + 72), vbe_mode_info = load32 m (a + 76),
      vbe_mode = load16 m (a + 80), vbe_interface_seg = load16 m (a + 82), vbe_interface_off = load16 m (a + 84),
      vbe_interface_len = load16 m (a + 86), framebuffer_addr = load64 m (a + 88),
      framebuffer_pitch = load32 m (a + 96), framebuffer_width = load32 m (a + 100),
      framebuffer_height = load32 m (a + 104), framebuffer_bpp = m (a + 108), framebuffer_type = m (a + 109),
      framebuffer_color = map (\<lambda>i. m (a + 110 + of_nat i)) [0..<6]\<rparr>"

record multiboot_module =
  mod_start :: u32
  mod_end :: u32
  mod_cmdline :: u32
  mod_pad :: u32

definition read_module :: "32 bytes \<Rightarrow> u32 \<Rightarrow> multiboot_module" where
  "read_module m a = \<lparr>mod_start = load32 m a, mod_end = load32 m (a + 4), mod_cmdline = load32 m (a + 8),
     mod_pad = load32 m (a + 12)\<rparr>"

section \<open>The ELF structures\<close>

record elf64_header =
  e_ident :: "u8 list"
  e_type :: u16
  e_machine :: u16
  e_version :: u32
  e_entry :: u64
  e_phoff :: u64
  e_shoff :: u64
  e_flags :: u32
  e_ehsize :: u16
  e_phentsize :: u16
  e_phnum :: u16
  e_shentsize :: u16
  e_shnum :: u16
  e_shstrndx :: u16

definition read_elf64_header :: "32 bytes \<Rightarrow> u32 \<Rightarrow> elf64_header" where
  "read_elf64_header m a =
     \<lparr>e_ident = map (\<lambda>i. m (a + of_nat i)) [0..<16], e_type = load16 m (a + 16), e_machine = load16 m (a + 18),
      e_version = load32 m (a + 20), e_entry = load64 m (a + 24), e_phoff = load64 m (a + 32),
      e_shoff = load64 m (a + 40), e_flags = load32 m (a + 48), e_ehsize = load16 m (a + 52),
      e_phentsize = load16 m (a + 54), e_phnum = load16 m (a + 56), e_shentsize = load16 m (a + 58),
      e_shnum = load16 m (a + 60), e_shstrndx = load16 m (a + 62)\<rparr>"

record elf64_pheader =
  p_type :: u32
  p_flags :: u32
  p_offset :: u64
  p_vaddr :: u64
  p_paddr :: u64
  p_filesz :: u64
  p_memsz :: u64
  p_align :: u64

definition read_elf64_pheader :: "32 bytes \<Rightarrow> u32 \<Rightarrow> elf64_pheader" where
  "read_elf64_pheader m a =
     \<lparr>p_type = load32 m a, p_flags = load32 m (a + 4), p_offset = load64 m (a + 8), p_vaddr = load64 m (a + 16),
      p_paddr = load64 m (a + 24), p_filesz = load64 m (a + 32), p_memsz = load64 m (a + 40), p_align = load64 m (a + 48)\<rparr>"

record kernel_region =
  kr_start :: u64
  kr_size :: u64

record kernel_info =
  image_start :: u32
  image_end :: u32
  k_phys :: kernel_region
  k_virt :: kernel_region

record kernel_loaded_info =
  memory_image :: kernel_region
  loaded_virt :: kernel_region
  virtual_entry :: u64

section \<open>Multiboot\<close>

definition multiboot_verify :: "loader \<Rightarrow> u32 \<Rightarrow> awd_stop + loader" where
  "multiboot_verify st magic =
     (if magic \<noteq> 0x2BADB002
      then awd_panic st ''multiboot: Multiboot loading failed (magic is incorrect). Halting.'' []
      else Inr st)"

text \<open>The search loop; \<open>tag\<close> is the address of the string literal \<open>KERNEL_TAG_NAME\<close>.\<close>

function find_module :: "32 bytes \<Rightarrow> u32 \<Rightarrow> u32 \<Rightarrow> u32 \<Rightarrow> u32 \<Rightarrow> awd_stop + u32 option" where
  "find_module m tag addr num i =
     (if i < num then
        let md = addr + 16 * i in
        case awd_strcmp m (mod_cmdline (read_module m md)) tag of
          None \<Rightarrow> Inl Unterminated_string
        | Some r \<Rightarrow> if r = 0 then Inr (Some md) else find_module m tag addr num (i + 1)
      else Inr None)"
  by pat_completeness auto
termination
  by (relation "measure (\<lambda>(m, tag, addr, num, i). unat num - unat i)")
    (auto simp: unat_Suc_less word_less_nat_alt)

declare find_module.simps [simp del]

definition multiboot_find_kernel :: "u32 \<Rightarrow> loader \<Rightarrow> u32 \<Rightarrow> awd_stop + (u32 \<times> loader)" where
  "multiboot_find_kernel tag st mb_struct =
     (let info = read_multiboot_info (amem st) mb_struct in
      bind_r (find_module (amem st) tag (mods_addr info) (mods_count info) 0) (\<lambda>found.
      case found of
        Some md \<Rightarrow> Inr (md, st)
      | None \<Rightarrow>
          if mods_count info = 0
          then awd_panic st ''multiboot: No kernel found, no modules were loaded by the multiboot bootloader.'' []
          else Inr (0, st)))"

text \<open>\<open>garbage\<close> is what the uninitialised members of \<open>kernel_info\<close> hold.  A null module pointer is
  followed like any other: the memory at address 0 can be read.\<close>

definition multiboot_analyse :: "u32 \<Rightarrow> kernel_region \<Rightarrow> loader \<Rightarrow> u32 \<Rightarrow> awd_stop + (kernel_info \<times> loader)" where
  "multiboot_analyse tag garbage st mb_struct =
     bind_r (string_at (amem st) (boot_loader_name (read_multiboot_info (amem st) mb_struct))) (\<lambda>name.
     bind_r (log_info st (''multiboot: Bootloader is %s'' @ newline) [StrSlot name]) (\<lambda>st.
     bind_r (multiboot_find_kernel tag st mb_struct) (\<lambda>(kernel_module, st).
     let md = read_module (amem st) kernel_module;
         info = \<lparr>image_start = mod_start md, image_end = mod_end md, k_phys = garbage, k_virt = garbage\<rparr>
     in Inr (info, st\<lparr>mem := (mem st)\<lparr>region_multiboot_files :=
          \<lparr>r_start = PAGE_ROUND_UP (ucast (image_start info)), r_end = PAGE_ROUND_UP (ucast (image_end info)) - 1\<rparr>\<rparr>\<rparr>))))"

section \<open>The kernel's image\<close>

definition elf_check :: "elf64_header \<Rightarrow> bool" where
  "elf_check h =
     (if e_ident h ! 0 \<noteq> 0x7F then False
      else if e_ident h ! 1 \<noteq> of_char CHR ''E'' then False
      else if e_ident h ! 2 \<noteq> of_char CHR ''L'' then False
      else if e_ident h ! 3 \<noteq> of_char CHR ''F'' then False
      else if e_machine h \<noteq> 0x3E then False
      else if e_type h \<noteq> 2 then False
      else True)"

text \<open>The program header of number \<open>i\<close>: its offset is computed in 64 bits and stored in 32.\<close>

definition header_offset :: "elf64_header \<Rightarrow> nat \<Rightarrow> u32" where
  "header_offset h i = ucast (e_phoff h + ucast (ucast (e_phentsize h) * of_nat i :: u32))"

definition prog_header :: "32 bytes \<Rightarrow> u32 \<Rightarrow> nat \<Rightarrow> elf64_pheader" where
  "prog_header m start i = read_elf64_pheader m (start + header_offset (read_elf64_header m start) i)"

definition ph_file_address :: "u32 \<Rightarrow> elf64_pheader \<Rightarrow> u32" where
  "ph_file_address start ph = ucast (ucast start + p_offset ph)"

text \<open>One round of the loop of \<open>kernel_analyse\<close>, on the regions \<open>phys\<close> and \<open>virt\<close>.\<close>

definition analyse_header :: "u32 \<Rightarrow> kernel_region \<times> kernel_region \<Rightarrow> elf64_pheader \<Rightarrow> kernel_region \<times> kernel_region" where
  "analyse_header start pv ph =
     (if p_type ph \<noteq> 1 then pv
      else
        let (phys, virt) = pv;
            virt = (if kr_start virt > p_vaddr ph then virt\<lparr>kr_start := p_vaddr ph\<rparr> else virt);
            addr = ucast (ph_file_address start ph);
            phys = (if kr_start phys > addr then phys\<lparr>kr_start := addr\<rparr> else phys);
            phys = phys\<lparr>kr_size := kr_size phys + ucast (ucast (p_memsz ph) :: u32)\<rparr>;
            phys = (if kr_size phys mod 0x1000 \<noteq> 0
                    then phys\<lparr>kr_size := kr_size phys + ucast (0x1000 - (ucast (kr_size phys) :: u32) mod 0x1000)\<rparr>
                    else phys)
        in (phys, virt))"

definition kernel_analyse :: "loader \<Rightarrow> kernel_info \<Rightarrow> awd_stop + (kernel_info \<times> loader)" where
  "kernel_analyse st info =
     (let h = read_elf64_header (amem st) (image_start info) in
      bind_r (if \<not> elf_check h then awd_panic st ''kernel error: Kernel is not a ELF executable.'' [] else Inr st) (\<lambda>st.
      let far = \<lparr>kr_start = 0xFFFFFFFFFFFFFF00, kr_size = 0\<rparr>;
          (phys, virt) = foldl (\<lambda>pv i. analyse_header (image_start info) pv (prog_header (amem st) (image_start info) i))
            (far, far) [0..<unat (e_phnum h)];
          virt = virt\<lparr>kr_size := kr_size phys\<rparr>;
          info = info\<lparr>k_phys := phys, k_virt := virt\<rparr> in
      bind_r (log_info st (''kernel: Kernel phys. memory image is @ 0x%016p with size %x'' @ newline)
                (arg64 (kr_start phys) @ arg64 (kr_size phys))) (\<lambda>st.
      bind_r (log_info st (''kernel: Kernel virt. memory image is @ 0x%016p with size %x'' @ newline)
                (arg64 (kr_start virt) @ arg64 (kr_size virt))) (\<lambda>st.
      Inr (info, st)))))"

text \<open>The loading loop reads the header again in every round, from the memory it writes to.\<close>

function load_segments :: "kernel_info \<Rightarrow> u32 \<Rightarrow> 32 bytes \<Rightarrow> nat \<Rightarrow> 32 bytes" where
  "load_segments info kernel_phys_image m i =
     (if i < unat (e_phnum (read_elf64_header m (image_start info))) then
        let ph = prog_header m (image_start info) i in
        if p_type ph \<noteq> 1 then load_segments info kernel_phys_image m (i + 1)
        else
          let dest_address = ucast (ucast kernel_phys_image + (p_vaddr ph - kr_start (k_virt info))) :: u32
          in load_segments info kernel_phys_image
               (fst (awd_memcpy m dest_address (ph_file_address (image_start info) ph) (ucast (p_filesz ph)))) (i + 1)
      else m)"
  by pat_completeness auto
termination
proof (relation "measure (\<lambda>(info, k, m, i). 2 ^ 16 - i)")
  fix info :: kernel_info and k :: u32 and m :: "32 bytes" and i
  assume "i < unat (e_phnum (read_elf64_header m (image_start info)))"
  moreover have "\<dots> < 2 ^ 16" using unat_lt_power [of "e_phnum (read_elf64_header m (image_start info))"] by simp
  ultimately have "2 ^ 16 - (i + 1) < 2 ^ 16 - i" by linarith
  then show "((info, k, m, i + 1), info, k, m, i) \<in> measure (\<lambda>(info, k, m, i). 2 ^ 16 - i)"
    "\<And>m'. ((info, k, m', i + 1), info, k, m, i) \<in> measure (\<lambda>(info, k, m, i). 2 ^ 16 - i)" by simp_all
qed simp

declare load_segments.simps [simp del]

definition kernel_load :: "loader \<Rightarrow> kernel_info \<Rightarrow> awd_stop + (kernel_loaded_info \<times> loader)" where
  "kernel_load st info =
     bind_r (malloc_aligned st (ucast (kr_size (k_phys info))) 0x1000) (\<lambda>(kernel_phys_image, st).
     let st = st\<lparr>amem := load_segments info kernel_phys_image (amem st) 0\<rparr>
     in Inr (\<lparr>memory_image = \<lparr>kr_start = ucast kernel_phys_image, kr_size = kr_size (k_phys info)\<rparr>,
              loaded_virt = k_virt info,
              virtual_entry = e_entry (read_elf64_header (amem st) (image_start info))\<rparr>,
        st\<lparr>mem := (mem st)\<lparr>region_kernel_image :=
          \<lparr>r_start = ucast kernel_phys_image, r_end = ucast kernel_phys_image + kr_size (k_phys info) - 1\<rparr>\<rparr>\<rparr>))"

section \<open>What the structures depend on\<close>

lemma load_le_same_num:
  assumes "\<And>x. in_range x a n \<Longrightarrow> m' x = m x"
  shows "n \<le> 2 ^ 32 \<Longrightarrow> k \<le> n \<Longrightarrow> (load_le k m' a :: 'b::len word) = load_le k m (a :: u32)"
    "n \<le> 2 ^ 32 \<Longrightarrow> numeral off + k \<le> n \<Longrightarrow> (load_le k m' (a + numeral off) :: 'b word) = load_le k m (a + numeral off)"
  using load_le_same [of a n m' m 0 k, OF assms] load_le_same [of a n m' m "numeral off" k, OF assms] by simp_all

lemma read_elf64_header_same:
  assumes "\<And>x. in_range x a 64 \<Longrightarrow> m' x = m x"
  shows "read_elf64_header m' a = read_elf64_header m a"
proof -
  have "m' (a + of_nat i) = m (a + of_nat i)" if "i < 16" for i
    using that by (intro assms in_range_offset) simp_all
  then have "map (\<lambda>i. m' (a + of_nat i)) [0..<16] = map (\<lambda>i. m (a + of_nat i)) [0..<16]" by simp
  then show ?thesis by (simp add: read_elf64_header_def load_le_same_num [OF assms])
qed

lemma read_elf64_pheader_same:
  assumes "\<And>x. in_range x a 56 \<Longrightarrow> m' x = m x"
  shows "read_elf64_pheader m' a = read_elf64_pheader m a"
  by (simp add: read_elf64_pheader_def load_le_same_num [OF assms])

text \<open>A file of \<open>len\<close> bytes at \<open>start\<close> that holds its header, its program headers and the contents of its
  LOAD segments.\<close>

abbreviation ph_count :: "32 bytes \<Rightarrow> u32 \<Rightarrow> nat" where
  "ph_count m start \<equiv> unat (e_phnum (read_elf64_header m start))"

definition elf_inside :: "32 bytes \<Rightarrow> u32 \<Rightarrow> nat \<Rightarrow> bool" where
  "elf_inside m start len \<longleftrightarrow> unat start + len \<le> 2 ^ 32 \<and> 64 \<le> len \<and>
     (\<forall>i < ph_count m start. unat (header_offset (read_elf64_header m start) i) + 56 \<le> len \<and>
        (let ph = prog_header m start i in
         p_type ph = 1 \<longrightarrow> unat (p_offset ph) + unat (p_filesz ph) \<le> len))"

lemma elf_inside_same:
  assumes "elf_inside m start len" and same: "\<And>x. in_range x start len \<Longrightarrow> m' x = m x"
  shows "read_elf64_header m' start = read_elf64_header m start"
    "i < ph_count m start \<Longrightarrow> prog_header m' start i = prog_header m start i"
proof -
  have len: "64 \<le> len" "unat start + len \<le> 2 ^ 32" using assms(1) by (simp_all add: elf_inside_def)
  show h: "read_elf64_header m' start = read_elf64_header m start"
    using in_range_mono [OF _ len(1)] same by (intro read_elf64_header_same) blast
  let ?o = "header_offset (read_elf64_header m start) i"
  assume "i < ph_count m start"
  then have "unat ?o + 56 \<le> len" using assms(1) by (simp add: elf_inside_def)
  then have "in_range x start len" if "in_range x (start + of_nat (unat ?o)) 56" for x
    using in_range_inside [OF that, of len] len by simp
  then show "prog_header m' start i = prog_header m start i"
    using same by (simp add: prog_header_def h) (intro read_elf64_pheader_same, simp)
qed

section \<open>The extent of the kernel\<close>

definition load_headers :: "32 bytes \<Rightarrow> u32 \<Rightarrow> elf64_pheader list" where
  "load_headers m start = filter (\<lambda>ph. p_type ph = 1) (map (prog_header m start) [0..<ph_count m start])"

definition round_page :: "nat \<Rightarrow> nat" where "round_page n = (n + 4095) div 4096 * 4096"

definition memory_bytes :: "elf64_pheader \<Rightarrow> nat" where "memory_bytes ph = unat (ucast (p_memsz ph) :: u32)"

lemma round_page_unique:
  assumes "4096 dvd b" and "c \<le> b" and "b < c + 4096"
  shows "round_page c = b"
proof -
  obtain k where k: "b = 4096 * k" using assms(1) by blast
  have "(c + 4095) div 4096 = k" using assms(2,3) by (intro div_nat_eqI) (simp_all add: k)
  then show ?thesis by (simp add: round_page_def k)
qed

lemma round_page_bounds: "4096 dvd round_page n" "n \<le> round_page n" "round_page n < n + 4096"
proof -
  show "4096 dvd round_page n" by (simp add: round_page_def)
  have "n + 4095 = round_page n + (n + 4095) mod 4096" by (simp add: round_page_def)
  moreover have "(n + 4095) mod 4096 < 4096" by simp
  ultimately show "n \<le> round_page n" "round_page n < n + 4096" by linarith+
qed

lemma round_page_add: "4096 dvd a \<Longrightarrow> round_page (a + b) = a + round_page b"
  using round_page_bounds [of b] by (intro round_page_unique) simp_all

lemma round_page_fill: "n mod 4096 \<noteq> 0 \<Longrightarrow> round_page n = n + (4096 - n mod 4096)"
proof (rule round_page_unique)
  have "n + (4096 - n mod 4096) = 4096 * (n div 4096 + 1)"
  proof -
    have "n + (4096 - r) = 4096 * (q + 1)" if "q * 4096 + r = n" "r < 4096" for q r using that by auto
    then show ?thesis by simp
  qed
  then show "4096 dvd n + (4096 - n mod 4096)" by (simp only: dvd_triv_left)
qed simp_all

lemma analyse_header_size:
  assumes "p_type ph = 1" and "4096 dvd unat (kr_size phys)" and "unat (kr_size phys) + round_page (memory_bytes ph) < 2 ^ 32"
  shows "unat (kr_size (fst (analyse_header start (phys, virt) ph))) = unat (kr_size phys) + round_page (memory_bytes ph)"
proof -
  define z where "z = kr_size phys + ucast (ucast (p_memsz ph) :: u32)"
  have ms: "unat (ucast (ucast (p_memsz ph) :: u32) :: u64) = memory_bytes ph"
    unfolding memory_bytes_def by (rule unat_ucast_up) simp
  have "memory_bytes ph \<le> round_page (memory_bytes ph)" by (rule round_page_bounds)
  then have lt: "unat (kr_size phys) + memory_bytes ph < 2 ^ 32" using assms(3) by linarith
  then have z: "unat z = unat (kr_size phys) + memory_bytes ph"
    unfolding z_def using ms by (intro trans [OF unat_add_lt]) auto
  have r: "round_page (unat z) = unat (kr_size phys) + round_page (memory_bytes ph)"
    by (simp add: z round_page_add [OF assms(2)])
  have zmod: "z mod 0x1000 = 0 \<longleftrightarrow> unat z mod 4096 = 0"
    by (simp add: unat_eq_zero [symmetric] unat_mod)
  have size: "kr_size (fst (analyse_header start (phys, virt) ph)) =
      (if z mod 0x1000 \<noteq> 0 then z + ucast (0x1000 - (ucast z :: u32) mod 0x1000) else z)"
    using assms(1) by (simp add: analyse_header_def Let_def z_def)
  show ?thesis
  proof (cases "unat z mod 4096 = 0")
    case True
    then have "round_page (unat z) = unat z" by (intro round_page_unique) auto
    then show ?thesis using True r by (simp add: size zmod)
  next
    case False
    have "unat (ucast z :: u32) = unat z" using z lt by (simp add: unat_ucast_mod)
    then have u: "unat ((ucast z :: u32) mod 0x1000) = unat z mod 4096" by (simp add: unat_mod)
    have "unat (0x1000 - (ucast z :: u32) mod 0x1000) = 4096 - unat z mod 4096"
      using u by (subst unat_sub_le) simp_all
    then have d: "unat (ucast (0x1000 - (ucast z :: u32) mod 0x1000) :: u64) = 4096 - unat z mod 4096"
      using unat_ucast_up [of "0x1000 - (ucast z :: u32) mod 0x1000", where 'b = 64] by simp
    note e = round_page_fill [OF False]
    have "unat (z + ucast (0x1000 - (ucast z :: u32) mod 0x1000)) = round_page (unat z)"
      using d e r assms(3) by (intro trans [OF unat_add_lt]) simp_all
    then show ?thesis using False r by (simp add: size zmod)
  qed
qed

lemma analyse_header_start:
  assumes "p_type ph = 1"
  shows "kr_start (snd (analyse_header start (phys, virt) ph)) = min (kr_start virt) (p_vaddr ph)"
    "kr_size (snd (analyse_header start (phys, virt) ph)) = kr_size virt"
  using assms by (auto simp: analyse_header_def Let_def min_def)

lemma analyse_headers:
  assumes "\<forall>ph \<in> set phs. p_type ph = 1" and "4096 dvd unat (kr_size phys)"
    and "unat (kr_size phys) + sum_list (map (\<lambda>ph. round_page (memory_bytes ph)) phs) < 2 ^ 32"
    and "(phys', virt') = foldl (analyse_header start) (phys, virt) phs"
  shows "unat (kr_size phys') = unat (kr_size phys) + sum_list (map (\<lambda>ph. round_page (memory_bytes ph)) phs) \<and>
    kr_start virt' = foldl min (kr_start virt) (map p_vaddr phs)"
  using assms
proof (induction phs arbitrary: phys virt)
  case (Cons ph phs)
  obtain p v where pv: "analyse_header start (phys, virt) ph = (p, v)" by fastforce
  have p: "unat (kr_size p) = unat (kr_size phys) + round_page (memory_bytes ph)"
    using analyse_header_size [of ph phys start virt] Cons.prems pv by simp
  moreover have "kr_start v = min (kr_start virt) (p_vaddr ph)"
    using analyse_header_start [of ph start phys virt] Cons.prems(1) pv by simp
  moreover have "4096 dvd unat (kr_size p)" using p Cons.prems(2) round_page_bounds(1) [of "memory_bytes ph"] by simp
  ultimately show ?case using Cons.IH [of p v] Cons.prems pv by simp
qed simp

lemma foldl_filter: "(\<And>x a. \<not> P x \<Longrightarrow> f a x = a) \<Longrightarrow> foldl f a xs = foldl f a (filter P xs)"
  by (induction xs arbitrary: a) auto

lemma foldl_min_le: "foldl min a xs \<le> (a :: u64) \<and> (\<forall>x \<in> set xs. foldl min a xs \<le> x) \<and> foldl min a xs \<in> insert a (set xs)"
proof (induction xs arbitrary: a)
  case (Cons x xs)
  show ?case using Cons [of "min a x"] by (auto simp: min_def split: if_splits)
qed simp

text \<open>What \<open>kernel_analyse\<close> finds, as a value.\<close>

definition kernel_bytes :: "32 bytes \<Rightarrow> u32 \<Rightarrow> nat" where
  "kernel_bytes m start = sum_list (map (\<lambda>ph. round_page (memory_bytes ph)) (load_headers m start))"

definition kernel_base :: "32 bytes \<Rightarrow> u32 \<Rightarrow> u64" where
  "kernel_base m start = foldl min 0xFFFFFFFFFFFFFF00 (map p_vaddr (load_headers m start))"

definition region_items :: "string \<Rightarrow> kernel_region \<Rightarrow> item list" where
  "region_items which r = map Lit (''kernel: Kernel '' @ which @ ''. memory image is @ 0x'') @
     [Ptr False True 16 (kr_start r)] @ map Lit '' with size '' @ [Hex False False 0 (kr_size r), Lit CHR 0x0A]"

lemma region_items_print:
  fixes r :: kernel_region
  assumes "text_ok st" and "\<forall>c \<in> set which. c \<noteq> NUL \<and> c \<noteq> CHR ''%''"
  shows "\<exists>st'. log_info st (''kernel: Kernel '' @ which @ ''. memory image is @ 0x%016p with size %x'' @ newline)
      (arg64 (kr_start r) @ arg64 (kr_size r)) = Inr st' \<and> text_ok st' \<and> same_but_screen st st'"
proof -
  have fmt: "''kernel: Kernel '' @ which @ ''. memory image is @ 0x%016p with size %x'' @ newline = items_format (region_items which r)"
    by (simp add: region_items_def newline_def)
  have ok: "\<forall>it \<in> set (region_items which r). item_ok it" using assms(2) by (auto simp: region_items_def)
  have arg: "arg64 (kr_start r) @ arg64 (kr_size r) =
      concat (map awd_printf.item_args (region_items which r)) @ [Slot (ucast (drop_bit 32 (kr_size r)))]"
    by (simp add: region_items_def arg64_def)
  show ?thesis unfolding log_info_def using log_color_prints [OF assms(1) ok fmt arg] by blast
qed

text \<open>The result of \<open>kernel_analyse\<close> on an executable whose parts fit the 32-bit size.\<close>

lemma kernel_analyse_result:
  assumes "text_ok st" and elf: "elf_check (read_elf64_header (amem st) (image_start info))"
    and size: "kernel_bytes (amem st) (image_start info) < 2 ^ 32"
  shows "\<exists>phys virt st'. kernel_analyse st info = Inr (info\<lparr>k_phys := phys, k_virt := virt\<rparr>, st') \<and> text_ok st' \<and>
    same_but_screen st st' \<and> unat (kr_size phys) = kernel_bytes (amem st) (image_start info) \<and>
    kr_size virt = kr_size phys \<and> kr_start virt = kernel_base (amem st) (image_start info)"
proof -
  let ?m = "amem st" and ?a = "image_start info" and ?far = "\<lparr>kr_start = 0xFFFFFFFFFFFFFF00, kr_size = 0\<rparr>"
  obtain phys virt where pv: "(phys, virt) = foldl (analyse_header ?a) (?far, ?far) (load_headers ?m ?a)"
    by (metis surj_pair)
  have run: "foldl (\<lambda>pv i. analyse_header ?a pv (prog_header ?m ?a i)) (?far, ?far) [0..<ph_count ?m ?a] = (phys, virt)"
  proof -
    have "foldl (\<lambda>pv i. analyse_header ?a pv (prog_header ?m ?a i)) (?far, ?far) is =
        foldl (analyse_header ?a) (?far, ?far) (map (prog_header ?m ?a) is)" for "is"
      by (simp add: foldl_map)
    then show ?thesis
      unfolding pv load_headers_def
      by (simp only:) (rule foldl_filter, simp add: analyse_header_def)
  qed
  have phys: "unat (kr_size phys) = kernel_bytes ?m ?a" "kr_start virt = kernel_base ?m ?a"
    using analyse_headers [of "load_headers ?m ?a" ?far phys virt ?a ?far] pv size
    by (auto simp: load_headers_def kernel_bytes_def kernel_base_def)
  let ?virt = "virt\<lparr>kr_size := kr_size phys\<rparr>"
  have plain: "\<forall>c \<in> set ''phys''. c \<noteq> NUL \<and> c \<noteq> CHR ''%''" "\<forall>c \<in> set ''virt''. c \<noteq> NUL \<and> c \<noteq> CHR ''%''" by simp_all
  obtain st1 where st1: "log_info st (''kernel: Kernel phys. memory image is @ 0x%016p with size %x'' @ newline)
      (arg64 (kr_start phys) @ arg64 (kr_size phys)) = Inr st1" "text_ok st1" "same_but_screen st st1"
    using region_items_print [OF assms(1) plain(1), of phys] by auto
  obtain st2 where st2: "log_info st1 (''kernel: Kernel virt. memory image is @ 0x%016p with size %x'' @ newline)
      (arg64 (kr_start ?virt) @ arg64 (kr_size ?virt)) = Inr st2" "text_ok st2" "same_but_screen st1 st2"
    using region_items_print [OF st1(2) plain(2), of ?virt] by auto
  have "kernel_analyse st info = Inr (info\<lparr>k_phys := phys, k_virt := ?virt\<rparr>, st2)"
    using elf run st1(1) st2(1) by (simp add: kernel_analyse_def Let_def)
  then show ?thesis using phys st2(2) same_but_screen_trans [OF st1(3) st2(3)]
    by (intro exI [of _ phys] exI [of _ ?virt] exI [of _ st2]) simp
qed

section \<open>Loading\<close>

text \<open>Where a segment comes from and where it goes.\<close>

definition seg_source :: "u32 \<Rightarrow> elf64_pheader \<Rightarrow> nat \<Rightarrow> u32" where
  "seg_source start ph k = start + of_nat (unat (p_offset ph) + k)"

definition seg_offset :: "u64 \<Rightarrow> elf64_pheader \<Rightarrow> nat" where
  "seg_offset v0 ph = unat (p_vaddr ph - v0)"

definition seg_dest :: "u32 \<Rightarrow> u64 \<Rightarrow> elf64_pheader \<Rightarrow> nat \<Rightarrow> u32" where
  "seg_dest kp v0 ph k = kp + of_nat (seg_offset v0 ph + k)"

text \<open>The segments fit the image of \<open>n\<close> bytes, and no two of them share a byte of it.\<close>

definition segments_fit :: "32 bytes \<Rightarrow> u32 \<Rightarrow> u64 \<Rightarrow> nat \<Rightarrow> bool" where
  "segments_fit m start v0 n \<longleftrightarrow>
     (\<forall>i < ph_count m start. let ph = prog_header m start i in
        p_type ph = 1 \<longrightarrow> seg_offset v0 ph + unat (p_filesz ph) \<le> n) \<and>
     (\<forall>j < ph_count m start. \<forall>i < j. let ph = prog_header m start i; ph' = prog_header m start j in
        p_type ph = 1 \<longrightarrow> p_type ph' = 1 \<longrightarrow>
          seg_offset v0 ph + unat (p_filesz ph) \<le> seg_offset v0 ph' \<or>
          seg_offset v0 ph' + unat (p_filesz ph') \<le> seg_offset v0 ph)"

lemma seg_dest_unat:
  assumes "unat kp + n \<le> 2 ^ 32" and "seg_offset v0 ph + k < n"
  shows "unat (seg_dest kp v0 ph k) = unat kp + seg_offset v0 ph + k"
proof -
  have "unat (of_nat (seg_offset v0 ph + k) :: u32) = seg_offset v0 ph + k" using assms by (subst unat_of_nat) simp
  then show ?thesis unfolding seg_dest_def using assms by (subst unat_add_lt) simp_all
qed

lemma ucast_sum: "(ucast (ucast (x :: u32) + y :: u64) :: u32) = x + of_nat (unat y)"
proof -
  have "unat (ucast (ucast x + y :: u64) :: u32) = (unat x + unat y) mod 2 ^ 64 mod 2 ^ 32"
    by (simp add: unat_ucast_mod unat_word_ariths(1) unat_ucast_up mod_simps)
  also have "\<dots> = (unat x + unat y) mod 2 ^ 32" by (rule mod_mod_cancel) simp
  also have "\<dots> = unat (x + of_nat (unat y))" by (simp add: unat_word_ariths(1) unat_ucast_mod mod_simps)
  finally show ?thesis by (simp add: word_unat_eq_iff)
qed

text \<open>One copy: the bytes of the segment move to their place, the others stay.\<close>

lemma copy_segment:
  fixes kp start :: u32
  assumes n: "unat kp + n \<le> 2 ^ 32" "n < 2 ^ 32" and inside: "seg_offset v0 ph + unat (p_filesz ph) \<le> n"
    and source: "unat start + len \<le> 2 ^ 32" "unat (p_offset ph) + unat (p_filesz ph) \<le> len"
    and apart: "\<forall>x. in_range x start len \<longrightarrow> \<not> in_range x kp n"
    and m': "m' = fst (awd_memcpy m (ucast (ucast kp + (p_vaddr ph - v0))) (ph_file_address start ph) (ucast (p_filesz ph)))"
  shows "k < unat (p_filesz ph) \<Longrightarrow> m' (seg_dest kp v0 ph k) = m (seg_source start ph k)"
    "(\<And>k. k < unat (p_filesz ph) \<Longrightarrow> x \<noteq> seg_dest kp v0 ph k) \<Longrightarrow> m' x = m x"
proof -
  let ?d = "seg_dest kp v0 ph 0" and ?s = "seg_source start ph 0" and ?n = "unat (p_filesz ph)"
  have d: "ucast (ucast kp + (p_vaddr ph - v0)) = ?d" and s: "ph_file_address start ph = ?s"
    by (simp_all only: ucast_sum seg_dest_def seg_source_def seg_offset_def ph_file_address_def add_0_right)
  have sz: "unat (ucast (p_filesz ph) :: u32) = ?n"
    using n(2) inside by (subst unat_ucast_mod) (rule mod_less, simp)
  have copy: "m' x = (if in_range x ?d ?n then m (?s + (x - ?d)) else m x)" for x
  proof (cases "?n = 0")
    case True
    then have "p_filesz ph = 0" by (simp add: unat_eq_zero)
    then show ?thesis by (simp add: m' d s awd_memcpy_def memcpy_def memcpy_loop.simps)
  next
    case False
    have "in_range ?d kp n"
      using seg_dest_unat [OF n(1), of v0 ph 0] inside False n by (simp add: in_range_unat)
    moreover have "in_range ?d start len" if "in_range ?d ?s ?n"
      using in_range_inside [of ?d start "unat (p_offset ph)" ?n len] that source by (simp add: seg_source_def)
    ultimately have "\<not> (in_range ?d ?s ?n \<and> ?d \<noteq> ?s)" using apart by blast
    then show ?thesis using memcpy_apply [of ?d ?s "ucast (p_filesz ph)" m x] sz
      by (simp add: m' d s awd_memcpy_def)
  qed
  have step: "seg_dest kp v0 ph k = ?d + of_nat k" "seg_source start ph k = ?s + of_nat k" for k
    by (simp_all add: seg_dest_def seg_source_def)
  have small: "?n \<le> 2 ^ 32" using n inside by linarith
  show "m' (seg_dest kp v0 ph k) = m (seg_source start ph k)" if "k < ?n"
    unfolding step [of k] using that small by (simp add: copy in_range_offset)
  show "m' x = m x" if "\<And>k. k < ?n \<Longrightarrow> x \<noteq> seg_dest kp v0 ph k"
  proof -
    have "x = seg_dest kp v0 ph (unat (x - ?d))" unfolding step(1) [of "unat (x - ?d)"] by simp
    then have "\<not> in_range x ?d ?n" using that unfolding in_range_def by blast
    then show ?thesis by (simp add: copy)
  qed
qed

text \<open>What the loop makes of a memory \<open>m\<close> from round \<open>i\<close> on, with the file's contents taken from \<open>m0\<close>.\<close>

definition loads_at :: "32 bytes \<Rightarrow> u32 \<Rightarrow> nat \<Rightarrow> nat \<Rightarrow> nat \<Rightarrow> bool" where
  "loads_at m a i j k \<longleftrightarrow> i \<le> j \<and> j < ph_count m a \<and> p_type (prog_header m a j) = 1 \<and> k < unat (p_filesz (prog_header m a j))"

definition loaded_from :: "32 bytes \<Rightarrow> u32 \<Rightarrow> u64 \<Rightarrow> u32 \<Rightarrow> nat \<Rightarrow> 32 bytes \<Rightarrow> 32 bytes \<Rightarrow> bool" where
  "loaded_from m0 a v0 kp i m m' \<longleftrightarrow>
     (\<forall>j k. loads_at m0 a i j k \<longrightarrow>
        m' (seg_dest kp v0 (prog_header m0 a j) k) = m0 (seg_source a (prog_header m0 a j) k)) \<and>
     (\<forall>x. (\<forall>j k. loads_at m0 a i j k \<longrightarrow> x \<noteq> seg_dest kp v0 (prog_header m0 a j) k) \<longrightarrow> m' x = m x)"

lemma loads_at_step:
  "i < ph_count m a \<Longrightarrow> loads_at m a i j k \<longleftrightarrow>
     j = i \<and> p_type (prog_header m a i) = 1 \<and> k < unat (p_filesz (prog_header m a i)) \<or> loads_at m a (i + 1) j k"
  unfolding loads_at_def using le_eq_less_or_eq [of i j] by auto

lemma segments_fit_apart:
  assumes n: "unat kp + n \<le> 2 ^ 32" and fit: "segments_fit m a v0 n" and ij: "i < j" "j < ph_count m a"
    and load: "p_type (prog_header m a i) = 1" "p_type (prog_header m a j) = 1"
    and k: "k < unat (p_filesz (prog_header m a i))" "k' < unat (p_filesz (prog_header m a j))"
  shows "seg_dest kp v0 (prog_header m a i) k \<noteq> seg_dest kp v0 (prog_header m a j) k'"
proof -
  let ?p = "prog_header m a i" and ?q = "prog_header m a j"
  have "i < ph_count m a" using ij by simp
  then have "seg_offset v0 ?p + unat (p_filesz ?p) \<le> n" "seg_offset v0 ?q + unat (p_filesz ?q) \<le> n"
    and sep: "seg_offset v0 ?p + unat (p_filesz ?p) \<le> seg_offset v0 ?q \<or> seg_offset v0 ?q + unat (p_filesz ?q) \<le> seg_offset v0 ?p"
    using fit ij load by (auto simp: segments_fit_def Let_def)
  then have "unat (seg_dest kp v0 ?p k) = unat kp + seg_offset v0 ?p + k"
    "unat (seg_dest kp v0 ?q k') = unat kp + seg_offset v0 ?q + k'"
    using n k by (simp_all add: seg_dest_unat)
  then show ?thesis using sep k by auto
qed

text \<open>A copied segment survives the copies that follow, since segments do not overlap.\<close>

lemma loaded_from_step:
  assumes n: "unat kp + n \<le> 2 ^ 32" and fit: "segments_fit m0 a v0 n" and i: "i < ph_count m0 a"
    and load: "p_type (prog_header m0 a i) = 1" and rest: "loaded_from m0 a v0 kp (i + 1) m1 m'"
    and copied: "\<And>k. k < unat (p_filesz (prog_header m0 a i)) \<Longrightarrow>
      m1 (seg_dest kp v0 (prog_header m0 a i) k) = m0 (seg_source a (prog_header m0 a i) k)"
    and kept: "\<And>x. (\<And>k. k < unat (p_filesz (prog_header m0 a i)) \<Longrightarrow> x \<noteq> seg_dest kp v0 (prog_header m0 a i) k) \<Longrightarrow> m1 x = m x"
  shows "loaded_from m0 a v0 kp i m m'"
proof -
  let ?ph = "prog_header m0 a i"
  have own: "m' (seg_dest kp v0 ?ph k) = m0 (seg_source a ?ph k)" if k: "k < unat (p_filesz ?ph)" for k
  proof -
    have "seg_dest kp v0 ?ph k \<noteq> seg_dest kp v0 (prog_header m0 a j) k'" if "loads_at m0 a (i + 1) j k'" for j k'
      using that segments_fit_apart [OF n fit _ _ load _ k] by (simp add: loads_at_def)
    then have "m' (seg_dest kp v0 ?ph k) = m1 (seg_dest kp v0 ?ph k)"
      using rest unfolding loaded_from_def by blast
    then show ?thesis using copied [OF k] by simp
  qed
  have "m' x = m x" if x: "\<forall>j k. loads_at m0 a i j k \<longrightarrow> x \<noteq> seg_dest kp v0 (prog_header m0 a j) k" for x
  proof -
    have "m' x = m1 x" using rest x unfolding loaded_from_def loads_at_step [OF i] by blast
    also have "\<dots> = m x" by (rule kept) (use x load in \<open>unfold loads_at_step [OF i], blast\<close>)
    finally show ?thesis .
  qed
  then show ?thesis using own rest unfolding loaded_from_def loads_at_step [OF i] by blast
qed

lemma load_segments_copies:
  assumes n: "unat kp + n \<le> 2 ^ 32" "n < 2 ^ 32" and v0: "kr_start (k_virt info) = v0" and a: "image_start info = a"
    and elf: "elf_inside m0 a len" and fit: "segments_fit m0 a v0 n"
    and apart: "\<forall>x. in_range x a len \<longrightarrow> \<not> in_range x kp n"
    and same: "\<And>x. \<not> in_range x kp n \<Longrightarrow> m x = m0 x"
  shows "loaded_from m0 a v0 kp i m (load_segments info kp m i)"
  using same
proof (induction "ph_count m0 a - i" arbitrary: i m)
  case 0
  have "read_elf64_header m a = read_elf64_header m0 a"
    using elf_inside_same(1) [OF elf, of m] "0.prems" apart by blast
  then show ?case using 0 by (subst load_segments.simps) (auto simp: a loaded_from_def loads_at_def)
next
  case (Suc c)
  let ?ph = "prog_header m0 a i"
  have i: "i < ph_count m0 a" and c: "c = ph_count m0 a - (i + 1)" using Suc.hyps(2) by auto
  have h: "read_elf64_header m a = read_elf64_header m0 a" "prog_header m a i = ?ph"
    using elf_inside_same [OF elf, of m] Suc.prems apart i by blast+
  show ?case
  proof (cases "p_type ?ph = 1")
    case False
    then have "load_segments info kp m i = load_segments info kp m (i + 1)"
      using i h by (subst load_segments.simps) (simp add: a)
    moreover have "loaded_from m0 a v0 kp (i + 1) m (load_segments info kp m (i + 1))"
      using Suc.hyps(1) [OF c] Suc.prems by blast
    moreover have "loads_at m0 a i j k = loads_at m0 a (i + 1) j k" for j k
      using loads_at_step [OF i, of j k] False by blast
    ultimately show ?thesis unfolding loaded_from_def by simp
  next
    case True
    define m1 where "m1 = fst (awd_memcpy m (ucast (ucast kp + (p_vaddr ?ph - v0))) (ph_file_address a ?ph) (ucast (p_filesz ?ph)))"
    have run: "load_segments info kp m i = load_segments info kp m1 (i + 1)"
      using i h True by (subst load_segments.simps) (simp add: a v0 m1_def Let_def)
    have inside: "seg_offset v0 ?ph + unat (p_filesz ?ph) \<le> n"
      using fit i True by (simp add: segments_fit_def Let_def)
    have src: "unat a + len \<le> 2 ^ 32" "unat (p_offset ?ph) + unat (p_filesz ?ph) \<le> len"
      using elf i True by (simp_all add: elf_inside_def Let_def)
    note copy = copy_segment [OF n inside src apart m1_def]
    have dest: "in_range (seg_dest kp v0 ?ph k) kp n" if "k < unat (p_filesz ?ph)" for k
      using seg_dest_unat [OF n(1), of v0 ?ph k] inside that n(1) by (simp add: in_range_unat)
    have "m1 x = m0 x" if "\<not> in_range x kp n" for x
      using copy(2) [of x] dest that Suc.prems [OF that] by metis
    then have IH: "loaded_from m0 a v0 kp (i + 1) m1 (load_segments info kp m1 (i + 1))"
      using Suc.hyps(1) [OF c] by blast
    have "m1 (seg_dest kp v0 ?ph k) = m0 (seg_source a ?ph k)" if k: "k < unat (p_filesz ?ph)" for k
    proof -
      have "unat (p_offset ?ph) + k < len" using src(2) k by simp
      then have "in_range (seg_source a ?ph k) a len"
        unfolding seg_source_def using src(1) by (intro in_range_offset) auto
      then show ?thesis using copy(1) [OF k] apart Suc.prems by simp
    qed
    then show ?thesis unfolding run using loaded_from_step [OF n(1) fit i True IH] copy(2) by blast
  qed
qed

text \<open>What of a file depends on its bytes only.\<close>

lemma elf_file_same:
  assumes elf: "elf_inside m a len" and same: "\<And>x. in_range x a len \<Longrightarrow> m' x = m x"
  shows "elf_inside m' a len" "segments_fit m a v0 n \<Longrightarrow> segments_fit m' a v0 n"
    "read_elf64_header m' a = read_elf64_header m a" "loads_at m' a i j k \<longleftrightarrow> loads_at m a i j k"
    "load_headers m' a = load_headers m a"
proof -
  note same_file = elf_inside_same [OF elf same]
  show "elf_inside m' a len" using elf same_file by (simp add: elf_inside_def Let_def)
  show "segments_fit m a v0 n \<Longrightarrow> segments_fit m' a v0 n" using same_file by (simp add: segments_fit_def Let_def)
  show "read_elf64_header m' a = read_elf64_header m a" by (rule same_file(1))
  show "loads_at m' a i j k \<longleftrightarrow> loads_at m a i j k" using same_file by (auto simp: loads_at_def)
  have "map (prog_header m' a) [0..<ph_count m a] = map (prog_header m a) [0..<ph_count m a]" using same_file(2) by simp
  then show "load_headers m' a = load_headers m a" by (simp only: load_headers_def same_file(1))
qed

lemma loaded_file:
  assumes elf: "elf_inside m a len" and same: "\<And>x. in_range x a len \<Longrightarrow> m1 x = m x"
    and loaded: "loaded_from m1 a v0 kp 0 m1 m2"
  shows "\<forall>i k. loads_at m a 0 i k \<longrightarrow> m2 (seg_dest kp v0 (prog_header m a i) k) = m (seg_source a (prog_header m a i) k)"
    "\<forall>i k. loads_at m a 0 i k \<longrightarrow> x \<noteq> seg_dest kp v0 (prog_header m a i) k \<Longrightarrow> m2 x = m1 x"
proof -
  note at = elf_file_same(4) [OF elf same] and same_file = elf_inside_same [OF elf same]
  have bound: "i < ph_count m a" if "loads_at m a 0 i k" for i k using that by (simp add: loads_at_def)
  show "\<forall>i k. loads_at m a 0 i k \<longrightarrow> m2 (seg_dest kp v0 (prog_header m a i) k) = m (seg_source a (prog_header m a i) k)"
  proof (intro allI impI)
    fix i k assume l: "loads_at m a 0 i k"
    have len: "unat a + len \<le> 2 ^ 32" "unat (p_offset (prog_header m a i)) + k < len"
      using l elf by (fastforce simp: loads_at_def elf_inside_def Let_def)+
    then have "in_range (seg_source a (prog_header m a i) k) a len"
      unfolding seg_source_def by (intro in_range_offset) auto
    moreover have "m2 (seg_dest kp v0 (prog_header m1 a i) k) = m1 (seg_source a (prog_header m1 a i) k)"
      using loaded l at unfolding loaded_from_def by blast
    ultimately show "m2 (seg_dest kp v0 (prog_header m a i) k) = m (seg_source a (prog_header m a i) k)"
      using same by (simp add: same_file(2) bound [OF l])
  qed
  show "\<forall>i k. loads_at m a 0 i k \<longrightarrow> x \<noteq> seg_dest kp v0 (prog_header m a i) k \<Longrightarrow> m2 x = m1 x"
    using loaded at bound same_file(2) unfolding loaded_from_def by metis
qed

section \<open>kernel_load\<close>

lemma loaded_outside:
  assumes "loaded_from m a v0 kp 0 m m'" and fit: "segments_fit m a v0 n" and n: "unat kp + n \<le> 2 ^ 32"
    and x: "\<not> in_range x kp n"
  shows "m' x = m x"
proof -
  have "x \<noteq> seg_dest kp v0 (prog_header m a j) k" if l: "loads_at m a 0 j k" for j k
  proof -
    let ?ph = "prog_header m a j"
    have "seg_offset v0 ?ph + unat (p_filesz ?ph) \<le> n" "k < unat (p_filesz ?ph)"
      using l fit by (auto simp: loads_at_def segments_fit_def Let_def)
    then have "in_range (seg_dest kp v0 ?ph k) kp n" using seg_dest_unat [of kp n v0 ?ph k] n by (simp add: in_range_unat)
    then show ?thesis using x by blast
  qed
  then show ?thesis using assms(1) unfolding loaded_from_def by simp
qed

lemma kernel_load_result:
  assumes m: "amem st = m" "image_start info = a"
    and elf: "elf_inside m a len" and fit: "segments_fit m a v0 n"
    and size: "unat (kr_size (k_phys info)) = n" "kr_start (k_virt info) = v0"
    and heap: "alloc_enabled st" "loader_limit st \<le> 2 ^ 32" "loader_cursor st + n + 4096 < loader_limit st"
    and order: "unat a + len \<le> loader_cursor st"
  obtains kp st2 where
    "kernel_load st info = Inr (\<lparr>memory_image = \<lparr>kr_start = ucast kp, kr_size = kr_size (k_phys info)\<rparr>,
       loaded_virt = k_virt info, virtual_entry = e_entry (read_elf64_header m a)\<rparr>, st2)"
    "4096 dvd unat kp" "loader_cursor st \<le> unat kp" "unat kp + n < loader_limit st" "unat kp < loader_cursor st + 4096"
    "st2 = st\<lparr>heap_phys_current := of_nat (unat kp + n), amem := amem st2, mem := (mem st)\<lparr>region_kernel_image :=
       \<lparr>r_start = ucast kp, r_end = ucast kp + kr_size (k_phys info) - 1\<rparr>\<rparr>\<rparr>"
    "loaded_from m a v0 kp 0 m (amem st2)"
proof -
  have n32: "n < 2 ^ 32" using heap(2,3) by linarith
  have sz: "unat (ucast (kr_size (k_phys info)) :: u32) = n" using size(1) n32 by (simp add: unat_ucast_mod)
  have "loader_cursor st + unat (ucast (kr_size (k_phys info)) :: u32) + 4096 \<le> loader_limit st" using heap(3) sz by simp
  then obtain b where b: "4096 dvd b" "loader_cursor st \<le> b" "b < loader_cursor st + 4096"
      "malloc_aligned st (ucast (kr_size (k_phys info))) 0x1000 = Inr (of_nat b, st\<lparr>heap_phys_current := of_nat (b + n)\<rparr>)"
    using malloc_page [OF heap(1,2), of "ucast (kr_size (k_phys info))", unfolded sz] heap(3) by auto
  let ?kp = "of_nat b :: u32"
  have top: "b + n < loader_limit st" "b + n < 2 ^ 32" using b(3) heap(2,3) by linarith+
  then have kp: "unat ?kp = b" by (subst unat_of_nat) simp
  have apart: "\<forall>x. in_range x a len \<longrightarrow> \<not> in_range x ?kp n"
    using order b(2) top kp elf by (simp add: in_range_unat elf_inside_def)
  let ?m2 = "load_segments info ?kp m 0"
  have loaded: "loaded_from m a v0 ?kp 0 m ?m2"
    using load_segments_copies [OF _ n32 _ _ elf fit apart, of info] top kp size(2) m(2) by simp
  have "?m2 x = m x" if "in_range x a len" for x
    using loaded_outside [OF loaded fit] apart that top kp by simp
  then have entry: "read_elf64_header ?m2 a = read_elf64_header m a" by (rule elf_inside_same(1) [OF elf])
  show thesis
    by (rule that [of ?kp "st\<lparr>heap_phys_current := of_nat (b + n), amem := ?m2, mem := (mem st)\<lparr>region_kernel_image :=
          \<lparr>r_start = ucast ?kp, r_end = ucast ?kp + kr_size (k_phys info) - 1\<rparr>\<rparr>\<rparr>"])
      (use b top kp loaded entry m in \<open>simp_all add: kernel_load_def Let_def del: of_nat_add\<close>)
qed

section \<open>Properties\<close>

text \<open>C39. The kernel's file becomes its memory image: for an executable that lies in one piece in memory,
  above the text buffer and below the heap, whose segments fit the extent that the loader computes
  for them without sharing a byte, \<open>kernel_analyse\<close> and \<open>kernel_load\<close> return; the image is a page-aligned
  block of the sum of the segments' page-rounded sizes, each byte of a LOAD segment's file contents is
  at its virtual address less the lowest one, the entry point is the header's, and everything else, the
  bytes between the file size and the memory size of a segment included, keeps what the memory held.\<close>

theorem kernel_image_loaded:
  fixes st :: loader and info :: kernel_info
  defines "m \<equiv> amem st" and "a \<equiv> image_start info"
  assumes "text_ok st" and elf: "elf_check (read_elf64_header m a)" "elf_inside m a len"
    and fit: "segments_fit m a (kernel_base m a) (kernel_bytes m a)"
    and heap: "alloc_enabled st" "loader_limit st \<le> 2 ^ 32" "loader_cursor st + kernel_bytes m a + 4096 < loader_limit st"
    and order: "0xB8000 + 4000 \<le> unat a" "unat a + len \<le> loader_cursor st"
  shows "\<exists>info' st1 loaded st2 kp. kernel_analyse st info = Inr (info', st1) \<and> kernel_load st1 info' = Inr (loaded, st2) \<and>
    4096 dvd unat kp \<and> loader_cursor st \<le> unat kp \<and> loader_cursor st2 = unat kp + kernel_bytes m a \<and>
    kr_start (memory_image loaded) = ucast kp \<and> unat (kr_size (memory_image loaded)) = kernel_bytes m a \<and>
    kr_start (loaded_virt loaded) = kernel_base m a \<and> virtual_entry loaded = e_entry (read_elf64_header m a) \<and>
    (\<forall>i k. loads_at m a 0 i k \<longrightarrow>
       amem st2 (seg_dest kp (kernel_base m a) (prog_header m a i) k) = m (seg_source a (prog_header m a i) k)) \<and>
    (\<forall>x. (\<forall>i k. loads_at m a 0 i k \<longrightarrow> x \<noteq> seg_dest kp (kernel_base m a) (prog_header m a i) k) \<longrightarrow>
       \<not> in_range x 0xB8000 4000 \<longrightarrow> amem st2 x = m x)"
proof -
  let ?n = "kernel_bytes m a" and ?v0 = "kernel_base m a"
  have n32: "?n < 2 ^ 32" using heap(2,3) by linarith
  obtain phys virt st1 where an: "kernel_analyse st info = Inr (info\<lparr>k_phys := phys, k_virt := virt\<rparr>, st1)"
      "text_ok st1" "same_but_screen st st1" "unat (kr_size phys) = ?n" "kr_size virt = kr_size phys" "kr_start virt = ?v0"
    using kernel_analyse_result [OF assms(3) elf(1) [unfolded m_def a_def]] n32 unfolding m_def a_def by blast
  let ?info = "info\<lparr>k_phys := phys, k_virt := virt\<rparr>"
  note same = same_but_screen_fields [OF an(3)]
  have file32: "unat a + len \<le> 2 ^ 32" using elf(2) by (simp add: elf_inside_def)
  have keep: "amem st1 x = m x" if "in_range x a len" for x
    using that order(1) file32 same(9) [of x] by (simp add: in_range_unat m_def)
  note same_file = elf_file_same [OF elf(2) keep]
  have heap1: "alloc_enabled st1" "loader_limit st1 \<le> 2 ^ 32" "loader_cursor st1 + ?n + 4096 < loader_limit st1"
    "unat a + len \<le> loader_cursor st1"
    using heap order(2) same by simp_all
  have info: "image_start ?info = a" "unat (kr_size (k_phys ?info)) = ?n" "kr_start (k_virt ?info) = ?v0"
    using an by (simp_all add: a_def)
  have elf1: "elf_inside (amem st1) a len" and fit1: "segments_fit (amem st1) a ?v0 ?n"
    using same_file(1,2) fit by blast+
  obtain kp st2 where ld: "kernel_load st1 ?info = Inr (\<lparr>memory_image = \<lparr>kr_start = ucast kp, kr_size = kr_size (k_phys ?info)\<rparr>,
       loaded_virt = k_virt ?info, virtual_entry = e_entry (read_elf64_header (amem st1) a)\<rparr>, st2)"
    "4096 dvd unat kp" "loader_cursor st1 \<le> unat kp" "unat kp + ?n < loader_limit st1"
    "st2 = st1\<lparr>heap_phys_current := of_nat (unat kp + ?n), amem := amem st2, mem := (mem st1)\<lparr>region_kernel_image :=
       \<lparr>r_start = ucast kp, r_end = ucast kp + kr_size (k_phys ?info) - 1\<rparr>\<rparr>\<rparr>"
    "loaded_from (amem st1) a ?v0 kp 0 (amem st1) (amem st2)"
    by (rule kernel_load_result [OF refl info(1) elf1 fit1 info(2,3) heap1]) blast
  have "heap_phys_current st2 = of_nat (unat kp + ?n)" by (subst ld(5)) simp
  then have cursor2: "loader_cursor st2 = unat kp + ?n" using ld(4) heap1(2) by (simp add: unat_of_nat del: of_nat_add)
  note image = loaded_file [OF elf(2) keep ld(6)]
  have kept: "amem st2 x = m x"
    if "\<forall>i k. loads_at m a 0 i k \<longrightarrow> x \<noteq> seg_dest kp ?v0 (prog_header m a i) k" "\<not> in_range x 0xB8000 4000" for x
    using image(2) that(1) same(9) [OF that(2)] unfolding m_def by metis
  show ?thesis
    using an(1,4,6) ld(1-3) cursor2 image(1) kept same(2) same_file(3)
    by (intro exI [of _ ?info] exI [of _ st1] exI [of _ st2] exI [of _ kp] exI conjI) (simp; fail | blast)+
qed

text \<open>A file of 121 bytes at 1 MiB with one LOAD segment of one byte.\<close>

definition sample_elf :: "32 bytes" where
  "sample_elf = (\<lambda>_. 0)(0x100000 := 0x7F, 0x100001 := 0x45, 0x100002 := 0x4C, 0x100003 := 0x46, 0x100010 := 2,
     0x100012 := 0x3E, 0x100019 := 0x10, 0x100020 := 0x40, 0x100036 := 56, 0x100038 := 1, 0x100040 := 1, 0x100048 := 120,
     0x100051 := 0x10, 0x100060 := 1, 0x100068 := 2, 0x100078 := 0xAB)"

lemma load_le_numeral:
  "load_le (numeral k) m a = ucast (m a) OR push_bit 8 (load_le (pred_numeral k) m (a + 1))"
  by (simp add: numeral_eq_Suc)

lemma load_le_one: "load_le (Suc 0) m a = ucast (m a)"
  by simp

lemma sample_elf_header:
  "e_type (read_elf64_header sample_elf 0x100000) = 2" "e_machine (read_elf64_header sample_elf 0x100000) = 0x3E"
  "e_entry (read_elf64_header sample_elf 0x100000) = 0x1000" "e_phoff (read_elf64_header sample_elf 0x100000) = 0x40"
  "e_phentsize (read_elf64_header sample_elf 0x100000) = 56" "e_phnum (read_elf64_header sample_elf 0x100000) = 1"
  "elf_check (read_elf64_header sample_elf 0x100000)"
  by (simp_all add: read_elf64_header_def sample_elf_def load_le_numeral elf_check_def push_bit_eq_mult)

lemma sample_elf_pheader:
  "prog_header sample_elf 0x100000 0 =
     \<lparr>p_type = 1, p_flags = 0, p_offset = 120, p_vaddr = 0x1000, p_paddr = 0, p_filesz = 1, p_memsz = 2, p_align = 0\<rparr>"
  by (simp add: prog_header_def header_offset_def sample_elf_header read_elf64_pheader_def load_le_numeral)
    (simp add: sample_elf_def push_bit_eq_mult)

definition sample_loader :: loader where
  "sample_loader = (alloc_init loader_initial 0x200000)\<lparr>amem := sample_elf, console_data :=
     \<lparr>con_x = 0, con_y = 0, con_color = 0x0F, con_width = 80, con_height = 25, buffer_addr = 0xB8000\<rparr>\<rparr>"

definition sample_region :: kernel_region where "sample_region = \<lparr>kr_start = 0, kr_size = 0\<rparr>"

lemma sample_kernel_extent: "kernel_bytes sample_elf 0x100000 = 0x1000" "kernel_base sample_elf 0x100000 = 0x1000"
  by (simp_all add: kernel_bytes_def kernel_base_def load_headers_def sample_elf_header sample_elf_pheader
      memory_bytes_def round_page_def)

theorem kernel_image_loaded_witness:
  "\<exists>info st1 loaded st2 kp. kernel_analyse sample_loader \<lparr>image_start = 0x100000, image_end = 0x100079, k_phys = sample_region,
       k_virt = sample_region\<rparr> = Inr (info, st1) \<and> kernel_load st1 info = Inr (loaded, st2) \<and>
     kr_start (memory_image loaded) = ucast kp \<and> amem st2 kp = 0xAB"
proof -
  let ?info = "\<lparr>image_start = 0x100000, image_end = 0x100079, k_phys = sample_region, k_virt = sample_region\<rparr>"
  have f: "amem sample_loader = sample_elf" "alloc_enabled sample_loader" "heap_phys_current sample_loader = 0x200000"
    "heap_phys_limit sample_loader = 0x240000"
    by (simp_all add: sample_loader_def alloc_init_def AWD_ALLOC_SIZE_def)
  have screen: "text_ok sample_loader"
    by (simp add: sample_loader_def text_ok_def con_def con_ok_def alloc_init_def loader_initial_def Let_def
        awd_itoa_buffer_def awd_itoa64_buffer_def)
  have inside: "elf_inside sample_elf 0x100000 121"
    by (simp add: elf_inside_def sample_elf_header sample_elf_pheader header_offset_def)
  have fit: "segments_fit sample_elf 0x100000 0x1000 0x1000"
    by (simp add: segments_fit_def sample_elf_header sample_elf_pheader seg_offset_def)
  have at: "loads_at sample_elf 0x100000 0 0 0"
    by (simp add: loads_at_def sample_elf_header sample_elf_pheader)
  have byte: "sample_elf (seg_source 0x100000 (prog_header sample_elf 0x100000 0) 0) = 0xAB"
    by (simp add: seg_source_def sample_elf_pheader) (simp add: sample_elf_def)
  have dest: "seg_dest kp 0x1000 (prog_header sample_elf 0x100000 0) 0 = kp" for kp
    by (simp add: seg_dest_def seg_offset_def sample_elf_pheader)
  from kernel_image_loaded [of sample_loader ?info 121, unfolded f sample_kernel_extent]
  obtain info st1 loaded st2 kp where run: "kernel_analyse sample_loader ?info = Inr (info, st1)" "kernel_load st1 info = Inr (loaded, st2)"
    "kr_start (memory_image loaded) = ucast kp"
    and moved: "\<And>i k. loads_at sample_elf 0x100000 0 i k \<Longrightarrow>
       amem st2 (seg_dest kp 0x1000 (prog_header sample_elf 0x100000 i) k) = sample_elf (seg_source 0x100000 (prog_header sample_elf 0x100000 i) k)"
    using screen inside fit sample_elf_header(7) sample_kernel_extent by (auto simp: f)
  show ?thesis using run moved [OF at] by (auto simp: byte dest)
qed

section \<open>Finding the module\<close>

lemma find_module_least:
  assumes tag: "c_string m tag ts"
    and strings: "\<forall>i < unat num. c_string m (mod_cmdline (read_module m (addr + 16 * of_nat i))) (cs i)"
  shows "i \<le> unat num \<Longrightarrow> \<forall>k < i. cs k \<noteq> ts \<Longrightarrow> find_module m tag addr num (of_nat i) =
    Inr (if \<exists>k < unat num. cs k = ts then Some (addr + 16 * of_nat (LEAST k. k < unat num \<and> cs k = ts)) else None)"
proof (induction "unat num - i" arbitrary: i)
  case 0
  then have "unat (of_nat i :: u32) = unat num" using unat_lt_power [of num] by (simp add: unat_of_nat)
  then have "\<not> (of_nat i :: u32) < num" by (simp add: word_less_nat_alt)
  then show ?case using 0 by (subst find_module.simps) auto
next
  case (Suc c)
  then have i: "i < unat num" and u: "unat (of_nat i :: u32) = i" using unat_lt_power [of num] by (simp_all add: unat_of_nat)
  let ?p = "mod_cmdline (read_module m (addr + 16 * of_nat i))"
  have "c_string m ?p (cs i)" using strings i by blast
  note cmp = strcmp_c_string [OF this tag] and zero = byte_difference_0 [OF c_string_nonzero [OF this] c_string_nonzero [OF tag]]
  have lt: "(of_nat i :: u32) < num" using i u by (simp add: word_less_nat_alt)
  show ?case
  proof (cases "cs i = ts")
    case True
    then have "(LEAST k. k < unat num \<and> cs k = ts) = i" using Suc.prems(2) i by (intro Least_equality) (auto simp: not_less [symmetric])
    moreover have "find_module m tag addr num (of_nat i) = Inr (Some (addr + 16 * of_nat i))"
      using lt cmp zero True by (subst find_module.simps) (simp add: awd_strcmp_def)
    ultimately show ?thesis using True i by auto
  next
    case False
    have "find_module m tag addr num (of_nat i) = find_module m tag addr num (of_nat (Suc i))"
      using lt cmp zero False by (subst find_module.simps) (simp add: awd_strcmp_def add.commute)
    moreover have "c = unat num - Suc i" "Suc i \<le> unat num" using Suc.hyps(2) i by simp_all
    moreover have "\<forall>k < Suc i. cs k \<noteq> ts" using Suc.prems(2) False by (auto simp: less_Suc_eq)
    ultimately show ?thesis using Suc.hyps(1) [of "Suc i"] by simp
  qed
qed

text \<open>The loader takes the first module whose command line is the tag, whatever the others are; with
  modules of which none carries it the result is the null pointer, which \<open>multiboot_analyse\<close> then follows,
  and only without any module the machine is halted with a message.\<close>

theorem find_kernel_first_tagged:
  fixes st :: loader and mb :: u32
  defines "info \<equiv> read_multiboot_info (amem st) mb"
  assumes "c_string (amem st) tag ts"
    and "\<forall>i < unat (mods_count info). c_string (amem st) (mod_cmdline (read_module (amem st) (mods_addr info + 16 * of_nat i))) (cs i)"
  shows "multiboot_find_kernel tag st mb =
    (if \<exists>k < unat (mods_count info). cs k = ts
     then Inr (mods_addr info + 16 * of_nat (LEAST k. k < unat (mods_count info) \<and> cs k = ts), st)
     else if mods_count info = 0
     then awd_panic st ''multiboot: No kernel found, no modules were loaded by the multiboot bootloader.'' []
     else Inr (0, st))"
proof -
  have find: "find_module (amem st) tag (mods_addr info) (mods_count info) 0 =
      Inr (if \<exists>k < unat (mods_count info). cs k = ts
        then Some (mods_addr info + 16 * of_nat (LEAST k. k < unat (mods_count info) \<and> cs k = ts)) else None)"
    using find_module_least [OF assms(2,3), of 0] by simp
  have split: "(case if P then Some x else None of Some y \<Rightarrow> f y | None \<Rightarrow> z) = (if P then f x else z)"
    for P :: bool and x :: u32 and f and z :: "awd_stop + (u32 \<times> loader)" by simp
  show ?thesis unfolding multiboot_find_kernel_def Let_def info_def [symmetric] find bind_r.simps split ..
qed

text \<open>Three modules; the second and the third are tagged with the text at 0x900.\<close>

definition sample_modules :: loader where
  "sample_modules = loader_initial\<lparr>amem := (\<lambda>_. 0)(0x114 := 3, 0x119 := 2, 0x209 := 8, 0x219 := 9, 0x229 := 9, 0x900 := 0x6B)\<rparr>"

theorem find_kernel_first_tagged_witness:
  "multiboot_find_kernel 0x900 sample_modules 0x100 = Inr (0x210, sample_modules)"
proof -
  let ?info = "read_multiboot_info (amem sample_modules) 0x100" and ?cs = "\<lambda>i::nat. if i = 0 then [] else [0x6B :: u8]"
  have info: "mods_count ?info = 3" "mods_addr ?info = 0x200"
    by (simp_all add: read_multiboot_info_def load_le_numeral sample_modules_def)
  have strings: "c_string (amem sample_modules) (mod_cmdline (read_module (amem sample_modules) (0x200 + 16 * of_nat i))) (?cs i)"
    if "i < 3" for i
  proof -
    have "i = 0 \<or> i = 1 \<or> i = 2" using that by auto
    then show ?thesis
      by (elim disjE) (simp_all add: read_module_def load_le_numeral sample_modules_def)
  qed
  have tag: "c_string (amem sample_modules) 0x900 [0x6B]" by (simp add: sample_modules_def)
  have "(LEAST k. k < 3 \<and> ?cs k = [0x6B]) = 1" by (rule Least_equality) (auto simp: Suc_le_eq split: if_splits)
  then show ?thesis using find_kernel_first_tagged [OF tag, of "0x100" ?cs] strings by (auto simp: info)
qed

end
