(* ===== verification/Loader_Paging.thy ===== *)
theory Loader_Paging
  imports Loader_Kernel Page_Tables
begin

text \<open>
  The page tables that the loader hands to the kernel, src/awd/memory/paging.c: a queue of regions to
  map, and the four-level tables that \<open>paging_commit\<close> builds from it in memory that \<open>malloc_aligned\<close>
  gives out.  Pointers have 32 bits; \<open>pml4\<close> is the address of \<open>paging_pml4\<close>, which the linker decides.
\<close>

section \<open>The code\<close>

definition PAGING_QUEUE_MAX :: u32 where "PAGING_QUEUE_MAX = 10"
definition PAGING_ATTRIBUTE_READWRITE :: u8 where "PAGING_ATTRIBUTE_READWRITE = 0b11"

text \<open>The queue is not guarded: a store past its end is the outcome \<open>Queue_overrun\<close>.\<close>

definition paging_queue_mapping :: "loader \<Rightarrow> u64 \<Rightarrow> u64 \<Rightarrow> u64 \<Rightarrow> u64 \<Rightarrow> u8 \<Rightarrow> awd_stop + loader" where
  "paging_queue_mapping st ps pe vs ve attribute =
     (if paging_queue_num st < PAGING_QUEUE_MAX
      then Inr (st\<lparr>paging_queue := (paging_queue st)[unat (paging_queue_num st) :=
                     \<lparr>phys_start = ps, phys_end = pe, virt_start = vs, virt_end = ve, map_attribute = attribute\<rparr>],
                  paging_queue_num := paging_queue_num st + 1\<rparr>)
      else Inl Queue_overrun)"

definition paging_queue_print :: "loader \<Rightarrow> awd_stop + loader" where
  "paging_queue_print st =
     bind_r (log_info st (''paging: Printing queue (n=%d)'' @ newline) [Slot (paging_queue_num st)]) (\<lambda>st.
     fold_r (\<lambda>st i. let q = paging_queue st ! i in
         log_info st (''%2d: 0x%016p-0x%016p 0x%016p-0x%016p'' @ newline)
           (Slot (of_nat i) # arg64 (phys_start q) @ arg64 (phys_end q) @ arg64 (virt_start q) @ arg64 (virt_end q)))
       [0..<min (unat (paging_queue_num st)) (unat PAGING_QUEUE_MAX)] st)"

definition paging_init :: "loader \<Rightarrow> kernel_loaded_info \<Rightarrow> awd_stop + loader" where
  "paging_init st kinfo =
     (let kernel_mem_base = 0xFFFFFFFF80000000; rw = PAGING_ATTRIBUTE_READWRITE;
          low = region_low_memory (mem st); awd = region_awd_image (mem st); heap = region_awd_malloc (mem st);
          image = memory_image kinfo; virt = kr_start (loaded_virt kinfo) in
      bind_r (paging_queue_mapping st (r_start low) (r_end low) (r_start low) (r_end low) rw) (\<lambda>st.
      bind_r (paging_queue_mapping st (r_start awd) (r_end awd) (r_start awd) (r_end awd) rw) (\<lambda>st.
      bind_r (paging_queue_mapping st (r_start heap) (r_end heap) (r_start heap) (r_end heap) rw) (\<lambda>st.
      bind_r (paging_queue_mapping st 0 0x200000 (0x0 + kernel_mem_base) (0x200000 + kernel_mem_base) rw) (\<lambda>st.
      bind_r (paging_queue_mapping st (kr_start image) (kr_start image + kr_size image) virt (virt + kr_size image) rw) (\<lambda>st.
      paging_queue_print st))))))"

text \<open>Create or load the table under an entry: the block that \<open>paging_map_page\<close> has three times.\<close>

definition paging_table :: "loader \<Rightarrow> u32 \<Rightarrow> u32 \<Rightarrow> awd_stop + (u32 \<times> loader)" where
  "paging_table st pg index =
     (let attribute = 0b11; attribute_mask = NOT attribute; entry = load64 (amem st) (pg + 8 * index) in
      if entry = 0 then
        bind_r (malloc_aligned st 0x1000 0x1000) (\<lambda>(n, st).
        Inr (n, st\<lparr>amem := store64 (amem st) (pg + 8 * index) (ucast (n OR attribute))\<rparr>))
      else Inr (ucast entry AND attribute_mask, st))"

definition paging_map_page :: "u32 \<Rightarrow> loader \<Rightarrow> u64 \<Rightarrow> u64 \<Rightarrow> u8 \<Rightarrow> awd_stop + loader" where
  "paging_map_page pml4 st phys virt page_attr =
     (let p4 = ucast (drop_bit 39 virt AND 511); p3 = ucast (drop_bit 30 virt AND 511);
          p2 = ucast (drop_bit 21 virt AND 511); p1 = ucast (drop_bit 12 virt AND 511) in
      bind_r (paging_table st pml4 p4) (\<lambda>(pg_p3, st).
      bind_r (paging_table st pg_p3 p3) (\<lambda>(pg_p2, st).
      bind_r (paging_table st pg_p2 p2) (\<lambda>(pg_p1, st).
      Inr (st\<lparr>amem := store64 (amem st) (pg_p1 + 8 * p1) (phys OR ucast page_attr)\<rparr>)))))"

text \<open>The two loops of \<open>paging_commit\<close> over the pages of a region and over the entries of the root.  The
  counter of the first has 64 bits and may wrap; then the loop does not end.\<close>

partial_function (option) paging_map_region :: "u32 \<Rightarrow> awd_mapped_region \<Rightarrow> loader \<Rightarrow> u64 \<Rightarrow> (awd_stop + loader) option" where
  "paging_map_region pml4 region st j =
     (if j < virt_end region - virt_start region then
        case paging_map_page pml4 st (phys_start region + j) (virt_start region + j) (map_attribute region) of
          Inl e \<Rightarrow> Some (Inl e)
        | Inr st \<Rightarrow> paging_map_region pml4 region st (j + 0x1000)
      else Some (Inr st))"

definition paging_clear :: "32 bytes \<Rightarrow> u32 \<Rightarrow> 32 bytes" where
  "paging_clear m pml4 = foldl (\<lambda>m i. store64 m (pml4 + 8 * of_nat i) 0) m [0..<512]"

definition paging_enable :: "u32 \<Rightarrow> loader \<Rightarrow> loader" where
  "paging_enable pml4 st = st\<lparr>paging_cr3 := Some pml4\<rparr>"

text \<open>One round of the loop over the queue.\<close>

definition commit_region :: "u32 \<Rightarrow> loader \<Rightarrow> nat \<Rightarrow> awd_stop + loader" where
  "commit_region p4 st i = (if PAGING_QUEUE_MAX \<le> of_nat i then Inl Queue_overrun
     else case paging_map_region p4 (paging_queue st ! i) st 0 of Some r \<Rightarrow> r | None \<Rightarrow> Inl Endless)"

definition paging_commit :: "u32 \<Rightarrow> loader \<Rightarrow> awd_stop + loader" where
  "paging_commit pml4 st =
     (let st = st\<lparr>amem := paging_clear (amem st) pml4\<rparr> in
      bind_r (fold_r (commit_region pml4) [0..<unat (paging_queue_num st)] st) (\<lambda>st.
      let st = paging_enable pml4 st in
      log_info st (''paging: All pages mapped into memory.'' @ newline) []))"

section \<open>The tables as a tree\<close>

definition awd_table_of :: "u64 \<Rightarrow> u32" where "awd_table_of e = ucast e AND NOT 0b11"
definition awd_table_entry :: "u32 \<Rightarrow> u64" where "awd_table_entry t = ucast (t OR 0b11)"

abbreviation awd_walk :: "32 bytes \<Rightarrow> u32 \<Rightarrow> u64 list \<Rightarrow> u32 option" where
  "awd_walk m \<equiv> tree_walk awd_table_of (slot m)"

definition awd_pte :: "32 bytes \<Rightarrow> u32 \<Rightarrow> u64 \<Rightarrow> u64" where
  "awd_pte m p4 v = tree_leaf awd_table_of (slot m) p4 (table_path v) (index_p1 v)"

lemma awd_table_entry_nonzero: "awd_table_entry t \<noteq> 0"
proof
  assume "awd_table_entry t = 0"
  then have "bit (awd_table_entry t) 0 = bit (0 :: u64) 0" by simp
  then show False by (simp add: awd_table_entry_def bit_simps)
qed

lemma awd_table_of_entry:
  assumes "4096 dvd unat t"
  shows "awd_table_of (awd_table_entry t) = t"
proof -
  have "t = push_bit 12 (drop_bit 12 t)"
  proof -
    have "unat t mod 2 ^ 12 = 0" using assms by (simp add: dvd_eq_mod_eq_0)
    then have "take_bit 12 t = 0" by (simp add: word_unat_eq_iff unsigned_take_bit_eq take_bit_eq_mod unat_mod)
    then show ?thesis using bits_ident [of 12 t] by simp
  qed
  then have low: "\<not> bit t n" if "n < 12" for n
    using that by (metis bit_push_bit_iff not_le)
  have "(ucast (ucast (t OR mask 2) :: u64) :: u32) AND NOT (mask 2) = t"
    using low by (intro bit_word_eqI) (auto simp: bit_simps)
  then show ?thesis by (simp add: awd_table_of_def awd_table_entry_def mask_eq_exp_minus_1)
qed

interpretation loader_tree: page_tree awd_table_of awd_table_entry "\<lambda>t. 4096 dvd unat t"
  by unfold_locales (simp_all add: awd_table_entry_nonzero awd_table_of_entry)

text \<open>
  The tables: aligned, below the heap's end, the root or a block taken from the heap after it had
  reached \<open>lo\<close>.  The free part of the heap has to be zero, as the loader does not clear a new table.
\<close>

definition tab_ok :: "nat \<Rightarrow> u32 \<Rightarrow> nat \<Rightarrow> u32 \<Rightarrow> bool" where
  "tab_ok lo p4 c t \<longleftrightarrow> 4096 dvd unat t \<and> unat t + 4096 \<le> c \<and> (t = p4 \<or> lo \<le> unat t)"

lemma awd_table_entry_or: "awd_table_entry t = ucast t OR 0b11"
proof -
  have "(ucast (t OR mask 2) :: u64) = ucast t OR mask 2" by (rule bit_word_eqI) (auto simp: bit_simps)
  then show ?thesis by (simp add: awd_table_entry_def mask_eq_exp_minus_1)
qed

text \<open>An entry that links a table: a page-aligned address with the present and the write bit, no other.\<close>

definition awd_link :: "u64 \<Rightarrow> bool" where
  "awd_link e \<longleftrightarrow> e = awd_table_entry (awd_table_of e) \<and> 4096 dvd unat (awd_table_of e)"

lemma awd_link_entry: "4096 dvd unat t \<Longrightarrow> awd_link (awd_table_entry t)"
  by (simp add: awd_link_def awd_table_of_entry)

definition loader_vm :: "nat \<Rightarrow> u32 \<Rightarrow> loader \<Rightarrow> bool" where
  "loader_vm lo p4 st \<longleftrightarrow> alloc_enabled st \<and> lo \<le> loader_cursor st \<and> loader_cursor st \<le> loader_limit st \<and>
     loader_limit st \<le> 2 ^ 32 \<and>
     (\<forall>a. loader_cursor st \<le> unat a \<and> unat a < loader_limit st \<longrightarrow> amem st a = 0) \<and>
     tree_inv awd_table_of (slot (amem st)) (tab_ok lo p4 (loader_cursor st)) p4 \<and>
     tree_links awd_link awd_table_of (slot (amem st)) p4"

text \<open>Building tables leaves the memory below \<open>lo\<close>, the root apart, and all other variables alone.\<close>

definition paging_frame :: "nat \<Rightarrow> u32 \<Rightarrow> loader \<Rightarrow> loader \<Rightarrow> bool" where
  "paging_frame lo p4 st st' \<longleftrightarrow> (\<forall>a. unat a < lo \<and> \<not> table_bytes p4 a \<longrightarrow> amem st' a = amem st a) \<and>
     st' = st\<lparr>amem := amem st', heap_phys_current := heap_phys_current st'\<rparr>"

lemma paging_frame_refl [simp]: "paging_frame lo p4 st st"
  by (simp add: paging_frame_def)

lemma paging_frame_fields:
  assumes "paging_frame lo p4 st st'"
  shows "console_data st' = console_data st" "number_buffers st' = number_buffers st"
    "heap_phys_base st' = heap_phys_base st" "heap_phys_limit st' = heap_phys_limit st"
    "alloc_enabled st' = alloc_enabled st" "mem st' = mem st" "paging_queue_num st' = paging_queue_num st"
    "paging_queue st' = paging_queue st" "paging_cr3 st' = paging_cr3 st"
proof -
  have e: "st' = st\<lparr>amem := amem st', heap_phys_current := heap_phys_current st'\<rparr>"
    using assms by (simp add: paging_frame_def)
  show "console_data st' = console_data st" "number_buffers st' = number_buffers st"
    "heap_phys_base st' = heap_phys_base st" "heap_phys_limit st' = heap_phys_limit st"
    "alloc_enabled st' = alloc_enabled st" "mem st' = mem st" "paging_queue_num st' = paging_queue_num st"
    "paging_queue st' = paging_queue st" "paging_cr3 st' = paging_cr3 st"
    by (subst e, simp)+
qed

lemma paging_frame_trans:
  assumes "paging_frame lo p4 s t" and "paging_frame lo p4 t u"
  shows "paging_frame lo p4 s u"
proof -
  have "t = s\<lparr>amem := amem t, heap_phys_current := heap_phys_current t\<rparr>"
    "u = t\<lparr>amem := amem u, heap_phys_current := heap_phys_current u\<rparr>"
    using assms by (simp_all add: paging_frame_def)
  then have "u = s\<lparr>amem := amem u, heap_phys_current := heap_phys_current u\<rparr>"
    by (cases s; cases t; cases u) simp
  then show ?thesis using assms by (simp add: paging_frame_def)
qed

text \<open>Room in the heap for the tables that are missing on the paths of \<open>P\<close>, and for \<open>spare\<close> bytes after them.\<close>

definition room_for :: "nat \<Rightarrow> u32 \<Rightarrow> u64 list set \<Rightarrow> loader \<Rightarrow> bool" where
  "room_for spare p4 P st \<longleftrightarrow> finite P \<and> (\<forall>is \<in> P. path is) \<and>
     round_page (loader_cursor st) + 4096 * card {is \<in> P. awd_walk (amem st) p4 is = None} + spare < loader_limit st"

definition loader_step :: "nat \<Rightarrow> nat \<Rightarrow> u32 \<Rightarrow> u64 list set \<Rightarrow> loader \<Rightarrow> loader \<Rightarrow> bool" where
  "loader_step lo spare p4 P st st' \<longleftrightarrow> loader_vm lo p4 st' \<and> room_for spare p4 P st' \<and> paging_frame lo p4 st st' \<and>
     (\<forall>w. awd_pte (amem st') p4 w = awd_pte (amem st) p4 w)"

lemma new_loader_table:
  assumes vm: "loader_vm lo p4 st" and room: "room_for spare p4 P st" and P: "is @ [i] \<in> P" "path (is @ [i])"
    and t: "awd_walk (amem st) p4 is = Some t" and none: "slot (amem st) t i = 0"
  obtains n where "malloc_aligned st 0x1000 0x1000 = Inr (n, st\<lparr>heap_phys_current := of_nat (unat n + 4096)\<rparr>)"
    "unat n = round_page (loader_cursor st)" "unat n + 4096 < loader_limit st"
    "4096 * (card {is \<in> P. awd_walk (amem st) p4 is = None} - 1) + unat n + 4096 + spare < loader_limit st"
proof -
  note v = vm [unfolded loader_vm_def]
  let ?c = "loader_cursor st" and ?M = "{is \<in> P. awd_walk (amem st) p4 is = None}"
  have "awd_walk (amem st) p4 (is @ [i]) = None" using t none by (simp add: walk_snoc tree_next_def)
  then have "is @ [i] \<in> ?M" "finite ?M" using P room by (auto simp: room_for_def)
  then have "0 < card ?M" using card_gt_0_iff by blast
  then have less: "round_page ?c + 4096 * (card ?M - 1) + 4096 + spare < loader_limit st"
    using room by (cases "card ?M") (simp_all add: room_for_def)
  from v have "alloc_enabled st" "?c \<le> loader_limit st" "loader_limit st \<le> 2 ^ 32" by simp_all
  from malloc_aligned_block [OF this, of "0x1000" "0x1000"] obtain b where
    b: "4096 dvd b" "?c \<le> b" "b < ?c + 4096"
      "b + 4096 < loader_limit st \<Longrightarrow> malloc_aligned st 0x1000 0x1000 = Inr (of_nat b, st\<lparr>heap_phys_current := of_nat (b + 4096)\<rparr>)"
    by (auto simp: effective_alignment_def)
  have rb: "round_page ?c = b" by (rule round_page_unique [OF b(1-3)])
  then have "unat (of_nat b :: u32) = b" using less v by (simp add: unat_of_nat)
  then show thesis using that [of "of_nat b"] b(4) rb less by simp
qed

lemma room_for_step:
  assumes room: "room_for spare p4 P st" and P: "is @ [i] \<in> P"
    and t: "awd_walk (amem st) p4 is = Some t" and none: "slot (amem st) t i = 0"
    and less: "\<And>js. js \<in> P \<Longrightarrow> awd_walk (amem st') p4 js = None \<Longrightarrow> awd_walk (amem st) p4 js = None \<and> js \<noteq> is @ [i]"
    and cursor: "4096 dvd loader_cursor st'" "4096 * (card {is \<in> P. awd_walk (amem st) p4 is = None} - 1) + loader_cursor st' + spare < loader_limit st'"
  shows "room_for spare p4 P st'"
proof -
  let ?M = "{is \<in> P. awd_walk (amem st) p4 is = None}" and ?M' = "{is \<in> P. awd_walk (amem st') p4 is = None}"
  have fin: "finite P" using room by (simp add: room_for_def)
  have "is @ [i] \<in> ?M" using t none P by (simp add: walk_snoc tree_next_def)
  moreover have "?M' \<subseteq> ?M - {is @ [i]}" using less by blast
  ultimately have "card ?M' \<le> card ?M - 1" using fin card_mono [of "?M - {is @ [i]}" ?M'] by simp
  moreover have "round_page (loader_cursor st') = loader_cursor st'" using cursor(1) by (intro round_page_unique) simp_all
  ultimately show ?thesis using cursor(2) room by (simp add: room_for_def)
qed

text \<open>The entries after the address of a zero page behind the tables was stored in an entry of a table.\<close>

lemma link_slots:
  assumes tok: "tab_ok lo p4 c t" and i: "i < 512" and n: "4096 dvd unat n" "c \<le> unat n"
    and zero: "\<And>a. table_bytes n a \<Longrightarrow> m a = 0" and m': "m' = store64 m (table_slot t i) (awd_table_entry n)"
  shows "slot m' t i = awd_table_entry n" "j < 512 \<Longrightarrow> slot m' n j = 0"
    "tab_ok lo p4 c u \<Longrightarrow> j < 512 \<Longrightarrow> (u, j) \<noteq> (t, i) \<Longrightarrow> slot m' u j = slot m u j"
    "\<not> table_bytes t a \<Longrightarrow> m' a = m a"
proof -
  have al: "4096 dvd unat u" if "tab_ok lo p4 c u" for u using that by (simp add: tab_ok_def)
  have slot': "slot m' u j = (if u = t \<and> j = i then awd_table_entry n else slot m u j)"
    if "4096 dvd unat u" "j < 512" for u j
    unfolding m' using slot_store [OF al [OF tok] that(1) _ i that(2)] by simp
  show "slot m' t i = awd_table_entry n" using slot' [OF al [OF tok] i] by simp
  have "n \<noteq> t" using tok n(2) by (auto simp: tab_ok_def)
  moreover have "slot m n j = 0" if "j < 512" for j by (rule slot_zero [OF that]) (simp_all add: zero)
  ultimately show "slot m' n j = 0" if "j < 512" using slot' [OF n(1) that] that by simp
  show "slot m' u j = slot m u j" if "tab_ok lo p4 c u" "j < 512" "(u, j) \<noteq> (t, i)"
    using slot' [OF al [OF that(1)] that(2)] that(3) by auto
  show "m' a = m a" if "\<not> table_bytes t a"
    using that slot_range [OF i, of a t] by (auto simp: m' store_le_def)
qed

lemma paging_table_new:
  assumes vm: "loader_vm lo p4 st" and room: "room_for spare p4 P st" and P: "is @ [i] \<in> P" "path (is @ [i])"
    and t: "awd_walk (amem st) p4 is = Some t" and none: "slot (amem st) t i = 0"
  shows "\<exists>n st'. paging_table st t (ucast i) = Inr (n, st') \<and> loader_step lo spare p4 P st st' \<and>
    awd_walk (amem st') p4 (is @ [i]) = Some n"
proof -
  note v = vm [unfolded loader_vm_def]
  let ?m = "amem st" and ?c = "loader_cursor st" and ?M = "{is \<in> P. awd_walk (amem st) p4 is = None}"
  obtain n where n: "malloc_aligned st 0x1000 0x1000 = Inr (n, st\<lparr>heap_phys_current := of_nat (unat n + 4096)\<rparr>)"
    "unat n = round_page ?c" "unat n + 4096 < loader_limit st" "4096 * (card ?M - 1) + unat n + 4096 + spare < loader_limit st"
    by (rule new_loader_table [OF vm room P t none])
  define m' where "m' = store64 ?m (table_slot t i) (awd_table_entry n)"
  define st' where "st' = st\<lparr>amem := m', heap_phys_current := of_nat (unat n + 4096)\<rparr>"
  have i: "i < 512" and is_path: "path is" using P(2) by simp_all
  have tree: "tree_inv awd_table_of (slot ?m) (tab_ok lo p4 ?c) p4" using v by simp
  have tok: "tab_ok lo p4 ?c t" by (rule tree_inv_ok [OF tree is_path t])
  have nc: "?c \<le> unat n" "4096 dvd unat n" using round_page_bounds [of ?c] n(2) by simp_all
  have c': "loader_cursor st' = unat n + 4096"
    using n(3) v by (simp add: st'_def unat_of_nat del: of_nat_add)
  have "?m a = 0" if "table_bytes n a" for a
    using table_bytes_unat [OF nc(2), of a] nc(1) n(3) v that by simp
  note slots = link_slots [OF tok i nc(2,1) this m'_def]
  have new: "\<not> tab_ok lo p4 ?c n" "tab_ok lo p4 (unat n + 4096) n"
    using nc v by (auto simp: tab_ok_def)
  have keep: "tab_ok lo p4 (unat n + 4096) u" if "tab_ok lo p4 ?c u" for u
    using that nc(1) by (auto simp: tab_ok_def)
  note lk = loader_tree.link_table [where ent' = "slot m'" and ok' = "tab_ok lo p4 (unat n + 4096)",
      OF tree t P(2) none slots(1) nc(2) slots(2,3) new keep]
  have links: "tree_links awd_link awd_table_of (slot ?m) p4" using v by simp
  note links' = loader_tree.link_links [where ent' = "slot m'", OF tree t P(2) none slots(1) nc(2) slots(2,3) links awd_link_entry [OF nc(2)]]
  note bytes = slots(4)
  have t_below: "unat a < ?c" if "table_bytes t a" for a
    using that tok table_bytes_unat [of t a] by (auto simp: tab_ok_def)
  have zero_heap: "m' a = 0" if "unat n + 4096 \<le> unat a" "unat a < loader_limit st" for a
    using bytes [of a] t_below [of a] that nc(1) v by auto
  have vm': "loader_vm lo p4 st'"
    unfolding loader_vm_def c'
    using lk(1) links' zero_heap v nc(1) n(3) by (simp add: st'_def)
  have P': "\<And>is. is \<in> P \<Longrightarrow> path is" using room by (simp add: room_for_def)
  have "awd_walk m' p4 js = None \<Longrightarrow> awd_walk ?m p4 js = None \<and> js \<noteq> is @ [i]" if "js \<in> P" for js
    using lk(2,3) P' [OF that] by fastforce
  then have "room_for spare p4 P st'"
    using room_for_step [OF room P(1) t none, of st'] n(4) nc(2) c' by (simp add: st'_def)
  have frame: "paging_frame lo p4 st st'"
    using bytes tok table_bytes_unat [of t] by (auto simp: paging_frame_def st'_def tab_ok_def)
  have pte: "awd_pte (amem st') p4 w = awd_pte (amem st) p4 w" for w
    using lk(4) by (simp add: awd_pte_def st'_def)
  have run: "paging_table st t (ucast i) = Inr (n, st')"
    using none n(1) by (simp add: paging_table_def slot_def table_slot_def Let_def st'_def m'_def awd_table_entry_def)
  show ?thesis using run vm' \<open>room_for spare p4 P st'\<close> frame pte lk(2) by (auto simp: loader_step_def st'_def)
qed

lemma loader_step_refl: "loader_vm lo p4 st \<Longrightarrow> room_for spare p4 P st \<Longrightarrow> loader_step lo spare p4 P st st"
  by (simp add: loader_step_def)

lemma loader_step_trans: "loader_step lo spare p4 P s t \<Longrightarrow> loader_step lo spare p4 P t u \<Longrightarrow> loader_step lo spare p4 P s u"
  by (auto simp: loader_step_def elim: paging_frame_trans)

lemma paging_table_step:
  assumes vm: "loader_vm lo p4 st" and room: "room_for spare p4 P st" and P: "is @ [i] \<in> P" "path (is @ [i])"
    and t: "awd_walk (amem st) p4 is = Some t"
  shows "\<exists>n st'. paging_table st t (ucast i) = Inr (n, st') \<and> loader_step lo spare p4 P st st' \<and>
    awd_walk (amem st') p4 (is @ [i]) = Some n"
proof (cases "slot (amem st) t i = 0")
  case False
  then have "paging_table st t (ucast i) = Inr (awd_table_of (slot (amem st) t i), st)"
    by (simp add: paging_table_def slot_def table_slot_def awd_table_of_def Let_def)
  moreover have "awd_walk (amem st) p4 (is @ [i]) = Some (awd_table_of (slot (amem st) t i))"
    using t False by (simp add: walk_snoc tree_next_def)
  ultimately show ?thesis using loader_step_refl [OF vm room] by blast
qed (rule paging_table_new [OF assms])

text \<open>The tables that a page needs, and what mapping it does.\<close>

definition prefixes_of :: "u64 \<Rightarrow> u64 list set" where
  "prefixes_of v = {[index_p4 v], [index_p4 v, index_p3 v], table_path v}"

lemma paging_store_leaf:
  assumes vm: "loader_vm lo p4 st" and room: "room_for spare p4 P st" and t: "awd_walk (amem st) p4 (table_path v) = Some t"
    and st': "st' = st\<lparr>amem := store64 (amem st) (table_slot t (index_p1 v)) e\<rparr>"
  shows "loader_vm lo p4 st'" "room_for spare p4 P st'" "paging_frame lo p4 st st'"
    "awd_pte (amem st') p4 w = (if vpage w = vpage v then e else awd_pte (amem st) p4 w)"
proof -
  note v = vm [unfolded loader_vm_def]
  let ?m = "amem st" and ?m' = "amem st'" and ?c = "loader_cursor st"
  have tree: "tree_inv awd_table_of (slot ?m) (tab_ok lo p4 ?c) p4" using v by simp
  have tok: "tab_ok lo p4 ?c t" by (rule tree_inv_ok [OF tree path_table_path(1) t])
  have ent: "slot ?m' u j = (if u = t \<and> j = index_p1 v then e else slot ?m u j)" if "tab_ok lo p4 ?c u" "j < 512" for u j
    using slot_store [of t u "index_p1 v" j ?m e] tok that by (simp add: tab_ok_def st')
  note leaf = loader_tree.store_leaf [where ent' = "slot ?m'", OF tree t path_table_path ent]
  have "tree_links awd_link awd_table_of (slot ?m) p4" using v by simp
  note links = loader_tree.leaf_links [where ent' = "slot ?m'", OF tree t path_table_path ent this]
  have bytes: "?m' a = ?m a" if "\<not> table_bytes t a" for a
    using that slot_range [OF index_less(4), of a t] by (auto simp: st' store_le_def)
  have below: "unat a < ?c" if "table_bytes t a" for a
    using that tok table_bytes_unat [of t a] by (auto simp: tab_ok_def)
  have same: "loader_cursor st' = ?c" "loader_limit st' = loader_limit st" "alloc_enabled st' = alloc_enabled st"
    by (simp_all add: st')
  have "?m' a = 0" if "?c \<le> unat a" "unat a < loader_limit st" for a
    using bytes [of a] below [of a] that v by (cases "table_bytes t a") auto
  then show "loader_vm lo p4 st'" using leaf(2) links v by (simp add: loader_vm_def same)
  have "{is \<in> P. awd_walk ?m' p4 is = None} = {is \<in> P. awd_walk ?m p4 is = None}"
    using leaf(1) room by (auto simp: room_for_def)
  then show "room_for spare p4 P st'" using room by (simp add: room_for_def same)
  show "paging_frame lo p4 st st'"
    using bytes tok table_bytes_unat [of t] by (auto simp: paging_frame_def st' tab_ok_def)
  show "awd_pte ?m' p4 w = (if vpage w = vpage v then e else awd_pte ?m p4 w)"
    using leaf(3) by (simp add: awd_pte_def vpage_eq)
qed

lemma map_page_step:
  assumes vm: "loader_vm lo p4 st" and room: "room_for spare p4 P st" and P: "prefixes_of v \<subseteq> P"
  shows "\<exists>st'. paging_map_page p4 st ph v attr = Inr st' \<and> loader_vm lo p4 st' \<and> room_for spare p4 P st' \<and>
    paging_frame lo p4 st st' \<and>
    (\<forall>w. awd_pte (amem st') p4 w = (if vpage w = vpage v then ph OR ucast attr else awd_pte (amem st) p4 w))"
proof -
  have paths: "path [index_p4 v]" "path [index_p4 v, index_p3 v]" by (simp_all add: path_def)
  obtain t3 s3 where 3: "paging_table st p4 (ucast (index_p4 v)) = Inr (t3, s3)" "loader_step lo spare p4 P st s3"
      "awd_walk (amem s3) p4 [index_p4 v] = Some t3"
    using paging_table_step [OF vm room, of "[]" "index_p4 v" p4] P paths by (auto simp: prefixes_of_def)
  then have v3: "loader_vm lo p4 s3" "room_for spare p4 P s3" by (simp_all add: loader_step_def)
  obtain t2 s2 where 2: "paging_table s3 t3 (ucast (index_p3 v)) = Inr (t2, s2)" "loader_step lo spare p4 P s3 s2"
      "awd_walk (amem s2) p4 [index_p4 v, index_p3 v] = Some t2"
    using paging_table_step [OF v3, of "[index_p4 v]" "index_p3 v" t3] P paths 3(3) by (auto simp: prefixes_of_def)
  then have v2: "loader_vm lo p4 s2" "room_for spare p4 P s2" by (simp_all add: loader_step_def)
  obtain t1 s1 where 1: "paging_table s2 t2 (ucast (index_p2 v)) = Inr (t1, s1)" "loader_step lo spare p4 P s2 s1"
      "awd_walk (amem s1) p4 (table_path v) = Some t1"
    using paging_table_step [OF v2, of "[index_p4 v, index_p3 v]" "index_p2 v" t2] P path_table_path(1) [of v] 2(3)
    by (auto simp: prefixes_of_def table_path_def)
  then have v1: "loader_vm lo p4 s1" "room_for spare p4 P s1" by (simp_all add: loader_step_def)
  have step: "loader_step lo spare p4 P st s1" by (rule loader_step_trans [OF 3(2) loader_step_trans [OF 2(2) 1(2)]])
  let ?st' = "s1\<lparr>amem := store64 (amem s1) (table_slot t1 (index_p1 v)) (ph OR ucast attr)\<rparr>"
  have "paging_map_page p4 st ph v attr = Inr ?st'"
    using 1(1) 2(1) 3(1)
    by (simp add: paging_map_page_def Let_def index_p4_def index_p3_def index_p2_def index_p1_def table_slot_def)
  moreover note leaf = paging_store_leaf [OF v1 1(3) refl, of "ph OR ucast attr"]
  moreover have "paging_frame lo p4 st ?st'"
    using step leaf(3) by (auto simp: loader_step_def elim: paging_frame_trans)
  ultimately show ?thesis using step leaf by (simp add: loader_step_def)
qed

section \<open>All the pages of the queue\<close>

text \<open>The pages of a region, and what a list of regions makes of a page: the last one that has it decides.\<close>

definition region_page :: "awd_mapped_region \<Rightarrow> nat \<Rightarrow> u64" where
  "region_page r k = virt_start r + of_nat k * 0x1000"

definition region_entry :: "awd_mapped_region \<Rightarrow> nat \<Rightarrow> u64" where
  "region_entry r k = (phys_start r + of_nat k * 0x1000) OR ucast (map_attribute r)"

definition region_count :: "awd_mapped_region \<Rightarrow> nat" where
  "region_count r = page_count (virt_end r - virt_start r)"

definition region_map :: "awd_mapped_region \<Rightarrow> (u64 \<times> u64) list" where
  "region_map r = map (\<lambda>k. (vpage (region_page r k), region_entry r k)) [0..<region_count r]"

definition last_entry :: "(u64 \<times> u64) list \<Rightarrow> u64 \<Rightarrow> u64 \<Rightarrow> u64" where
  "last_entry ps e v = (case map_of (rev ps) v of None \<Rightarrow> e | Some e' \<Rightarrow> e')"

definition tables_for :: "awd_mapped_region list \<Rightarrow> u64 list set" where
  "tables_for rs = (\<Union>r \<in> set rs. \<Union>k < region_count r. prefixes_of (region_page r k))"

text \<open>The counter of the loop does not wrap.\<close>

definition region_ok :: "awd_mapped_region \<Rightarrow> bool" where
  "region_ok r \<longleftrightarrow> unat (virt_end r - virt_start r) + 0x1000 \<le> 2 ^ 64"

lemma last_entry_simps [simp]:
  "last_entry [] e v = e" "last_entry (p # ps) e v = last_entry ps (if fst p = v then snd p else e) v"
  "last_entry (ps @ qs) e v = last_entry qs (last_entry ps e v) v"
  by (auto simp: last_entry_def map_add_def split: option.splits)

lemma tables_for_paths: "finite (tables_for rs)" "is \<in> tables_for rs \<Longrightarrow> path is"
  by (auto simp: tables_for_def prefixes_of_def path_def table_path_def)

text \<open>The loop over a region maps its pages one after the other.\<close>

lemma region_loop:
  assumes ok: "region_ok r" and "k \<le> region_count r"
  shows "paging_map_region p4 r st (of_nat k * 0x1000) =
    Some (fold_r (\<lambda>st k. paging_map_page p4 st (phys_start r + of_nat k * 0x1000) (region_page r k) (map_attribute r))
      [k..<region_count r] st)"
  using assms(2)
proof (induction "region_count r - k" arbitrary: k st)
  case (0 k)
  let ?sz = "virt_end r - virt_start r"
  have "unat ?sz \<le> 4096 * k" using 0 by (simp add: region_count_def page_count_def)
  moreover have "4096 * k < 2 ^ 64" using 0(2) ok by (simp add: region_count_def page_count_def region_ok_def)
  ultimately have "\<not> of_nat k * 0x1000 < ?sz"
    by (simp add: word_less_nat_alt unat_word_ariths unat_of_nat)
  then show ?case using 0 by (subst paging_map_region.simps) simp
next
  case (Suc n k)
  let ?sz = "virt_end r - virt_start r"
  have k: "k < region_count r" using Suc.hyps(2) by simp
  then have "4096 * k < unat ?sz" by (simp add: region_count_def page_count_def)
  moreover have "unat ?sz < 2 ^ 64" using unat_lt_power [of ?sz] by simp
  ultimately have lt: "of_nat k * 0x1000 < ?sz"
    by (simp add: word_less_nat_alt unat_word_ariths unat_of_nat)
  have next_j: "of_nat k * 0x1000 + 0x1000 = (of_nat (Suc k) * 0x1000 :: u64)" by (simp add: algebra_simps)
  have n: "n = region_count r - Suc k" "Suc k \<le> region_count r" using Suc.hyps(2) k by simp_all
  show ?case
    unfolding upt_conv_Cons [OF k]
    by (subst paging_map_region.simps)
      (simp only: lt if_True next_j Suc.hyps(1) [OF n] region_page_def fold_r.simps,
        simp split: sum.split)
qed

lemma map_region_pages:
  assumes "loader_vm lo p4 st" and "room_for spare p4 P st" and "\<forall>k \<in> set ks. prefixes_of (region_page r k) \<subseteq> P"
  shows "\<exists>st'. fold_r (\<lambda>st k. paging_map_page p4 st (phys_start r + of_nat k * 0x1000) (region_page r k) (map_attribute r)) ks st
      = Inr st' \<and> loader_vm lo p4 st' \<and> room_for spare p4 P st' \<and> paging_frame lo p4 st st' \<and>
    (\<forall>w. awd_pte (amem st') p4 w =
       last_entry (map (\<lambda>k. (vpage (region_page r k), region_entry r k)) ks) (awd_pte (amem st) p4 w) (vpage w))"
  using assms
proof (induction ks arbitrary: st)
  case (Cons k ks)
  obtain s1 where s1: "paging_map_page p4 st (phys_start r + of_nat k * 0x1000) (region_page r k) (map_attribute r) = Inr s1"
      "loader_vm lo p4 s1" "room_for spare p4 P s1" "paging_frame lo p4 st s1"
      "\<forall>w. awd_pte (amem s1) p4 w = (if vpage w = vpage (region_page r k) then region_entry r k else awd_pte (amem st) p4 w)"
    using map_page_step [OF Cons.prems(1,2), of "region_page r k" "phys_start r + of_nat k * 0x1000" "map_attribute r"]
      Cons.prems(3) unfolding region_entry_def by fastforce
  from Cons.IH [OF s1(2,3)] Cons.prems(3) obtain s2 where
    s2: "fold_r (\<lambda>st k. paging_map_page p4 st (phys_start r + of_nat k * 0x1000) (region_page r k) (map_attribute r)) ks s1
      = Inr s2" "loader_vm lo p4 s2" "room_for spare p4 P s2" "paging_frame lo p4 s1 s2"
    "\<forall>w. awd_pte (amem s2) p4 w =
       last_entry (map (\<lambda>k. (vpage (region_page r k), region_entry r k)) ks) (awd_pte (amem s1) p4 w) (vpage w)"
    by auto
  have "(if vpage w = vpage (region_page r k) then e else d) = (if vpage (region_page r k) = vpage w then e else d)"
    for e d :: u64 and w by simp
  then show ?case using s1(1,5) s2 paging_frame_trans [OF s1(4) s2(4)] by simp
qed simp

lemma commit_regions:
  assumes "loader_vm lo p4 st" and "room_for spare p4 P st"
    and "\<forall>i \<in> set js. i < 10 \<and> region_ok (q ! i) \<and> tables_for [q ! i] \<subseteq> P" and "paging_queue st = q"
  shows "\<exists>st'. fold_r (commit_region p4) js st = Inr st' \<and> loader_vm lo p4 st' \<and> room_for spare p4 P st' \<and>
    paging_frame lo p4 st st' \<and>
    (\<forall>w. awd_pte (amem st') p4 w =
       last_entry (concat (map (\<lambda>i. region_map (q ! i)) js)) (awd_pte (amem st) p4 w) (vpage w))"
  using assms
proof (induction js arbitrary: st)
  case (Cons i js)
  have "\<forall>k \<in> set [0..<region_count (q ! i)]. prefixes_of (region_page (q ! i) k) \<subseteq> P"
    using Cons.prems(3) by (fastforce simp: tables_for_def)
  from map_region_pages [OF Cons.prems(1,2) this] obtain s1 where
    s1: "fold_r (\<lambda>st k. paging_map_page p4 st (phys_start (q ! i) + of_nat k * 0x1000) (region_page (q ! i) k)
        (map_attribute (q ! i))) [0..<region_count (q ! i)] st = Inr s1"
      "loader_vm lo p4 s1" "room_for spare p4 P s1" "paging_frame lo p4 st s1"
      "\<forall>w. awd_pte (amem s1) p4 w = last_entry (region_map (q ! i)) (awd_pte (amem st) p4 w) (vpage w)"
    unfolding region_map_def by blast
  have "region_ok (q ! i)" using Cons.prems(3) by simp
  from region_loop [OF this, of 0 p4 st] s1(1) have loop: "paging_map_region p4 (q ! i) st 0 = Some (Inr s1)" by simp
  have "unat (of_nat i :: u32) = i" "i < 10" using Cons.prems(3) by (simp_all add: unat_of_nat)
  then have run: "commit_region p4 st i = Inr s1"
    using loop Cons.prems(4) by (simp add: commit_region_def PAGING_QUEUE_MAX_def word_le_nat_alt)
  have "paging_queue s1 = q" using paging_frame_fields(8) [OF s1(4)] Cons.prems(4) by simp
  with Cons.IH [OF s1(2,3)] Cons.prems(3) obtain s2 where
    s2: "fold_r (commit_region p4) js s1 = Inr s2" "loader_vm lo p4 s2" "paging_frame lo p4 s1 s2" "room_for spare p4 P s2"
    "\<forall>w. awd_pte (amem s2) p4 w =
       last_entry (concat (map (\<lambda>i. region_map (q ! i)) js)) (awd_pte (amem s1) p4 w) (vpage w)"
    by auto
  then show ?case using run s1(5) paging_frame_trans [OF s1(4) s2(3)] by simp
qed simp

section \<open>Clearing the root, and printing\<close>

lemma paging_clear_slots:
  fixes p4 :: u32
  assumes "4096 dvd unat p4" and "n \<le> 512" and m': "m' = foldl (\<lambda>m i. store64 m (p4 + 8 * of_nat i) 0) m [0..<n]"
  shows "(\<forall>j < 512. slot m' p4 j = (if unat j < n then 0 else slot m p4 j)) \<and> (\<forall>a. \<not> table_bytes p4 a \<longrightarrow> m' a = m a)"
  using assms(2) unfolding m'
proof (induction n)
  case (Suc n)
  let ?m = "foldl (\<lambda>m i. store64 m (p4 + 8 * of_nat i) 0) m [0..<n]" and ?i = "of_nat n :: u64"
  have n: "n < 512" using Suc.prems by simp
  then have u: "unat ?i = n" by (simp add: unat_of_nat)
  then have i: "?i < 512" using n by (simp add: word_less_nat_alt)
  have e: "(of_nat n :: u32) = ucast ?i" using n by (simp add: word_unat_eq_iff unat_of_nat unat_ucast_mod u)
  then have addr: "p4 + 8 * of_nat n = table_slot p4 ?i" by (simp only: table_slot_def e)
  have j: "unat j < Suc n \<longleftrightarrow> j = ?i \<or> unat j < n" for j by (auto simp: word_unat_eq_iff u)
  have IH: "slot ?m p4 j = (if unat j < n then 0 else slot m p4 j)" if "j < 512" for j using Suc that by simp
  have "slot (store64 ?m (table_slot p4 ?i) 0) p4 j = (if unat j < Suc n then 0 else slot m p4 j)" if "j < 512" for j
    using slot_store [OF assms(1) assms(1) _ i that, of ?m 0] IH [OF that] by (simp add: j)
  moreover have "store64 ?m (table_slot p4 ?i) (0 :: u64) a = m a" if "\<not> table_bytes p4 a" for a
    using that slot_range [OF i, of a p4] Suc by (auto simp: store_le_def)
  ultimately show ?case by (simp add: addr)
qed simp

text \<open>Tables above the screen do not notice that something is printed.\<close>

lemma same_screen_vm:
  assumes vm: "loader_vm lo p4 st" and same: "same_but_screen st st'" and above: "0xB9000 \<le> lo" "0xB9000 \<le> unat p4"
  shows "loader_vm lo p4 st'" "awd_pte (amem st') p4 w = awd_pte (amem st) p4 w"
proof -
  note f = same_but_screen_fields [OF same]
  have mem: "amem st' a = amem st a" if "0xB9000 \<le> unat a" for a
    using f(9) [of a] in_range_unat [of "0xB8000 :: u32" 4000 a] that by simp
  have ent: "slot (amem st') u j = slot (amem st) u j" if "tab_ok lo p4 (loader_cursor st) u" "j < 512" for u j
  proof (rule slot_cong [OF that(2)])
    fix a assume "table_bytes u a"
    then have "unat u \<le> unat a" "0xB9000 \<le> unat u" using that(1) above table_bytes_unat [of u a] by (auto simp: tab_ok_def)
    then show "amem st' a = amem st a" by (intro mem) simp
  qed simp
  have inv: "tree_inv awd_table_of (slot (amem st)) (tab_ok lo p4 (loader_cursor st)) p4"
    "tree_links awd_link awd_table_of (slot (amem st)) p4" using vm by (simp_all add: loader_vm_def)
  note tree = tree_same [where ent' = "slot (amem st')", OF inv(1) ent]
  note links = links_same [where ent' = "slot (amem st')", OF inv(1) ent inv(2)]
  show "loader_vm lo p4 st'" using vm tree(2) links mem above by (auto simp: loader_vm_def f)
  show "awd_pte (amem st') p4 w = awd_pte (amem st) p4 w" using tree(3) by (simp add: awd_pte_def)
qed

section \<open>paging_commit\<close>

definition queued :: "loader \<Rightarrow> awd_mapped_region list" where
  "queued st = take (unat (paging_queue_num st)) (paging_queue st)"

definition queue_ok :: "loader \<Rightarrow> bool" where
  "queue_ok st \<longleftrightarrow> unat (paging_queue_num st) \<le> 10 \<and> length (paging_queue st) = 10"

text \<open>An aligned root between the screen and the free part of the heap, which is zero.\<close>

definition paging_ready :: "u32 \<Rightarrow> loader \<Rightarrow> bool" where
  "paging_ready pml4 st \<longleftrightarrow> text_ok st \<and> 4096 dvd unat pml4 \<and> 0xB9000 \<le> unat pml4 \<and>
     unat pml4 + 4096 \<le> loader_cursor st \<and> alloc_enabled st \<and> loader_cursor st \<le> loader_limit st \<and>
     loader_limit st \<le> 2 ^ 32 \<and> (\<forall>a. loader_cursor st \<le> unat a \<and> unat a < loader_limit st \<longrightarrow> amem st a = 0)"

lemma empty_tables:
  assumes ready: "paging_ready pml4 st" and st1: "st1 = st\<lparr>amem := paging_clear (amem st) pml4\<rparr>"
    and room: "round_page (loader_cursor st) + 4096 * card P + spare < loader_limit st" and P: "finite P" "\<forall>is \<in> P. path is"
  shows "loader_vm (loader_cursor st) pml4 st1" "room_for spare pml4 P st1" "paging_frame (loader_cursor st) pml4 st st1"
    "awd_pte (amem st1) pml4 w = 0"
proof -
  note r = ready [unfolded paging_ready_def]
  have aligned: "4096 dvd unat pml4" using r by simp
  note clear = paging_clear_slots [OF aligned order.refl paging_clear_def, of "amem st"]
  have c: "loader_cursor st1 = loader_cursor st" "loader_limit st1 = loader_limit st" "alloc_enabled st1 = alloc_enabled st"
    "amem st1 = paging_clear (amem st) pml4" by (simp_all add: st1)
  have zero: "slot (amem st1) pml4 j = 0" if "j < 512" for j
    using clear that by (simp add: c word_less_nat_alt)
  have root: "tab_ok (loader_cursor st) pml4 (loader_cursor st) pml4" using r by (simp add: tab_ok_def)
  note empty = tree_empty [where ent = "slot (amem st1)" and ok = "tab_ok (loader_cursor st) pml4 (loader_cursor st)", OF root zero]
  note links = links_empty [where ent = "slot (amem st1)" and ok = "tab_ok (loader_cursor st) pml4 (loader_cursor st)", OF root zero]
  have "amem st1 a = 0" if "loader_cursor st \<le> unat a" "unat a < loader_limit st" for a
    using clear that r table_bytes_unat [OF aligned, of a] by (simp add: c)
  then show "loader_vm (loader_cursor st) pml4 st1" using empty(2) links r by (simp add: loader_vm_def c)
  have "card {is \<in> P. awd_walk (amem st1) pml4 is = None} \<le> card P" by (rule card_mono [OF P(1)]) auto
  then show "room_for spare pml4 P st1" using room P by (simp add: room_for_def c)
  show "paging_frame (loader_cursor st) pml4 st st1" using clear by (simp add: paging_frame_def st1)
  show "awd_pte (amem st1) pml4 w = 0" using empty(3) by (simp add: awd_pte_def table_path_def path_def)
qed

lemma paging_commit_result:
  assumes ready: "paging_ready pml4 st" and q: "queue_ok st" "\<forall>r \<in> set (queued st). region_ok r"
    and room: "round_page (loader_cursor st) + 4096 * card (tables_for (queued st)) + spare < loader_limit st"
  shows "\<exists>st'. paging_commit pml4 st = Inr st' \<and> paging_cr3 st' = Some pml4 \<and> text_ok st' \<and>
    loader_cursor st' + spare < loader_limit st' \<and>
    loader_vm (loader_cursor st) pml4 st' \<and> mem st' = mem st \<and> heap_phys_limit st' = heap_phys_limit st \<and>
    (\<forall>w. awd_pte (amem st') pml4 w = last_entry (concat (map region_map (queued st))) 0 (vpage w)) \<and>
    (\<forall>a. unat a < loader_cursor st \<and> \<not> table_bytes pml4 a \<and> \<not> in_range a 0xB8000 4000 \<longrightarrow> amem st' a = amem st a)"
proof -
  let ?n = "unat (paging_queue_num st)" and ?lo = "loader_cursor st"
  define st1 where "st1 = st\<lparr>amem := paging_clear (amem st) pml4\<rparr>"
  note r = ready [unfolded paging_ready_def]
  have paths: "finite (tables_for (queued st))" "\<forall>is \<in> tables_for (queued st). path is"
    using tables_for_paths by auto
  note e = empty_tables [OF ready st1_def room paths]
  have n: "?n \<le> 10" "length (paging_queue st) = 10" using q(1) by (simp_all add: queue_ok_def)
  have mem: "paging_queue st ! i \<in> set (queued st)" if "i < ?n" for i
    using that n nth_mem [of i "queued st"] by (simp add: queued_def)
  have js: "\<forall>i \<in> set [0..<?n]. i < 10 \<and> region_ok (paging_queue st ! i) \<and>
      tables_for [paging_queue st ! i] \<subseteq> tables_for (queued st)"
    using mem n(1) q(2) by (fastforce simp: tables_for_def)
  have maps: "map (\<lambda>i. region_map (paging_queue st ! i)) [0..<?n] = map region_map (queued st)"
    using n by (intro nth_equalityI) (simp_all add: queued_def)
  have "paging_queue st1 = paging_queue st" "paging_queue_num st1 = paging_queue_num st" by (simp_all add: st1_def)
  with commit_regions [OF e(1,2) js] obtain st2 where
    st2: "fold_r (commit_region pml4) [0..<?n] st1 = Inr st2" "loader_vm ?lo pml4 st2" "paging_frame ?lo pml4 st1 st2"
      "\<forall>w. awd_pte (amem st2) pml4 w = last_entry (concat (map region_map (queued st))) 0 (vpage w)"
      "room_for spare pml4 (tables_for (queued st)) st2"
    using e(4) maps by auto
  have frame: "paging_frame ?lo pml4 st st2" by (rule paging_frame_trans [OF e(3) st2(3)])
  note f = paging_frame_fields [OF frame]
  define st3 where "st3 = paging_enable pml4 st2"
  have "amem st2 a = amem st a" if "unat a < ?lo" "\<not> table_bytes pml4 a" for a
    using frame that by (simp add: paging_frame_def)
  note low = this
  have "text_ok st3" using r f by (simp add: st3_def paging_enable_def text_ok_def con_ok_def con_def)
  from log_color_text [OF this] obtain st' where
    st': "log_info st3 (''paging: All pages mapped into memory.'' @ newline) [] = Inr st'" "text_ok st'" "same_but_screen st3 st'"
    by (force simp: log_info_def newline_def)
  have vm3: "loader_vm ?lo pml4 st3" using st2(2) by (simp add: st3_def paging_enable_def loader_vm_def)
  have above: "0xB9000 \<le> ?lo" "0xB9000 \<le> unat pml4" using r by simp_all
  note out = same_screen_vm [OF vm3 st'(3) above]
  note g = same_but_screen_fields [OF st'(3)]
  have "paging_commit pml4 st = Inr st'"
    using st2(1) st'(1) by (simp add: paging_commit_def Let_def st1_def st3_def)
  moreover have "paging_cr3 st' = Some pml4" "mem st' = mem st" "heap_phys_limit st' = heap_phys_limit st"
    using g f by (simp_all add: st3_def paging_enable_def)
  moreover have "awd_pte (amem st') pml4 w = last_entry (concat (map region_map (queued st))) 0 (vpage w)" for w
    using out(2) [of w] st2(4) by (simp add: st3_def paging_enable_def)
  moreover have "amem st' a = amem st a" if "unat a < ?lo" "\<not> table_bytes pml4 a" "\<not> in_range a 0xB8000 4000" for a
    using g(9) [OF that(3)] low [OF that(1,2)] by (simp add: st3_def paging_enable_def)
  moreover have "loader_cursor st' + spare < loader_limit st'"
    using st2(5) round_page_bounds [of "loader_cursor st2"] g by (simp add: room_for_def st3_def paging_enable_def)
  ultimately show ?thesis using st'(2) out(1) by blast
qed

section \<open>paging_init\<close>

definition row_items :: "nat \<Rightarrow> awd_mapped_region \<Rightarrow> item list" where
  "row_items i q = [Dec False 2 (of_nat i)] @ map Lit '': 0x'' @ [Ptr False True 16 (phys_start q)] @ map Lit ''-0x'' @
     [Ptr False True 16 (phys_end q)] @ map Lit '' 0x'' @ [Ptr False True 16 (virt_start q)] @ map Lit ''-0x'' @
     [Ptr False True 16 (virt_end q), Lit CHR 0x0A]"

lemma row_prints:
  fixes q :: awd_mapped_region
  assumes "text_ok st"
  shows "\<exists>st'. log_info st (''%2d: 0x%016p-0x%016p 0x%016p-0x%016p'' @ newline)
      (Slot (of_nat i) # arg64 (phys_start q) @ arg64 (phys_end q) @ arg64 (virt_start q) @ arg64 (virt_end q)) = Inr st' \<and>
    text_ok st' \<and> same_but_screen st st'"
proof -
  have fmt: "''%2d: 0x%016p-0x%016p 0x%016p-0x%016p'' @ newline = items_format (row_items i q)"
    by (simp add: row_items_def newline_def)
  have ok: "\<forall>it \<in> set (row_items i q). item_ok it" by (simp add: row_items_def)
  have "(ucast (of_nat i :: u64) :: u32) = of_nat i" by (simp add: word_unat_eq_iff unat_ucast_mod unat_of_nat mod_mod_cancel)
  then have arg: "Slot (of_nat i) # arg64 (phys_start q) @ arg64 (phys_end q) @ arg64 (virt_start q) @ arg64 (virt_end q) =
      concat (map awd_printf.item_args (row_items i q)) @ []"
    by (simp add: row_items_def arg64_def)
  show ?thesis unfolding log_info_def using log_color_prints [OF assms ok fmt arg] by blast
qed

lemma rows_print:
  assumes "text_ok st" and "paging_queue st = q"
  shows "\<exists>st'. fold_r (\<lambda>st i. let q = paging_queue st ! i in
         log_info st (''%2d: 0x%016p-0x%016p 0x%016p-0x%016p'' @ newline)
           (Slot (of_nat i) # arg64 (phys_start q) @ arg64 (phys_end q) @ arg64 (virt_start q) @ arg64 (virt_end q))) is st
       = Inr st' \<and> text_ok st' \<and> same_but_screen st st'"
  using assms
proof (induction "is" arbitrary: st)
  case (Cons i "is")
  obtain s1 where s1: "log_info st (''%2d: 0x%016p-0x%016p 0x%016p-0x%016p'' @ newline)
      (Slot (of_nat i) # arg64 (phys_start (q ! i)) @ arg64 (phys_end (q ! i)) @ arg64 (virt_start (q ! i)) @ arg64 (virt_end (q ! i)))
      = Inr s1" "text_ok s1" "same_but_screen st s1"
    using row_prints [OF Cons.prems(1), of i "q ! i"] by blast
  have "paging_queue s1 = q" using same_but_screen_fields(7) [OF s1(3)] Cons.prems(2) by simp
  from Cons.IH [OF s1(2) this] show ?case
    using s1(1) same_but_screen_trans [OF s1(3)] Cons.prems(2) by (auto simp: Let_def)
qed simp

lemma queue_prints:
  assumes "text_ok st"
  shows "\<exists>st'. paging_queue_print st = Inr st' \<and> text_ok st' \<and> same_but_screen st st'"
proof -
  let ?its = "map Lit ''paging: Printing queue (n='' @ [Dec False 0 (ucast (paging_queue_num st))] @ map Lit '')'' @ [Lit CHR 0x0A]"
  have fmt: "''paging: Printing queue (n=%d)'' @ newline = items_format ?its" by (simp add: newline_def)
  have arg: "[Slot (paging_queue_num st)] = concat (map awd_printf.item_args ?its) @ []"
    by (simp, rule bit_word_eqI, simp add: bit_simps)
  obtain s1 where s1: "log_info st (''paging: Printing queue (n=%d)'' @ newline) [Slot (paging_queue_num st)] = Inr s1"
      "text_ok s1" "same_but_screen st s1"
    using log_color_prints [OF assms _ fmt arg] unfolding log_info_def by fastforce
  show ?thesis
    using s1 rows_print [OF s1(2) refl] same_but_screen_trans [OF s1(3)] by (force simp: paging_queue_print_def)
qed

text \<open>The regions that \<open>paging_init\<close> queues.\<close>

definition boot_regions :: "mem_info \<Rightarrow> kernel_loaded_info \<Rightarrow> awd_mapped_region list" where
  "boot_regions m k =
     (let same = \<lambda>r. \<lparr>phys_start = r_start r, phys_end = r_end r, virt_start = r_start r, virt_end = r_end r,
                     map_attribute = PAGING_ATTRIBUTE_READWRITE\<rparr>;
          img = memory_image k; virt = kr_start (loaded_virt k) in
      [same (region_low_memory m), same (region_awd_image m), same (region_awd_malloc m),
       \<lparr>phys_start = 0, phys_end = 0x200000, virt_start = 0xFFFFFFFF80000000, virt_end = 0xFFFFFFFF80200000,
        map_attribute = PAGING_ATTRIBUTE_READWRITE\<rparr>,
       \<lparr>phys_start = kr_start img, phys_end = kr_start img + kr_size img, virt_start = virt, virt_end = virt + kr_size img,
        map_attribute = PAGING_ATTRIBUTE_READWRITE\<rparr>])"

lemma paging_init_result:
  assumes "text_ok st" and "paging_queue_num st = 0" and "length (paging_queue st) = 10"
  shows "\<exists>st'. paging_init st k = Inr st' \<and> text_ok st' \<and> queue_ok st' \<and> queued st' = boot_regions (mem st) k \<and>
    same_but_screen (st\<lparr>paging_queue := paging_queue st', paging_queue_num := 5\<rparr>) st'"
proof -
  obtain q0 q1 q2 q3 q4 qs where q: "paging_queue st = q0 # q1 # q2 # q3 # q4 # qs" "length qs = 5"
    using assms(3) by (auto simp: length_Suc_conv eval_nat_numeral)
  let ?q = "boot_regions (mem st) k @ qs"
  let ?s = "st\<lparr>paging_queue := ?q, paging_queue_num := 5\<rparr>"
  have "text_ok ?s" using assms(1) by (simp add: text_ok_def con_ok_def con_def)
  from queue_prints [OF this] obtain st' where st': "paging_queue_print ?s = Inr st'" "text_ok st'" "same_but_screen ?s st'"
    by blast
  have "paging_init st k = paging_queue_print ?s"
    by (simp add: paging_init_def paging_queue_mapping_def Let_def assms(2) q PAGING_QUEUE_MAX_def boot_regions_def)
  moreover note same_but_screen_fields(6,7) [OF st'(3)]
  moreover have "length (boot_regions (mem st) k) = 5" by (simp add: boot_regions_def Let_def)
  ultimately show ?thesis using st' q(2) by (intro exI [of _ st']) (simp add: queue_ok_def queued_def)
qed

section \<open>What the last region makes of a page\<close>

lemma last_entry_other: "v \<notin> fst ` set ps \<Longrightarrow> last_entry ps d v = d"
  by (induction ps arbitrary: d) auto

lemma unat_vpage_add: "unat (vpage (a + of_nat k * 0x1000)) = (unat a div 4096 + k) mod 2 ^ 36"
proof -
  let ?x = "unat a + k * 4096"
  have "unat (a + of_nat k * 0x1000) = ?x mod 2 ^ 64"
    by (simp add: unat_word_ariths unat_of_nat mod_simps)
  moreover have "?x mod (4096 * 2 ^ 52) div 4096 = ?x div 4096 mod 2 ^ 52" by (subst mod_mult2_eq) simp
  ultimately have "unat (vpage (a + of_nat k * 0x1000)) = ?x div 4096 mod 2 ^ 52 mod 2 ^ 36" by (simp add: unat_vpage)
  moreover have "(2 ^ 36 :: nat) dvd 2 ^ 52" by (rule le_imp_power_dvd) simp
  ultimately show ?thesis by (simp only: mod_mod_cancel) (simp add: add.commute)
qed

lemma region_pages_distinct:
  assumes "j < k" and "k < 2 ^ 36"
  shows "vpage (region_page r k) \<noteq> vpage (region_page r j)"
proof
  let ?v = "unat (virt_start r) div 4096"
  assume "vpage (region_page r k) = vpage (region_page r j)"
  then have "(?v + k) mod 2 ^ 36 = (?v + j) mod 2 ^ 36" unfolding region_page_def by (metis unat_vpage_add)
  then have "2 ^ 36 dvd k - j" using assms(1) mod_eq_dvd_iff_nat [of "?v + j" "?v + k" "2 ^ 36"] by simp
  then show False using assms by (auto dest: dvd_imp_le)
qed

lemma last_entry_region:
  assumes "k < region_count r" and "region_count r \<le> 2 ^ 36"
  shows "last_entry (region_map r) d (vpage (region_page r k)) = region_entry r k"
proof -
  let ?f = "\<lambda>k. (vpage (region_page r k), region_entry r k)"
  have "[0..<region_count r] = [0..<k] @ k # [Suc k..<region_count r]"
    using upt_add_eq_append [of 0 k "region_count r - k"] upt_conv_Cons [OF assms(1)] assms(1) by simp
  then have "region_map r = map ?f [0..<k] @ ?f k # map ?f [Suc k..<region_count r]" by (simp add: region_map_def)
  moreover have "vpage (region_page r k) \<notin> fst ` set (map ?f [Suc k..<region_count r])"
  proof
    assume "vpage (region_page r k) \<in> fst ` set (map ?f [Suc k..<region_count r])"
    then obtain l where "k < l" "l < region_count r" "vpage (region_page r l) = vpage (region_page r k)"
      by (auto simp: Suc_le_eq)
    then show False using region_pages_distinct [of k l r] assms(2) by simp
  qed
  ultimately show ?thesis by (simp add: last_entry_other)
qed

lemma last_entry_regions:
  assumes "i < length rs" and "k < region_count (rs ! i)" and "region_count (rs ! i) \<le> 2 ^ 36"
    and "\<forall>j l. i < j \<longrightarrow> j < length rs \<longrightarrow> l < region_count (rs ! j) \<longrightarrow>
      vpage (region_page (rs ! j) l) \<noteq> vpage (region_page (rs ! i) k)"
  shows "last_entry (concat (map region_map rs)) d (vpage (region_page (rs ! i) k)) = region_entry (rs ! i) k"
proof -
  have "rs = take i rs @ rs ! i # drop (Suc i) rs" by (rule id_take_nth_drop [OF assms(1)])
  then have "concat (map region_map rs) =
      concat (map region_map (take i rs)) @ region_map (rs ! i) @ concat (map region_map (drop (Suc i) rs))"
    by (metis concat.simps(2) concat_append list.simps(9) map_append)
  moreover have "vpage (region_page (rs ! i) k) \<notin> fst ` set (concat (map region_map (drop (Suc i) rs)))"
  proof
    assume "vpage (region_page (rs ! i) k) \<in> fst ` set (concat (map region_map (drop (Suc i) rs)))"
    then obtain r where r: "r \<in> set (drop (Suc i) rs)" "vpage (region_page (rs ! i) k) \<in> fst ` set (region_map r)" by auto
    then obtain l where l: "l < region_count r" "vpage (region_page r l) = vpage (region_page (rs ! i) k)"
      by (auto simp: region_map_def)
    obtain n where "n < length rs - Suc i" "r = rs ! (Suc i + n)" using r(1) by (auto simp: in_set_conv_nth)
    then show False using assms(4) l by fastforce
  qed
  ultimately show ?thesis using last_entry_region [OF assms(2,3)] by (simp add: last_entry_other)
qed

lemma last_entry_outside:
  assumes "\<forall>i < length rs. \<forall>k < region_count (rs ! i). vpage (region_page (rs ! i) k) \<noteq> v"
  shows "last_entry (concat (map region_map rs)) d v = d"
  using assms by (intro last_entry_other) (force simp: region_map_def in_set_conv_nth)

section \<open>Property\<close>

text \<open>C36. \<open>paging_commit\<close> makes the address space that the queue describes.  With at most ten regions, a
  zero heap and room in it for the tables that the queued pages need, each counted once, it returns
  with the root loaded; a page that some region has is mapped as the last such region says, to its own
  frame and with the region's attribute, every other page is not mapped; the tables are a tree of
  aligned, unshared pages; and below the heap only the root and the screen have changed.\<close>

theorem paging_commit_translates:
  fixes st :: loader
  defines "rs \<equiv> queued st"
  assumes "paging_ready pml4 st" and "queue_ok st" and "\<forall>r \<in> set rs. region_ok r \<and> region_count r \<le> 2 ^ 36"
    and "round_page (loader_cursor st) + 4096 * card (tables_for rs) < loader_limit st"
  shows "\<exists>st'. paging_commit pml4 st = Inr st' \<and> paging_cr3 st' = Some pml4 \<and>
    (\<forall>i k w. i < length rs \<and> k < region_count (rs ! i) \<and> vpage w = vpage (region_page (rs ! i) k) \<and>
       (\<forall>j l. i < j \<longrightarrow> j < length rs \<longrightarrow> l < region_count (rs ! j) \<longrightarrow> vpage (region_page (rs ! j) l) \<noteq> vpage w) \<longrightarrow>
       awd_pte (amem st') pml4 w = (phys_start (rs ! i) + of_nat k * 0x1000) OR ucast (map_attribute (rs ! i))) \<and>
    (\<forall>w. (\<forall>i < length rs. \<forall>k < region_count (rs ! i). vpage (region_page (rs ! i) k) \<noteq> vpage w) \<longrightarrow>
       awd_pte (amem st') pml4 w = 0) \<and>
    tree_inv awd_table_of (slot (amem st')) (tab_ok (loader_cursor st) pml4 (loader_cursor st')) pml4 \<and>
    (\<forall>is t i. path (is @ [i]) \<and> awd_walk (amem st') pml4 is = Some t \<and> slot (amem st') t i \<noteq> 0 \<longrightarrow>
       slot (amem st') t i = ucast (awd_table_of (slot (amem st') t i)) OR 0b11) \<and>
    (\<forall>a. unat a < loader_cursor st \<and> \<not> table_bytes pml4 a \<and> \<not> in_range a 0xB8000 4000 \<longrightarrow> amem st' a = amem st a)"
proof -
  have ok: "\<forall>r \<in> set (queued st). region_ok r" using assms(4) by (simp add: rs_def)
  obtain st' where st': "paging_commit pml4 st = Inr st'" "paging_cr3 st' = Some pml4" "loader_vm (loader_cursor st) pml4 st'"
      "\<And>w. awd_pte (amem st') pml4 w = last_entry (concat (map region_map rs)) 0 (vpage w)"
      "\<And>a. unat a < loader_cursor st \<Longrightarrow> \<not> table_bytes pml4 a \<Longrightarrow> \<not> in_range a 0xB8000 4000 \<Longrightarrow> amem st' a = amem st a"
    using paging_commit_result [OF assms(2,3) ok, of 0] assms(5) unfolding rs_def by auto
  have "region_count (rs ! i) \<le> 2 ^ 36" if "i < length rs" for i using assms(4) that by simp
  then have "awd_pte (amem st') pml4 w = region_entry (rs ! i) k"
    if "i < length rs" "k < region_count (rs ! i)" "vpage w = vpage (region_page (rs ! i) k)"
      "\<forall>j l. i < j \<longrightarrow> j < length rs \<longrightarrow> l < region_count (rs ! j) \<longrightarrow> vpage (region_page (rs ! j) l) \<noteq> vpage w" for i k w
    using last_entry_regions [OF that(1,2)] that by (simp add: st'(4))
  moreover have "awd_pte (amem st') pml4 w = 0"
    if "\<forall>i < length rs. \<forall>k < region_count (rs ! i). vpage (region_page (rs ! i) k) \<noteq> vpage w" for w
    using last_entry_outside [OF that] by (simp add: st'(4))
  moreover have "slot (amem st') t i = ucast (awd_table_of (slot (amem st') t i)) OR 0b11"
    if "path (is @ [i])" "awd_walk (amem st') pml4 is = Some t" "slot (amem st') t i \<noteq> 0" for "is" t i
  proof -
    have "awd_link (slot (amem st') t i)" using st'(3) that unfolding loader_vm_def tree_links_def by metis
    then show ?thesis unfolding awd_link_def by (metis awd_table_entry_or)
  qed
  ultimately show ?thesis
    using st'(1-3,5) unfolding loader_vm_def region_entry_def by (intro exI [of _ st'] conjI) blast+
qed

definition sample_queue :: awd_mapped_region where
  "sample_queue = \<lparr>phys_start = 0x7000, phys_end = 0x8FFF, virt_start = 0x400000, virt_end = 0x401FFF, map_attribute = 3\<rparr>"

definition sample_paging :: loader where
  "sample_paging = (alloc_init loader_initial 0x200000)\<lparr>console_data :=
     \<lparr>con_x = 0, con_y = 0, con_color = 0x0F, con_width = 80, con_height = 25, buffer_addr = 0xB8000\<rparr>,
     paging_queue_num := 1, paging_queue := replicate 10 sample_queue\<rparr>"

theorem paging_commit_translates_witness:
  "\<exists>st'. paging_commit 0x100000 sample_paging = Inr st' \<and> awd_pte (amem st') 0x100000 0x401234 = 0x8003 \<and>
     awd_pte (amem st') 0x100000 0x403000 = 0"
proof -
  have f: "heap_phys_current sample_paging = 0x200000" "heap_phys_limit sample_paging = 0x240000"
    "amem sample_paging = (\<lambda>_. 0)" "alloc_enabled sample_paging" "queued sample_paging = [sample_queue]"
    by (simp_all add: sample_paging_def alloc_init_def AWD_ALLOC_SIZE_def loader_initial_def Let_def queued_def)
  have "text_ok sample_paging"
    by (simp add: sample_paging_def text_ok_def con_def con_ok_def alloc_init_def loader_initial_def Let_def
        awd_itoa_buffer_def awd_itoa64_buffer_def)
  then have ready: "paging_ready 0x100000 sample_paging" by (simp add: paging_ready_def f)
  have queue: "queue_ok sample_paging" by (simp add: queue_ok_def sample_paging_def)
  have n: "region_count sample_queue = 2" by (simp add: region_count_def page_count_def sample_queue_def)
  have ok: "\<forall>r \<in> set (queued sample_paging). region_ok r \<and> region_count r \<le> 2 ^ 36"
    by (simp add: f n region_ok_def) (simp add: sample_queue_def)
  have "tables_for (queued sample_paging) = {[0], [0, 0], [0, 0, 2]}"
  proof -
    have "{..<2 :: nat} = {0, 1}" by auto
    then show ?thesis
      by (simp add: f tables_for_def n prefixes_of_def region_page_def table_path_def index_p4_def index_p3_def index_p2_def)
        (simp add: sample_queue_def insert_commute)
  qed
  then have room: "round_page (loader_cursor sample_paging) + 4096 * card (tables_for (queued sample_paging)) < loader_limit sample_paging"
    by (simp add: f round_page_def)
  obtain st' where st': "paging_commit 0x100000 sample_paging = Inr st'"
    and map: "\<And>i k w. i < length [sample_queue] \<and> k < region_count ([sample_queue] ! i) \<and>
       vpage w = vpage (region_page ([sample_queue] ! i) k) \<and>
       (\<forall>j l. i < j \<longrightarrow> j < length [sample_queue] \<longrightarrow> l < region_count ([sample_queue] ! j) \<longrightarrow>
          vpage (region_page ([sample_queue] ! j) l) \<noteq> vpage w) \<Longrightarrow>
       awd_pte (amem st') 0x100000 w = (phys_start ([sample_queue] ! i) + of_nat k * 0x1000) OR ucast (map_attribute ([sample_queue] ! i))"
    and none: "\<And>w. \<forall>i < length [sample_queue]. \<forall>k < region_count ([sample_queue] ! i).
       vpage (region_page ([sample_queue] ! i) k) \<noteq> vpage w \<Longrightarrow> awd_pte (amem st') 0x100000 w = 0"
    using paging_commit_translates [OF ready queue ok room] unfolding f(5) by blast
  have "vpage 0x401234 = vpage (region_page sample_queue 1)"
    by (simp add: vpage_def region_page_def sample_queue_def mask_eq_exp_minus_1)
  then have "awd_pte (amem st') 0x100000 0x401234 = 0x8003"
    using map [of 0 1 "0x401234"] by (simp add: n) (simp add: sample_queue_def)
  moreover have "vpage (region_page sample_queue k) \<noteq> vpage 0x403000" if "k < 2" for k
  proof -
    have "k = 0 \<or> k = 1" using that by auto
    then show ?thesis by (elim disjE) (simp_all add: vpage_def region_page_def sample_queue_def mask_eq_exp_minus_1)
  qed
  then have "awd_pte (amem st') 0x100000 0x403000 = 0" using none [of "0x403000"] by (simp add: n)
  ultimately show ?thesis using st' by blast
qed

end
