(* ===== verification/Loader_Main.thy ===== *)
theory Loader_Main
  imports Loader_Paging Boot_Memory
begin

text \<open>
  The loader from its entry to the jump into the kernel: \<open>awd_main\<close> of src/awd/main.c, composed of the
  components in the order of the code.  What the linker, the assembly checks and the stack decide is in
  \<open>awd_env\<close>; \<open>kernel_enter\<close> is assembly, the result is the state, the structure and the address it jumps to.
\<close>

section \<open>The code\<close>

record awd_env =
  awd_phys_start :: u64
  awd_phys_end :: u64
  paging_pml4 :: u32
  kernel_tag_name :: u32
  check_cpuid :: int
  check_longmode :: int
  stack_garbage :: kernel_region

text \<open>The structure handed over, a zero global; \<open>awd_info_t\<close> is declared alike in the loader and the kernel.\<close>

definition awd_info_initial :: awd_info where
  "awd_info_initial = \<lparr>kernel_phstart = 0, kernel_phsize = 0, multiboot_struct = 0, numCPUs = 0,
     ptr_phys_mem_map = 0, ptr_malloc_current = 0, ptr_malloc_limit = 0, log_cursor_y = 0\<rparr>"

text \<open>The second half: from the memory image of the kernel to the jump.\<close>

definition awd_handover :: "awd_env \<Rightarrow> u32 \<Rightarrow> loader \<Rightarrow> kernel_info \<Rightarrow> awd_stop + (loader \<times> awd_info \<times> u64)" where
  "awd_handover env mb_struct st info =
     bind_r (kernel_load st info) (\<lambda>(loaded, st).
     bind_r (paging_init st loaded) (\<lambda>st.
     bind_r (paging_commit (paging_pml4 env) st) (\<lambda>st.
     bind_r (memory_regions_print st) (\<lambda>st.
     let awd = awd_info_initial\<lparr>log_cursor_y := console_get_y (con st), multiboot_struct := mb_struct,
                 ptr_malloc_current := ucast (alloc_get_current st), ptr_malloc_limit := ucast (alloc_get_limit st)\<rparr>
     in Inr (st, awd, virtual_entry loaded)))))"

definition awd_main :: "awd_env \<Rightarrow> u32 \<Rightarrow> u32 \<Rightarrow> loader \<Rightarrow> awd_stop + (loader \<times> awd_info \<times> u64)" where
  "awd_main env mb_magic mb_struct st =
     (let st = put_con st (console_init (con st)) in
      bind_r (awd_version_display st) (\<lambda>st.
      bind_r (multiboot_verify st mb_magic) (\<lambda>st.
      bind_r (awd_cpu_requirements (check_cpuid env) (check_longmode env) st) (\<lambda>st.
      let st = memory_init (awd_phys_start env) (awd_phys_end env) st in
      bind_r (multiboot_analyse (kernel_tag_name env) (stack_garbage env) st mb_struct) (\<lambda>(info, st).
      bind_r (kernel_analyse st info) (\<lambda>(info, st).
      awd_handover env mb_struct
        (memory_heap_init st (PAGE_ROUND_UP (r_end (region_multiboot_files (mem st))))) info))))))"

section \<open>The printouts return\<close>

definition line_items :: "string \<Rightarrow> mem_region \<Rightarrow> item list" where
  "line_items name r = map Lit '' * '' @ [Str False 19 name] @ map Lit '' : '' @ [Ptr False True 16 (r_start r)] @
     map Lit '' -> '' @ [Ptr False True 16 (r_end r), Lit CHR 0x0A]"

lemma region_prints:
  fixes r :: mem_region
  assumes "text_ok st" and "length name < 2 ^ 31"
  shows "\<exists>st'. region_print st name r = Inr st' \<and> text_ok st' \<and> same_but_screen st st'"
proof -
  have fmt: "'' * %19s : %016p -> %016p'' @ newline = items_format (line_items name r)"
    by (simp add: line_items_def newline_def)
  have ok: "\<forall>it \<in> set (line_items name r). item_ok it" using assms(2) by (simp add: line_items_def)
  have arg: "StrSlot name # arg64 (r_start r) @ arg64 (r_end r) = concat (map awd_printf.item_args (line_items name r)) @ []"
    by (simp add: line_items_def arg64_def)
  show ?thesis unfolding region_print_def log_info_def using log_color_prints [OF assms(1) ok fmt arg] by blast
qed

lemma prints_then:
  assumes "\<exists>st'. f = Inr st' \<and> text_ok st' \<and> same_but_screen st st'"
    and "\<And>st'. text_ok st' \<Longrightarrow> \<exists>st''. g st' = Inr st'' \<and> text_ok st'' \<and> same_but_screen st' st''"
  shows "\<exists>st'. bind_r f g = Inr st' \<and> text_ok st' \<and> same_but_screen st st'"
proof -
  obtain s where s: "f = Inr s" "text_ok s" "same_but_screen st s" using assms(1) by blast
  show ?thesis using assms(2) [OF s(2)] s(1) same_but_screen_trans [OF s(3)] by auto
qed

lemma regions_print:
  assumes "text_ok st"
  shows "\<exists>st'. memory_regions_print st = Inr st' \<and> text_ok st' \<and> same_but_screen st st'"
proof -
  let ?head = "map Lit ''   '' @ [Str False 19 ''Region Name''] @ map Lit '' : '' @ [Str True 16 ''Start''] @ map Lit ''    '' @
    [Str True 16 ''End'', Lit CHR 0x0A]"
  have head: "\<exists>st'. log_info st (''   %19s : %-16s    %-16s'' @ newline) [StrSlot ''Region Name'', StrSlot ''Start'', StrSlot ''End'']
      = Inr st' \<and> text_ok st' \<and> same_but_screen st st'" if "text_ok st" for st
  proof -
    have fmt: "''   %19s : %-16s    %-16s'' @ newline = items_format ?head" by (simp add: newline_def)
    have arg: "[StrSlot ''Region Name'', StrSlot ''Start'', StrSlot ''End''] = concat (map awd_printf.item_args ?head) @ []" by simp
    show ?thesis unfolding log_info_def using log_color_prints [OF that _ fmt arg] by fastforce
  qed
  have tail: "\<exists>st'. log_info st ('' * Memory regions are tracking %d kb of high memory.'' @ newline) (arg64 v) = Inr st' \<and>
      text_ok st' \<and> same_but_screen st st'" if "text_ok st" for st v
  proof -
    let ?its = "map Lit '' * Memory regions are tracking '' @ [Dec False 0 v] @ map Lit '' kb of high memory.'' @ [Lit CHR 0x0A]"
    have fmt: "'' * Memory regions are tracking %d kb of high memory.'' @ newline = items_format ?its" by (simp add: newline_def)
    have arg: "arg64 v = concat (map awd_printf.item_args ?its) @ [Slot (ucast (drop_bit 32 v))]" by (simp add: arg64_def)
    show ?thesis unfolding log_info_def using log_color_prints [OF that _ fmt arg] by fastforce
  qed
  have first: "\<exists>st'. log_info st (''mem: Printing current memory regions'' @ newline) [] = Inr st' \<and> text_ok st' \<and> same_but_screen st st'"
    using log_color_text [OF assms] by (simp add: log_info_def newline_def)
  show ?thesis
    unfolding memory_regions_print_def Let_def
    by (intro prints_then first head region_prints tail) simp_all
qed

lemma version_prints:
  "text_ok st \<Longrightarrow> \<exists>st'. awd_version_display st = Inr st' \<and> text_ok st' \<and> same_but_screen st st'"
  using log_color_text [of st] by (simp add: awd_version_display_def log_notice_def newline_def)

lemma console_starts:
  assumes "length (fst (number_buffers st)) = 33" and "length (snd (number_buffers st)) = 65"
  shows "text_ok (put_con st (console_init (con st)))" "same_but_screen st (put_con st (console_init (con st)))"
  using console_init_blank [of "con st"] assms
  by (simp_all add: text_ok_def same_but_screen_def put_con_def con_def)

section \<open>What the boot loader says\<close>

text \<open>Whatever is on the screen, the multiboot structure names a boot loader and the first tagged module is
  the file from \<open>a\<close> to \<open>e\<close>.\<close>

definition multiboot_says :: "u32 \<Rightarrow> 32 bytes \<Rightarrow> u32 \<Rightarrow> u32 \<Rightarrow> u32 \<Rightarrow> bool" where
  "multiboot_says tag m mb a e \<longleftrightarrow> (\<forall>m'. same_off_screen 0xB8000 m m' \<longrightarrow>
     (let info = read_multiboot_info m' mb in
      (\<exists>name. string_at m' (boot_loader_name info) = Inr name \<and> length name < 2 ^ 31) \<and>
      (\<exists>md. find_module m' tag (mods_addr info) (mods_count info) 0 = Inr (Some md) \<and>
         mod_start (read_module m' md) = a \<and> mod_end (read_module m' md) = e)))"

lemma same_off_screen_symmetric: "same_off_screen b m m' \<Longrightarrow> same_off_screen b m' m"
  by (simp add: same_off_screen_def)

lemma multiboot_says_same:
  "multiboot_says tag m mb a e \<Longrightarrow> same_off_screen 0xB8000 m m' \<Longrightarrow> multiboot_says tag m' mb a e"
  unfolding multiboot_says_def using same_off_screen_trans by blast

lemma multiboot_analyse_result:
  assumes "text_ok st" and says: "multiboot_says tag (amem st) mb a e"
  obtains st' where "multiboot_analyse tag g st mb = Inr (\<lparr>image_start = a, image_end = e, k_phys = g, k_virt = g\<rparr>,
      st'\<lparr>mem := (mem st')\<lparr>region_multiboot_files := \<lparr>r_start = PAGE_ROUND_UP (ucast a), r_end = PAGE_ROUND_UP (ucast e) - 1\<rparr>\<rparr>\<rparr>)"
    "text_ok st'" "same_but_screen st st'"
proof -
  obtain name where name: "string_at (amem st) (boot_loader_name (read_multiboot_info (amem st) mb)) = Inr name" "length name < 2 ^ 31"
    using says by (auto simp: multiboot_says_def Let_def same_off_screen_def)
  let ?its = "map Lit ''multiboot: Bootloader is '' @ [Str False 0 name, Lit CHR 0x0A]"
  have fmt: "''multiboot: Bootloader is %s'' @ newline = items_format ?its" by (simp add: newline_def)
  have arg: "[StrSlot name] = concat (map awd_printf.item_args ?its) @ []" by simp
  have "\<forall>it \<in> set ?its. item_ok it" using name(2) by simp
  from log_color_prints [OF assms(1) this fmt arg] obtain st' where
    st': "log_info st (''multiboot: Bootloader is %s'' @ newline) [StrSlot name] = Inr st'" "text_ok st'" "same_but_screen st st'"
    unfolding log_info_def by blast
  have "same_off_screen 0xB8000 (amem st) (amem st')" using st'(3) by (simp add: same_but_screen_def)
  then obtain md where md: "find_module (amem st') tag (mods_addr (read_multiboot_info (amem st') mb))
      (mods_count (read_multiboot_info (amem st') mb)) 0 = Inr (Some md)"
    "mod_start (read_module (amem st') md) = a" "mod_end (read_module (amem st') md) = e"
    using says unfolding multiboot_says_def Let_def by blast
  show thesis
    using that [of st'] st' name(1) md by (simp add: multiboot_analyse_def multiboot_find_kernel_def Let_def)
qed

section \<open>The first half\<close>

abbreviation start_state :: "32 bytes \<Rightarrow> loader" where "start_state m \<equiv> loader_initial\<lparr>amem := m\<rparr>"

lemma start_state_fields:
  "number_buffers (start_state m) = (awd_itoa_buffer, awd_itoa64_buffer)" "paging_queue_num (start_state m) = 0"
  "length (paging_queue (start_state m)) = 10" "paging_cr3 (start_state m) = None" "\<not> alloc_enabled (start_state m)"
  by (simp_all add: loader_initial_def Let_def)

lemma awd_main_begins:
  obtains st where "awd_version_display (put_con (start_state m) (console_init (con (start_state m)))) = Inr st"
    "text_ok st" "same_but_screen (start_state m) st"
proof -
  have "length (fst (number_buffers (start_state m))) = 33" "length (snd (number_buffers (start_state m))) = 65"
    by (simp_all add: start_state_fields awd_itoa_buffer_def awd_itoa64_buffer_def)
  note start = console_starts [OF this]
  show thesis using that version_prints [OF start(1)] same_but_screen_trans [OF start(2)] by blast
qed

lemma memory_init_same [simp]:
  "amem (memory_init ps pe st) = amem st" "text_ok (memory_init ps pe st) = text_ok st"
  "paging_queue_num (memory_init ps pe st) = paging_queue_num st" "paging_queue (memory_init ps pe st) = paging_queue st"
  "paging_cr3 (memory_init ps pe st) = paging_cr3 st" "alloc_enabled (memory_init ps pe st) = alloc_enabled st"
  by (simp_all add: memory_init_def text_ok_def con_ok_def con_def)

text \<open>What \<open>awd_main\<close> knows when it has found the module.\<close>

lemma awd_main_analyses:
  assumes ok: "mb_magic = 0x2BADB002" "check_cpuid env \<noteq> 0" "check_longmode env \<noteq> 0"
    and says: "multiboot_says (kernel_tag_name env) m mb a e"
  obtains st where "awd_main env mb_magic mb (start_state m) =
      bind_r (kernel_analyse st \<lparr>image_start = a, image_end = e, k_phys = stack_garbage env, k_virt = stack_garbage env\<rparr>) (\<lambda>(info, st).
        awd_handover env mb (memory_heap_init st (PAGE_ROUND_UP (r_end (region_multiboot_files (mem st))))) info)"
    "text_ok st" "same_off_screen 0xB8000 m (amem st)" "paging_queue_num st = 0" "length (paging_queue st) = 10"
    "paging_cr3 st = None" "\<not> alloc_enabled st"
    "region_low_memory (mem st) = \<lparr>r_start = 0, r_end = 0xFFFFF\<rparr>"
    "region_awd_image (mem st) = \<lparr>r_start = awd_phys_start env, r_end = PAGE_ROUND_UP (awd_phys_end env) - 1\<rparr>"
    "r_end (region_multiboot_files (mem st)) = PAGE_ROUND_UP (ucast e) - 1"
proof -
  obtain s1 where s1: "awd_version_display (put_con (start_state m) (console_init (con (start_state m)))) = Inr s1"
    "text_ok s1" "same_but_screen (start_state m) s1"
    by (rule awd_main_begins)
  let ?s2 = "memory_init (awd_phys_start env) (awd_phys_end env) s1"
  have off: "same_off_screen 0xB8000 m (amem s1)" using s1(3) by (simp add: same_but_screen_def)
  have "text_ok ?s2" "multiboot_says (kernel_tag_name env) (amem ?s2) mb a e" using s1(2) multiboot_says_same [OF says off] by simp_all
  then obtain s3 where s3: "multiboot_analyse (kernel_tag_name env) (stack_garbage env) ?s2 mb =
      Inr (\<lparr>image_start = a, image_end = e, k_phys = stack_garbage env, k_virt = stack_garbage env\<rparr>,
      s3\<lparr>mem := (mem s3)\<lparr>region_multiboot_files := \<lparr>r_start = PAGE_ROUND_UP (ucast a), r_end = PAGE_ROUND_UP (ucast e) - 1\<rparr>\<rparr>\<rparr>)"
    "text_ok s3" "same_but_screen ?s2 s3"
    by (rule multiboot_analyse_result)
  let ?s = "s3\<lparr>mem := (mem s3)\<lparr>region_multiboot_files := \<lparr>r_start = PAGE_ROUND_UP (ucast a), r_end = PAGE_ROUND_UP (ucast e) - 1\<rparr>\<rparr>\<rparr>"
  note f = same_but_screen_fields [OF s3(3)] and g = same_but_screen_fields [OF s1(3)] and i = start_state_fields [of m]
  have "same_off_screen 0xB8000 (amem ?s2) (amem s3)" using s3(3) by (simp add: same_but_screen_def)
  then have "same_off_screen 0xB8000 m (amem ?s)" using same_off_screen_trans [OF off] by simp
  moreover have "text_ok ?s" using s3(2) by (simp add: text_ok_def con_ok_def con_def)
  moreover have "region_low_memory (mem ?s) = \<lparr>r_start = 0, r_end = 0xFFFFF\<rparr>"
    "region_awd_image (mem ?s) = \<lparr>r_start = awd_phys_start env, r_end = PAGE_ROUND_UP (awd_phys_end env) - 1\<rparr>"
    using f by (simp_all add: memory_init_def)
  moreover have "awd_main env mb_magic mb (start_state m) =
      bind_r (kernel_analyse ?s \<lparr>image_start = a, image_end = e, k_phys = stack_garbage env, k_virt = stack_garbage env\<rparr>) (\<lambda>(info, st).
        awd_handover env mb (memory_heap_init st (PAGE_ROUND_UP (r_end (region_multiboot_files (mem st))))) info)"
    using s1(1) s3(1) ok by (simp add: awd_main_def Let_def multiboot_verify_def awd_cpu_requirements_def)
  ultimately show thesis by (intro that [of ?s]) (use f g i in simp_all)
qed

section \<open>Addresses inside a page\<close>

lemma page_plus:
  assumes "page_aligned w" and "r < 4096"
  shows "vpage (w + of_nat r) = vpage w" "(w + of_nat r) AND 0xFFF = of_nat r" "w OR of_nat r = w + of_nat r"
proof -
  have "take_bit 12 r = r" using assms(2) by (simp add: take_bit_eq_mod)
  then have "\<not> bit r n" if "12 \<le> n" for n using that by (metis bit_take_bit_iff not_less)
  then have "\<not> bit (of_nat r :: u64) n" if "12 \<le> n" for n using that by (simp add: bit_simps)
  then obtain u where u: "of_nat r = (u :: u64)" "\<And>n. 12 \<le> n \<Longrightarrow> \<not> bit u n" by blast
  have low: "\<not> bit w n" if "n < 12" for n using assms(1) that by (simp add: page_aligned_bits)
  have "\<not> (bit w n \<and> bit u n)" for n using low [of n] u(2) [of n] by (cases "n < 12") auto
  then have "w AND u = 0" by (intro bit_word_eqI) (simp add: bit_simps)
  then have plus: "w OR u = w + u" by (simp add: disjunctive_add_eq_or)
  have "drop_bit 12 (w OR u) = drop_bit 12 w" using u(2) by (intro bit_word_eqI) (simp add: bit_simps)
  then show "vpage (w + of_nat r) = vpage w" unfolding u(1) by (simp add: vpage_def flip: plus)
  have "(w OR u) AND mask 12 = u"
  proof (rule bit_word_eqI)
    fix n
    show "bit ((w OR u) AND mask 12) n \<longleftrightarrow> bit u n"
      using low [of n] u(2) [of n] bit_imp_le_length [of u n] by (cases "n < 12") (auto simp: bit_simps)
  qed
  then show "(w + of_nat r) AND 0xFFF = of_nat r" unfolding u(1) by (simp add: plus mask_eq_exp_minus_1)
  show "w OR of_nat r = w + of_nat r" unfolding u(1) by (rule plus)
qed

section \<open>What the processor reads\<close>

text \<open>A read at a virtual address with the tables rooted at \<open>p4\<close>: \<open>None\<close> is a page fault, or an address
  outside the 4 GiB that the loader's memory is.\<close>

definition physical_entry :: "32 bytes \<Rightarrow> u64 \<Rightarrow> u64 \<Rightarrow> u64" where
  "physical_entry m t i = (if t < 0x100000000 then slot m (ucast t) i else 0)"

definition awd_read :: "32 bytes \<Rightarrow> u32 \<Rightarrow> u64 \<Rightarrow> u8 option" where
  "awd_read m p4 v =
     (case processor_translate (physical_entry m) (ucast p4) v of None \<Rightarrow> None
      | Some p \<Rightarrow> if p < 0x100000000 then Some (m (ucast p)) else None)"

lemma ucast_table:
  fixes t :: u32
  shows "(ucast t :: u64) < 0x100000000" "(ucast (ucast t :: u64) :: u32) = t" "4096 dvd unat t \<Longrightarrow> page_aligned (ucast t)"
proof -
  have u: "unat (ucast t :: u64) = unat t" by (rule unat_ucast_up) simp
  then show "(ucast t :: u64) < 0x100000000" using unat_lt_power [of t] by (simp add: word_less_nat_alt)
  show "(ucast (ucast t :: u64) :: u32) = t" by (rule bit_word_eqI) (auto simp: bit_simps)
  show "4096 dvd unat t \<Longrightarrow> page_aligned (ucast t)" by (simp add: page_aligned_dvd u)
qed

text \<open>On the loader's tables the processor finds what the loader put there.\<close>

lemma awd_link_next:
  assumes "awd_link e"
  shows "bit e 0" "\<not> bit e 7" "entry_frame e = ucast (awd_table_of e)"
proof -
  let ?t = "awd_table_of e"
  have e: "e = ucast ?t OR 3" using assms unfolding awd_link_def by (metis awd_table_entry_or)
  have al: "page_aligned (ucast ?t :: u64)" using assms ucast_table(3) by (simp add: awd_link_def)
  show "entry_frame e = ucast ?t" using entry_frame_aligned(1) [OF al ucast_table(1)] e by simp
  have low: "\<not> bit (ucast ?t :: u64) 7" using al by (simp add: page_aligned_bits)
  have "bit (3 :: u64) 0" "\<not> bit (3 :: u64) 7" by simp_all
  with low show "bit e 0" "\<not> bit e 7" by (subst e, simp add: bit_or_iff)+
qed

lemma physical_table [simp]: "physical_entry m (ucast t) i = slot m t i"
  using ucast_table [of t] by (simp add: physical_entry_def)

lemma linked_entry:
  assumes links: "tree_links awd_link awd_table_of (slot m) p4"
    and t: "awd_walk m p4 is = Some t" "path (is @ [i])" "awd_walk m p4 (is @ [i]) = Some u"
  shows "bit (slot m t i) 0" "\<not> bit (slot m t i) 7" "entry_frame (slot m t i) = ucast u"
proof -
  have "slot m t i \<noteq> 0" and u: "u = awd_table_of (slot m t i)"
    using t(1,3) by (auto simp: walk_snoc tree_next_def split: if_splits)
  then have "awd_link (slot m t i)" using links t(1,2) unfolding tree_links_def by blast
  from awd_link_next [OF this] show "bit (slot m t i) 0" "\<not> bit (slot m t i) 7" "entry_frame (slot m t i) = ucast u"
    by (simp_all add: u)
qed

lemma processor_on_tree:
  assumes links: "tree_links awd_link awd_table_of (slot m) p4" and root: "4096 dvd unat p4"
    and t: "awd_walk m p4 (table_path v) = Some t" and leaf: "bit (slot m t (index_p1 v)) 0" and canon: "canonical v"
  shows "processor_translate (physical_entry m) (ucast p4) v = Some (entry_frame (slot m t (index_p1 v)) OR (v AND 0xFFF))"
proof -
  have paths: "path ([] @ [index_p4 v])" "path ([index_p4 v] @ [index_p3 v])" "path ([index_p4 v, index_p3 v] @ [index_p2 v])"
    by (simp_all add: path_def)
  obtain t3 t2 where w: "awd_walk m p4 ([] @ [index_p4 v]) = Some t3" "awd_walk m p4 ([index_p4 v] @ [index_p3 v]) = Some t2"
      "awd_walk m p4 ([index_p4 v, index_p3 v] @ [index_p2 v]) = Some t" "awd_walk m p4 [] = Some p4"
    using t by (auto simp: table_path_def split: option.splits)
  note 4 = linked_entry [OF links w(4) paths(1) w(1)]
  note 3 = linked_entry [OF links w(1) [simplified append_Nil] paths(2) w(2)]
  note 2 = linked_entry [OF links w(2) [simplified append.simps] paths(3) w(3)]
  have "entry_frame (ucast p4) = ucast p4" by (rule entry_frame_aligned(2) [OF ucast_table(3) [OF root] ucast_table(1)])
  then show ?thesis using 4 3 2 leaf canon by (simp add: processor_translate_def Let_def)
qed

text \<open>An offset into pages that start at \<open>w\<close>: the page, and the offset in it.\<close>

lemma page_split:
  fixes w :: u64 and off :: nat
  assumes "page_aligned w"
  defines "f \<equiv> w + of_nat (off div 4096) * 0x1000" and "r \<equiv> off mod 4096"
  shows "w + of_nat off = f + of_nat r" "page_aligned f" "r < 4096"
proof -
  show "r < 4096" by (simp add: r_def)
  have "4096 dvd (off div 4096 * 4096) mod 2 ^ 64" by (intro dvd_mod) simp_all
  then have "page_aligned (of_nat (off div 4096) * 0x1000)" by (simp add: page_aligned_dvd unat_word_ariths unat_of_nat mod_simps)
  then show "page_aligned f" using page_aligned_add assms(1) by (simp add: f_def)
  have "of_nat off = (of_nat (off div 4096 * 4096 + r) :: u64)" by (simp only: r_def div_mult_mod_eq)
  also have "\<dots> = of_nat (off div 4096) * 0x1000 + of_nat r" by (simp only: of_nat_add of_nat_mult of_nat_numeral)
  finally show "w + of_nat off = f + of_nat r" by (simp only: f_def add.assoc)
qed

lemma read_mapped:
  assumes links: "tree_links awd_link awd_table_of (slot m) p4" "4096 dvd unat p4" and canon: "canonical (v0 + of_nat off)"
    and v0: "page_aligned v0" and frame: "4096 dvd base" "base + off < 2 ^ 32"
    and pte: "\<And>w. vpage w = vpage (v0 + of_nat (off div 4096) * 0x1000) \<Longrightarrow>
      awd_pte m p4 w = (of_nat base + of_nat (off div 4096) * 0x1000) OR 3"
  shows "awd_read m p4 (v0 + of_nat off) = Some (m (of_nat (base + off)))"
proof -
  let ?v = "v0 + of_nat off" and ?f = "of_nat base + of_nat (off div 4096) * 0x1000 :: u64"
  have "4096 dvd base mod 2 ^ 64" using frame(1) by (intro dvd_mod) simp_all
  then have "page_aligned (of_nat base)" by (simp add: page_aligned_dvd unat_of_nat)
  note f = page_split [OF this, of off] and w = page_split [OF v0, of off]
  have leaf: "awd_pte m p4 ?v = ?f OR 3" unfolding w(1) by (rule pte [OF page_plus(1) [OF w(2,3)]])
  have present: "bit (?f OR 3) 0" by (simp add: bit_or_iff)
  then have "?f OR 3 \<noteq> 0" by (metis bit_0_eq bot_apply bot_bool_def)
  then obtain t where t: "awd_walk m p4 (table_path ?v) = Some t" "slot m t (index_p1 ?v) = ?f OR 3"
    using leaf by (auto simp: awd_pte_def tree_leaf_def split: option.splits)
  have f32: "?f < 0x100000000"
  proof -
    have "base + off div 4096 * 4096 < 2 ^ 32" using frame(2) div_times_less_eq_dividend [of off 4096] by linarith
    then have "unat (of_nat (base + off div 4096 * 4096) :: u64) < 2 ^ 32" by (simp add: unat_of_nat del: of_nat_add of_nat_mult)
    then show ?thesis by (simp add: word_less_nat_alt)
  qed
  have p: "processor_translate (physical_entry m) (ucast p4) ?v = Some (?f OR (?v AND 0xFFF))"
    using processor_on_tree [OF links t(1) _ canon] t(2) present entry_frame_aligned(1) [OF f(2) f32] by simp
  have "?f OR (?v AND 0xFFF) = ?f + of_nat (off mod 4096)"
    unfolding w(1) page_plus(2) [OF w(2,3)] by (rule page_plus(3) [OF f(2,3)])
  also have "\<dots> = of_nat (base + off)" by (simp only: of_nat_add f(1))
  finally have at: "?f OR (?v AND 0xFFF) = of_nat (base + off)" .
  have "(ucast (of_nat (base + off) :: u64) :: u32) = of_nat (base + off)" "of_nat (base + off) < (0x100000000 :: u64)"
    using frame(2) by (simp_all add: word_less_nat_alt word_unat_eq_iff unat_ucast_mod unat_of_nat del: of_nat_add)
  then show ?thesis using p unfolding at by (simp add: awd_read_def del: of_nat_add)
qed

section \<open>The second half\<close>

text \<open>The regions that are mapped: \<open>base\<close> is where the heap and in it the kernel's image of \<open>n\<close> bytes begin.\<close>

definition handover_regions :: "awd_env \<Rightarrow> nat \<Rightarrow> u64 \<Rightarrow> nat \<Rightarrow> awd_mapped_region list" where
  "handover_regions env base v0 n =
     (let same = \<lambda>s e. \<lparr>phys_start = s, phys_end = e, virt_start = s, virt_end = e, map_attribute = PAGING_ATTRIBUTE_READWRITE\<rparr> in
      [same 0 0xFFFFF, same (awd_phys_start env) (PAGE_ROUND_UP (awd_phys_end env) - 1),
       same (of_nat base) (of_nat base + AWD_ALLOC_SIZE - 1),
       \<lparr>phys_start = 0, phys_end = 0x200000, virt_start = 0xFFFFFFFF80000000, virt_end = 0xFFFFFFFF80200000,
        map_attribute = PAGING_ATTRIBUTE_READWRITE\<rparr>,
       \<lparr>phys_start = of_nat base, phys_end = of_nat base + of_nat n, virt_start = v0, virt_end = v0 + of_nat n,
        map_attribute = PAGING_ATTRIBUTE_READWRITE\<rparr>])"

text \<open>What the linker gives: the image of the loader below 4 GiB, the root aligned above the screen and below the heap.\<close>

definition linked_at :: "awd_env \<Rightarrow> nat \<Rightarrow> bool" where
  "linked_at env base \<longleftrightarrow> awd_phys_start env < awd_phys_end env \<and> unat (awd_phys_end env) < 2 ^ 32 \<and>
     4096 dvd unat (paging_pml4 env) \<and> 0xB9000 \<le> unat (paging_pml4 env) \<and> unat (paging_pml4 env) + 4096 \<le> base"

lemma handover_regions_ok:
  assumes "linked_at env base" and "n < 2 ^ 32"
  shows "\<forall>r \<in> set (handover_regions env base v0 n). region_ok r" "region_count (handover_regions env base v0 n ! 4) = page_count (of_nat n)"
    "0 < card (tables_for (handover_regions env base v0 n))"
proof -
  let ?p = "awd_phys_end env" and ?s = "awd_phys_start env"
  have "unat ?p + 4095 < 2 ^ 64" using assms(1) by (simp add: linked_at_def)
  note up = PAGE_ROUND_UP_unat [OF this]
  have le: "unat ?s < unat ?p" "unat ?p < 2 ^ 32" using assms(1) by (simp_all add: linked_at_def word_less_nat_alt)
  have up': "unat ?p \<le> unat (PAGE_ROUND_UP ?p)" "unat (PAGE_ROUND_UP ?p) < 2 ^ 33"
    using up le(2) round_page_bounds [of "unat ?p"] by (simp_all add: round_page_def)
  have one: "unat (PAGE_ROUND_UP ?p - 1) = unat (PAGE_ROUND_UP ?p) - 1" using up'(1) le(1) by (subst unat_sub_le) simp_all
  then have "unat (PAGE_ROUND_UP ?p - 1 - ?s) \<le> unat (PAGE_ROUND_UP ?p)" using up'(1) le(1) by (subst unat_sub_le) simp_all
  then have "unat (PAGE_ROUND_UP ?p - 1 - ?s) + 0x1000 \<le> 2 ^ 64" using up'(2) by simp
  then show "\<forall>r \<in> set (handover_regions env base v0 n). region_ok r"
    using assms(2) by (simp add: handover_regions_def region_ok_def AWD_ALLOC_SIZE_def unat_of_nat)
  show "region_count (handover_regions env base v0 n ! 4) = page_count (of_nat n)"
    by (simp add: handover_regions_def region_count_def)
  have "region_count (handover_regions env base v0 n ! 0) = 256"
    by (simp add: handover_regions_def region_count_def page_count_def)
  then have "prefixes_of (region_page (handover_regions env base v0 n ! 0) 0) \<subseteq> tables_for (handover_regions env base v0 n)"
    by (fastforce simp: tables_for_def handover_regions_def)
  then show "0 < card (tables_for (handover_regions env base v0 n))"
    using tables_for_paths(1) by (auto simp: card_gt_0_iff prefixes_of_def)
qed

text \<open>What the second half is given: the heap at \<open>base\<close> has given out \<open>n\<close> bytes, the rest is zero.\<close>

definition heap_used :: "awd_env \<Rightarrow> nat \<Rightarrow> nat \<Rightarrow> loader \<Rightarrow> bool" where
  "heap_used env base n st \<longleftrightarrow> text_ok st \<and> alloc_enabled st \<and> heap_phys_current st = of_nat (base + n) \<and>
     heap_phys_limit st = of_nat base + AWD_ALLOC_SIZE \<and>
     (\<forall>x. base + n \<le> unat x \<and> unat x < base + 0x40000 \<longrightarrow> amem st x = 0) \<and>
     region_low_memory (mem st) = \<lparr>r_start = 0, r_end = 0xFFFFF\<rparr> \<and>
     region_awd_image (mem st) = \<lparr>r_start = awd_phys_start env, r_end = PAGE_ROUND_UP (awd_phys_end env) - 1\<rparr> \<and>
     region_awd_malloc (mem st) = \<lparr>r_start = of_nat base, r_end = of_nat base + AWD_ALLOC_SIZE - 1\<rparr> \<and>
     paging_queue_num st = 0 \<and> length (paging_queue st) = 10"

lemma heap_used_bounds:
  assumes "heap_used env base n st" and "base + 0x40000 \<le> 2 ^ 32" and "n < 0x40000"
  shows "loader_cursor st = base + n" "loader_limit st = base + 0x40000"
proof -
  show "loader_cursor st = base + n" using assms by (simp add: heap_used_def unat_of_nat del: of_nat_add)
  have "heap_phys_limit st = of_nat (base + 0x40000)" using assms(1) by (simp add: heap_used_def AWD_ALLOC_SIZE_def)
  then show "loader_limit st = base + 0x40000" using assms(2) by (simp add: unat_of_nat del: of_nat_add)
qed

text \<open>The image of the kernel, then the queue, then the tables.\<close>

abbreviation kernel_at :: "nat \<Rightarrow> nat \<Rightarrow> u64 \<Rightarrow> u64 \<Rightarrow> kernel_loaded_info" where
  "kernel_at base n v0 start \<equiv> \<lparr>memory_image = \<lparr>kr_start = of_nat base, kr_size = of_nat n\<rparr>,
     loaded_virt = \<lparr>kr_start = v0, kr_size = of_nat n\<rparr>, virtual_entry = start\<rparr>"

lemma handover_loads:
  fixes info :: kernel_info and n base :: nat
  assumes used: "heap_used env base 0 st" and info: "image_start info = a" "unat (kr_size (k_phys info)) = n"
    "k_virt info = \<lparr>kr_start = v0, kr_size = kr_size (k_phys info)\<rparr>"
    and elf: "elf_inside (amem st) a len" and fit: "segments_fit (amem st) a v0 n" and order: "unat a + len \<le> base"
    and base: "4096 dvd base" "base + 0x40000 \<le> 2 ^ 32" and n: "n + 4096 < 0x40000"
  shows "\<exists>s. kernel_load st info = Inr (kernel_at base n v0 (e_entry (read_elf64_header (amem st) a)), s) \<and>
    heap_used env base n s \<and> loaded_from (amem st) a v0 (of_nat base) 0 (amem st) (amem s)"
proof -
  have cur: "loader_cursor st = base" "loader_limit st = base + 0x40000" using heap_used_bounds [OF used base(2)] by simp_all
  have enabled: "alloc_enabled st" and v0: "kr_start (k_virt info) = v0" using used info(3) by (simp_all add: heap_used_def)
  have lim: "loader_limit st \<le> 2 ^ 32" "loader_cursor st + n + 4096 < loader_limit st" "unat a + len \<le> loader_cursor st"
    using cur base(2) n order by simp_all
  obtain kp s where ld: "kernel_load st info = Inr (\<lparr>memory_image = \<lparr>kr_start = ucast kp, kr_size = kr_size (k_phys info)\<rparr>,
       loaded_virt = k_virt info, virtual_entry = e_entry (read_elf64_header (amem st) a)\<rparr>, s)"
    "4096 dvd unat kp" "loader_cursor st \<le> unat kp" "unat kp < loader_cursor st + 4096"
    "s = st\<lparr>heap_phys_current := of_nat (unat kp + n), amem := amem s, mem := (mem st)\<lparr>region_kernel_image :=
       \<lparr>r_start = ucast kp, r_end = ucast kp + kr_size (k_phys info) - 1\<rparr>\<rparr>\<rparr>"
    "loaded_from (amem st) a v0 kp 0 (amem st) (amem s)"
    by (rule kernel_load_result [OF refl info(1) elf fit info(2) v0 enabled lim]) blast
  obtain i j where "unat kp = 4096 * i" "base = 4096 * j" using ld(2) base(1) by blast
  then have kp: "unat kp = base" using ld(3,4) cur(1) by simp
  have wide: "kp = of_nat base" "(ucast kp :: u64) = of_nat base"
  proof -
    show "kp = of_nat base" by (simp flip: kp)
    have "unat (ucast kp :: u64) = unat (of_nat base :: u64)"
      using base(2) by (simp add: unat_ucast_up kp) (simp add: unat_of_nat)
    then show "(ucast kp :: u64) = of_nat base" by (simp only: word_unat_eq_iff)
  qed
  have "amem s x = 0" if x: "base + n \<le> unat x" "unat x < base + 0x40000" for x
  proof -
    have "\<not> in_range x kp n" using x(1) kp n base(2) by (simp add: in_range_unat)
    then have "amem s x = amem st x" using loaded_outside [OF ld(6) fit] kp n base(2) by simp
    then show ?thesis using used x by (simp add: heap_used_def)
  qed
  then have "heap_used env base n s"
    using used by (subst ld(5)) (simp add: heap_used_def kp text_ok_def con_ok_def con_def)
  moreover have "kr_size (k_phys info) = of_nat n" by (simp flip: info(2))
  ultimately show ?thesis using ld(1,6) info(3) unfolding wide(2) by (intro exI [of _ s]) (simp add: wide(1))
qed

lemma handover_queues:
  assumes used: "heap_used env base n st" and base: "4096 dvd base" "base + 0x40000 \<le> 2 ^ 32" and n: "4096 dvd n" "n + 4096 < 0x40000"
    and link: "linked_at env base"
  obtains s where "paging_init st (kernel_at base n v0 start) = Inr s" "queue_ok s" "queued s = handover_regions env base v0 n"
    "paging_ready (paging_pml4 env) s" "loader_cursor s = base + n" "loader_limit s = base + 0x40000"
    "heap_phys_limit s = heap_phys_limit st" "\<And>x. base \<le> unat x \<Longrightarrow> amem s x = amem st x"
proof -
  have regions: "boot_regions (mem st) (kernel_at base n v0 start) = handover_regions env base v0 n"
    using used by (simp add: boot_regions_def handover_regions_def Let_def heap_used_def)
  have st: "text_ok st" "paging_queue_num st = 0" "length (paging_queue st) = 10" "alloc_enabled st"
    using used by (simp_all add: heap_used_def)
  obtain s where s: "paging_init st (kernel_at base n v0 start) = Inr s" "text_ok s" "queue_ok s" "queued s = handover_regions env base v0 n"
      "same_but_screen (st\<lparr>paging_queue := paging_queue s, paging_queue_num := 5\<rparr>) s"
    using paging_init_result [OF st(1-3), of "kernel_at base n v0 start"] regions by auto
  note f = same_but_screen_fields [OF s(5), simplified]
  have n': "n < 0x40000" using n(2) by simp
  have cur: "loader_cursor s = base + n" "loader_limit s = base + 0x40000" using heap_used_bounds [OF used base(2) n'] f by simp_all
  have image: "amem s x = amem st x" if "base \<le> unat x" for x
    using f(9) [of x] that link in_range_unat [of "0xB8000 :: u32" 4000 x] by (simp add: linked_at_def)
  have "amem s x = 0" if "base + n \<le> unat x" "unat x < base + 0x40000" for x
    using image [of x] used that by (simp add: heap_used_def)
  then have "paging_ready (paging_pml4 env) s"
    using s(2) link f(4) st(4) cur base(2) n(2) by (simp add: paging_ready_def linked_at_def)
  then show thesis using that s(1,3,4) cur f(3) image by simp
qed

lemma handover_maps:
  assumes used: "heap_used env base n st" and base: "4096 dvd base" "base + 0x40000 \<le> 2 ^ 32" and n: "4096 dvd n"
    and link: "linked_at env base" and room: "n + 4096 * card (tables_for (handover_regions env base v0 n)) + spare < 0x40000"
  shows "\<exists>s2 s3 s4. paging_init st (kernel_at base n v0 start) = Inr s2 \<and> paging_commit (paging_pml4 env) s2 = Inr s3 \<and>
    memory_regions_print s3 = Inr s4 \<and> paging_cr3 s4 = Some (paging_pml4 env) \<and> heap_phys_limit s4 = heap_phys_limit st \<and>
    base + n \<le> loader_cursor s4 \<and> loader_cursor s4 + spare < base + 0x40000 \<and>
    (\<forall>x. base \<le> unat x \<and> unat x < base + n \<longrightarrow> amem s4 x = amem st x) \<and>
    tree_links awd_link awd_table_of (slot (amem s4)) (paging_pml4 env) \<and>
    (\<forall>w. awd_pte (amem s4) (paging_pml4 env) w = last_entry (concat (map region_map (handover_regions env base v0 n))) 0 (vpage w))"
proof -
  let ?rs = "handover_regions env base v0 n" and ?p4 = "paging_pml4 env"
  have n': "n + 4096 < 0x40000" "n < 2 ^ 32" using room handover_regions_ok(3) [OF link, of n v0] by simp_all
  obtain s2 where s2: "paging_init st (kernel_at base n v0 start) = Inr s2" "queue_ok s2" "queued s2 = ?rs" "paging_ready ?p4 s2"
    "loader_cursor s2 = base + n" "loader_limit s2 = base + 0x40000" "heap_phys_limit s2 = heap_phys_limit st"
    "\<And>x. base \<le> unat x \<Longrightarrow> amem s2 x = amem st x"
    using handover_queues [OF used base n n'(1) link] by metis
  have round: "round_page (base + n) = base + n" using base(1) n by (intro round_page_unique) (simp_all add: dvd_add)
  have "\<forall>r \<in> set (queued s2). region_ok r"
    "round_page (loader_cursor s2) + 4096 * card (tables_for (queued s2)) + spare < loader_limit s2"
    using handover_regions_ok(1) [OF link n'(2)] room by (simp_all add: s2(3,5,6) round)
  from paging_commit_result [OF s2(4,2) this] obtain s3 where s3: "paging_commit ?p4 s2 = Inr s3" "paging_cr3 s3 = Some ?p4"
      "text_ok s3" "loader_vm (base + n) ?p4 s3" "heap_phys_limit s3 = heap_phys_limit s2"
      "\<And>w. awd_pte (amem s3) ?p4 w = last_entry (concat (map region_map ?rs)) 0 (vpage w)"
      "\<And>x. unat x < base + n \<Longrightarrow> \<not> table_bytes ?p4 x \<Longrightarrow> \<not> in_range x 0xB8000 4000 \<Longrightarrow> amem s3 x = amem s2 x"
      "loader_cursor s3 + spare < loader_limit s3"
    unfolding s2(3,5) by blast
  obtain s4 where s4: "memory_regions_print s3 = Inr s4" "text_ok s4" "same_but_screen s3 s4"
    using regions_print [OF s3(3)] by blast
  note f = same_but_screen_fields [OF s4(3)]
  have above: "0xB9000 \<le> base + n" "0xB9000 \<le> unat ?p4" using link by (simp_all add: linked_at_def)
  note out = same_screen_vm [OF s3(4) s4(3) above]
  have "amem s4 x = amem st x" if x: "base \<le> unat x" "unat x < base + n" for x
  proof -
    have "\<not> in_range x 0xB8000 4000" using x link in_range_unat [of "0xB8000 :: u32" 4000 x] by (simp add: linked_at_def)
    moreover have "\<not> table_bytes ?p4 x" using x link table_bytes_unat [of ?p4 x] by (simp add: linked_at_def)
    ultimately show ?thesis using f(9) s3(7) s2(8) x by simp
  qed
  moreover have "base + n \<le> loader_cursor s4" "loader_cursor s4 + spare < base + 0x40000"
    using s3(4,5,8) f s2(6,7) by (simp_all add: loader_vm_def)
  moreover have "paging_cr3 s4 = Some ?p4" "heap_phys_limit s4 = heap_phys_limit st" using f s3(2,5) s2(7) by simp_all
  moreover have "tree_links awd_link awd_table_of (slot (amem s4)) ?p4" using out(1) by (simp add: loader_vm_def)
  ultimately show ?thesis using s2(1) s3(1,6) s4(1) out(2) by auto
qed

text \<open>Through these tables the bytes from the image's lowest address on are those of the image.\<close>

lemma image_read:
  assumes pte: "\<And>w. awd_pte m p4 w = last_entry (concat (map region_map (handover_regions env base v0 n))) 0 (vpage w)"
    and v0: "page_aligned v0" and base: "4096 dvd base" "base + 0x40000 \<le> 2 ^ 32" and link: "linked_at env base"
    and n: "n < 0x40000" "off < n" and root: "p4 = paging_pml4 env" and links: "tree_links awd_link awd_table_of (slot m) p4" and canon: "canonical (v0 + of_nat off)"
  shows "awd_read m p4 (v0 + of_nat off) = Some (m (of_nat (base + off)))"
proof -
  let ?rs = "handover_regions env base v0 n"
  have n32: "n < 2 ^ 32" using n(1) by simp
  have count: "page_count (of_nat n) = (n + 4095) div 4096" using n(1) by (simp add: page_count_def unat_of_nat)
  have q: "off div 4096 < page_count (of_nat n)" using n(2) by (simp add: count)
  have fits: "base + off < 2 ^ 32" using n base(2) by simp
  have pages: "awd_pte m p4 w = (of_nat base + of_nat (off div 4096) * 0x1000) OR 3"
    if w: "vpage w = vpage (v0 + of_nat (off div 4096) * 0x1000)" for w
  proof -
    have "region_page (?rs ! 4) q = v0 + of_nat q * 0x1000" "region_entry (?rs ! 4) q = (of_nat base + of_nat q * 0x1000) OR 3"
      "length ?rs = 5" for q
      by (simp_all add: handover_regions_def region_page_def region_entry_def PAGING_ATTRIBUTE_READWRITE_def)
    moreover have "page_count (of_nat n) \<le> 2 ^ 36" using n(1) by (simp add: count)
    ultimately show ?thesis
      using last_entry_regions [of 4 ?rs "off div 4096" 0] q handover_regions_ok(2) [OF link n32] w by (simp add: pte)
  qed
  have "4096 dvd unat p4" using link root by (simp add: linked_at_def)
  from read_mapped [OF links this canon v0 base(1) fits pages] show ?thesis .
qed

lemma handover_result:
  fixes info :: kernel_info and n base :: nat
  assumes used: "heap_used env base 0 st" and info: "image_start info = a" "unat (kr_size (k_phys info)) = n"
    "k_virt info = \<lparr>kr_start = v0, kr_size = kr_size (k_phys info)\<rparr>"
    and elf: "elf_inside (amem st) a len" and fit: "segments_fit (amem st) a v0 n" and order: "unat a + len \<le> base"
    and v0: "page_aligned v0" and n: "4096 dvd n" and base: "4096 dvd base" "base + 0x40000 \<le> 2 ^ 32" and link: "linked_at env base"
    and room: "n + 4096 * card (tables_for (handover_regions env base v0 n)) + spare < 0x40000"
  shows "\<exists>st' awd m2. awd_handover env mb st info = Inr (st', awd, e_entry (read_elf64_header (amem st) a)) \<and>
    paging_cr3 st' = Some (paging_pml4 env) \<and> loaded_from (amem st) a v0 (of_nat base) 0 (amem st) m2 \<and>
    (\<forall>off < n. canonical (v0 + of_nat off) \<longrightarrow>
       awd_read (amem st') (paging_pml4 env) (v0 + of_nat off) = Some (m2 (of_nat (base + off)))) \<and>
    awd = awd_info_initial\<lparr>log_cursor_y := con_y (console_data st'), multiboot_struct := mb,
      ptr_malloc_current := ucast (heap_phys_current st'), ptr_malloc_limit := of_nat (base + 0x40000)\<rparr> \<and>
    base + n \<le> loader_cursor st' \<and> loader_cursor st' + spare < base + 0x40000"
proof -
  have n18: "n + 4096 < 0x40000" "n < 0x40000" using room handover_regions_ok(3) [OF link, of n v0] by simp_all
  let ?start = "e_entry (read_elf64_header (amem st) a)"
  obtain s1 where s1: "kernel_load st info = Inr (kernel_at base n v0 ?start, s1)" "heap_used env base n s1"
      "loaded_from (amem st) a v0 (of_nat base) 0 (amem st) (amem s1)"
    using handover_loads [OF used info elf fit order base n18(1)] by blast
  from handover_maps [OF s1(2) base n link room, of ?start] obtain s2 s3 s4 where s4:
      "paging_init s1 (kernel_at base n v0 ?start) = Inr s2" "paging_commit (paging_pml4 env) s2 = Inr s3"
      "memory_regions_print s3 = Inr s4" "paging_cr3 s4 = Some (paging_pml4 env)" "heap_phys_limit s4 = heap_phys_limit s1"
      "base + n \<le> loader_cursor s4" "loader_cursor s4 + spare < base + 0x40000"
      "\<And>x. base \<le> unat x \<Longrightarrow> unat x < base + n \<Longrightarrow> amem s4 x = amem s1 x"
      "tree_links awd_link awd_table_of (slot (amem s4)) (paging_pml4 env)"
      "\<And>w. awd_pte (amem s4) (paging_pml4 env) w = last_entry (concat (map region_map (handover_regions env base v0 n))) 0 (vpage w)"
    by blast
  have "(ucast (of_nat base + AWD_ALLOC_SIZE :: u64) :: u32) = of_nat (base + 0x40000)"
    by (simp add: word_unat_eq_iff unat_ucast_mod unat_of_nat unat_word_ariths AWD_ALLOC_SIZE_def mod_simps mod_mod_cancel)
  then have limit: "(ucast (heap_phys_limit s4) :: u32) = of_nat (base + 0x40000)" using s4(5) s1(2) by (simp add: heap_used_def)
  have "awd_read (amem s4) (paging_pml4 env) (v0 + of_nat off) = Some (amem s1 (of_nat (base + off)))"
    if "off < n" "canonical (v0 + of_nat off)" for off
  proof -
    have "unat (of_nat (base + off) :: u32) = base + off" using that n18 base(2) by (simp add: unat_of_nat del: of_nat_add)
    then show ?thesis
      using image_read [OF s4(10) v0 base link n18(2) that(1) refl s4(9) that(2)] s4(8) [of "of_nat (base + off)"] that(1)
      by (simp del: of_nat_add)
  qed
  moreover have "awd_handover env mb st info = Inr (s4, awd_info_initial\<lparr>log_cursor_y := con_y (console_data s4), multiboot_struct := mb,
      ptr_malloc_current := ucast (heap_phys_current s4), ptr_malloc_limit := of_nat (base + 0x40000)\<rparr>, ?start)"
    using s1(1) s4(1-3) limit
    by (simp add: awd_handover_def Let_def alloc_get_current_def alloc_get_limit_def console_get_y_def con_def)
  ultimately show ?thesis using s4(4,6,7) s1(3) by blast
qed

section \<open>The whole way\<close>

lemma kernel_bytes_pages: "4096 dvd kernel_bytes m a"
proof -
  have "4096 dvd sum_list (map (\<lambda>ph. round_page (memory_bytes ph)) phs)" for phs
    by (induction phs) (simp_all add: round_page_def)
  then show ?thesis by (simp add: kernel_bytes_def)
qed

lemma heap_base_after:
  assumes "0 < unat e"
  shows "PAGE_ROUND_UP (PAGE_ROUND_UP (ucast (e :: u32)) - 1) = of_nat (round_page (unat e))"
proof -
  let ?b = "round_page (unat e)"
  have e: "unat (ucast e :: u64) = unat e" "unat e < 2 ^ 32" using unat_ucast_up [of e, where 'b = 64] unat_lt_power [of e] by simp_all
  then have "unat (PAGE_ROUND_UP (ucast e)) = ?b" by (simp add: PAGE_ROUND_UP_unat round_page_def)
  moreover have b: "0 < ?b" "?b < 2 ^ 33" using round_page_bounds [of "unat e"] assms e(2) by simp_all
  ultimately have "unat (PAGE_ROUND_UP (ucast e) - 1) = ?b - 1" by (subst unat_sub_le) simp_all
  then have "unat (PAGE_ROUND_UP (PAGE_ROUND_UP (ucast e) - 1)) = (?b - 1 + 4095) div 4096 * 4096"
    using b by (subst PAGE_ROUND_UP_unat) simp_all
  also have "\<dots> = round_page (?b - 1)" by (simp add: round_page_def)
  also have "\<dots> = ?b" using round_page_bounds(1) [of "unat e"] b(1) by (intro round_page_unique) simp_all
  finally show ?thesis using b(2) by (simp add: word_unat_eq_iff unat_of_nat)
qed

lemma off_screen_above:
  fixes x :: u32
  shows "same_off_screen 0xB8000 m m' \<Longrightarrow> 0xB9000 \<le> unat x \<Longrightarrow> m' x = m x"
  using in_range_unat [of "0xB8000 :: u32" 4000 x] by (simp add: same_off_screen_def)

lemma off_screen_file:
  fixes x :: u32
  assumes "same_off_screen 0xB8000 m m'" and "elf_inside m a len" and "0xB9000 \<le> unat a" and "in_range x a len"
  shows "m' x = m x"
proof -
  have "unat a + len \<le> 2 ^ 32" using assms(2) by (simp add: elf_inside_def)
  then show ?thesis using off_screen_above [OF assms(1), of x] assms(3,4) by (simp add: in_range_unat)
qed

text \<open>Everything up to the second half.\<close>

lemma awd_main_reaches_handover:
  fixes m :: "32 bytes" and a e :: u32
  defines "v0 \<equiv> kernel_base m a" and "n \<equiv> kernel_bytes m a" and "base \<equiv> round_page (unat e)"
  assumes ok: "mb_magic = 0x2BADB002" "check_cpuid env \<noteq> 0" "check_longmode env \<noteq> 0"
    and says: "multiboot_says (kernel_tag_name env) m mb a e"
    and elf: "elf_check (read_elf64_header m a)" "elf_inside m a len" "unat a + len \<le> unat e" "0xB9000 \<le> unat a"
    and n: "n < 2 ^ 32" and heap: "base + 0x40000 \<le> 2 ^ 32" "\<forall>x. base \<le> unat x \<and> unat x < base + 0x40000 \<longrightarrow> m x = 0"
  obtains st info where "awd_main env mb_magic mb (start_state m) = awd_handover env mb st info"
    "heap_used env base 0 st" "same_off_screen 0xB8000 m (amem st)" "image_start info = a" "unat (kr_size (k_phys info)) = n"
    "k_virt info = \<lparr>kr_start = v0, kr_size = kr_size (k_phys info)\<rparr>"
proof -
  let ?i0 = "\<lparr>image_start = a, image_end = e, k_phys = stack_garbage env, k_virt = stack_garbage env\<rparr>"
  obtain st where st: "awd_main env mb_magic mb (start_state m) = bind_r (kernel_analyse st ?i0) (\<lambda>(info, st).
        awd_handover env mb (memory_heap_init st (PAGE_ROUND_UP (r_end (region_multiboot_files (mem st))))) info)"
    "text_ok st" "same_off_screen 0xB8000 m (amem st)" "paging_queue_num st = 0" "length (paging_queue st) = 10"
    "region_low_memory (mem st) = \<lparr>r_start = 0, r_end = 0xFFFFF\<rparr>"
    "region_awd_image (mem st) = \<lparr>r_start = awd_phys_start env, r_end = PAGE_ROUND_UP (awd_phys_end env) - 1\<rparr>"
    "r_end (region_multiboot_files (mem st)) = PAGE_ROUND_UP (ucast e) - 1"
    by (rule awd_main_analyses [OF ok says])
  have bounds: "64 \<le> len" "unat e \<le> base"
    using elf(2) round_page_bounds [of "unat e"] by (simp_all add: elf_inside_def base_def)
  note same = elf_file_same [OF elf(2) off_screen_file [OF st(3) elf(2,4)]]
  have hd: "read_elf64_header (amem st) a = read_elf64_header m a" using same(3) by blast
  have lh: "load_headers (amem st) a = load_headers m a" using same(5) by blast
  have "kernel_bytes (amem st) (image_start ?i0) < 2 ^ 32" using n lh by (simp add: kernel_bytes_def n_def)
  moreover have "elf_check (read_elf64_header (amem st) (image_start ?i0))" using elf(1) hd by simp
  ultimately obtain phys virt s1 where s1: "kernel_analyse st ?i0 = Inr (?i0\<lparr>k_phys := phys, k_virt := virt\<rparr>, s1)" "text_ok s1"
      "same_but_screen st s1" "unat (kr_size phys) = n" "kr_size virt = kr_size phys" "kr_start virt = v0"
    using kernel_analyse_result [OF st(2), of ?i0] lh by (auto simp: kernel_bytes_def kernel_base_def n_def v0_def)
  note f = same_but_screen_fields [OF s1(3)]
  have "same_off_screen 0xB8000 (amem st) (amem s1)" using s1(3) by (simp add: same_but_screen_def)
  then have off: "same_off_screen 0xB8000 m (amem s1)" using same_off_screen_trans [OF st(3)] by blast
  have "amem s1 x = 0" if "base \<le> unat x" "unat x < base + 0x40000" for x
    using that heap(2) off_screen_above [OF off, of x] bounds elf(3,4) by simp
  then have "heap_used env base 0 (memory_heap_init s1 (of_nat base))"
    using s1(2) f st(4-7) by (simp add: heap_used_def memory_heap_init_def alloc_init_def text_ok_def con_ok_def con_def)
  moreover have "0 < unat e" using elf(3) bounds(1) by simp
  then have "awd_main env mb_magic mb (start_state m) =
      awd_handover env mb (memory_heap_init s1 (of_nat base)) (?i0\<lparr>k_phys := phys, k_virt := virt\<rparr>)"
    using st(1,8) s1(1) f(5) heap_base_after by (simp add: base_def)
  moreover have "amem (memory_heap_init s1 (of_nat base)) = amem s1" by (simp add: memory_heap_init_def alloc_init_def)
  ultimately show thesis using that s1(4-6) off by simp
qed

lemma awd_main_result:
  fixes m :: "32 bytes" and a e :: u32
  defines "v0 \<equiv> kernel_base m a" and "n \<equiv> kernel_bytes m a" and "base \<equiv> round_page (unat e)"
  assumes ok: "mb_magic = 0x2BADB002" "check_cpuid env \<noteq> 0" "check_longmode env \<noteq> 0"
    and says: "multiboot_says (kernel_tag_name env) m mb a e"
    and elf: "elf_check (read_elf64_header m a)" "elf_inside m a len" "unat a + len \<le> unat e" "0xB9000 \<le> unat a"
    and fit: "segments_fit m a v0 n" and v0: "page_aligned v0" and link: "linked_at env base"
    and heap: "base + 0x40000 \<le> 2 ^ 32" "\<forall>x. base \<le> unat x \<and> unat x < base + 0x40000 \<longrightarrow> m x = 0"
    and room: "n + 4096 * card (tables_for (handover_regions env base v0 n)) + spare < 0x40000"
  shows "\<exists>st' awd. awd_main env mb_magic mb (start_state m) = Inr (st', awd, e_entry (read_elf64_header m a)) \<and>
    paging_cr3 st' = Some (paging_pml4 env) \<and>
    (\<forall>i k. loads_at m a 0 i k \<and> canonical (p_vaddr (prog_header m a i) + of_nat k) \<longrightarrow>
       awd_read (amem st') (paging_pml4 env) (p_vaddr (prog_header m a i) + of_nat k) =
         Some (m (seg_source a (prog_header m a i) k))) \<and>
    awd = awd_info_initial\<lparr>log_cursor_y := con_y (console_data st'), multiboot_struct := mb,
      ptr_malloc_current := ucast (heap_phys_current st'), ptr_malloc_limit := of_nat (base + 0x40000)\<rparr> \<and>
    base + n \<le> loader_cursor st' \<and> loader_cursor st' + spare < base + 0x40000"
proof -
  have n18: "n < 0x40000" "n < 2 ^ 32" using room by simp_all
  have base: "4096 dvd base" "unat e \<le> base" using round_page_bounds [of "unat e"] by (simp_all add: base_def)
  obtain st info where run: "awd_main env mb_magic mb (start_state m) = awd_handover env mb st info"
    "heap_used env base 0 st" "same_off_screen 0xB8000 m (amem st)"
    and info: "image_start info = a" "unat (kr_size (k_phys info)) = n" "k_virt info = \<lparr>kr_start = v0, kr_size = kr_size (k_phys info)\<rparr>"
    using awd_main_reaches_handover [OF ok says elf n18(2) [unfolded n_def] heap [unfolded base_def]]
    unfolding base_def n_def v0_def by blast
  note kept = off_screen_file [OF run(3) elf(2,4)]
  note same = elf_file_same [OF elf(2) kept]
  have now: "elf_inside (amem st) a len" "segments_fit (amem st) a v0 n" "read_elf64_header (amem st) a = read_elf64_header m a"
    using same(1-3) fit by blast+
  have order: "unat a + len \<le> base" using elf(3) base(2) by simp
  have pages: "4096 dvd n" by (simp add: n_def kernel_bytes_pages)
  obtain st' awd m2 where r: "awd_handover env mb st info = Inr (st', awd, e_entry (read_elf64_header m a))"
    "paging_cr3 st' = Some (paging_pml4 env)" "loaded_from (amem st) a v0 (of_nat base) 0 (amem st) m2"
    "\<forall>off < n. canonical (v0 + of_nat off) \<longrightarrow>
       awd_read (amem st') (paging_pml4 env) (v0 + of_nat off) = Some (m2 (of_nat (base + off)))"
    "awd = awd_info_initial\<lparr>log_cursor_y := con_y (console_data st'), multiboot_struct := mb,
      ptr_malloc_current := ucast (heap_phys_current st'), ptr_malloc_limit := of_nat (base + 0x40000)\<rparr>"
    "base + n \<le> loader_cursor st'" "loader_cursor st' + spare < base + 0x40000"
    using handover_result [OF run(2) info now(1,2) order v0 pages base(1) heap(1) link room]
    unfolding now(3) by blast
  have "awd_read (amem st') (paging_pml4 env) (p_vaddr (prog_header m a i) + of_nat k) =
      Some (m (seg_source a (prog_header m a i) k))"
    if l: "loads_at m a 0 i k" and canon: "canonical (p_vaddr (prog_header m a i) + of_nat k)" for i k
  proof -
    let ?ph = "prog_header m a i" and ?o = "seg_offset v0 (prog_header m a i) + k"
    have "seg_offset v0 ?ph + unat (p_filesz ?ph) \<le> n" "k < unat (p_filesz ?ph)"
      using l fit by (auto simp: loads_at_def segments_fit_def Let_def)
    moreover have addr: "v0 + of_nat ?o = p_vaddr ?ph + of_nat k" by (simp add: seg_offset_def)
    ultimately have "awd_read (amem st') (paging_pml4 env) (p_vaddr ?ph + of_nat k) = Some (m2 (of_nat (base + ?o)))"
      using r(4) [rule_format, of "?o"] canon by (simp only: addr)
    moreover have "of_nat (base + ?o) = seg_dest (of_nat base) v0 ?ph k" by (simp add: seg_dest_def)
    moreover have "m2 (seg_dest (of_nat base) v0 ?ph k) = m (seg_source a ?ph k)"
      using loaded_file(1) [OF elf(2) kept r(3)] l by blast
    ultimately show ?thesis by (simp only:)
  qed
  then show ?thesis using run(1) r(1,2,5-7) by auto
qed

section \<open>How many tables\<close>

text \<open>The tables on the way to a page are decided by its 2 MiB; a region touches few of these.\<close>

lemma prefixes_of_block:
  "prefixes_of v = (\<lambda>u. {[take_bit 9 (drop_bit 18 u)], [take_bit 9 (drop_bit 18 u), take_bit 9 (drop_bit 9 u)],
     [take_bit 9 (drop_bit 18 u), take_bit 9 (drop_bit 9 u), take_bit 9 u]}) (drop_bit 9 (vpage v))"
  by (simp add: prefixes_of_def table_path_def index_vpage)

lemma card_prefixes_of: "card (prefixes_of v) \<le> 3"
  by (simp add: prefixes_of_def card_insert_if)

lemma tables_for_region: "card (tables_for [r]) \<le> 3 * (region_count r div 512 + 2)"
proof -
  let ?c = "unat (virt_start r) div 4096" and ?n = "region_count r"
  define page where "page j = (of_nat (j mod 2 ^ 27 * 512) * 0x1000 :: u64)" for j
  let ?J = "{?c div 512..(?c + ?n) div 512}"
  have "prefixes_of (region_page r k) \<subseteq> (\<Union>j \<in> ?J. prefixes_of (page j))" if "k < ?n" for k
  proof -
    let ?j = "(?c + k) div 512"
    have "unat (drop_bit 9 (vpage (region_page r k))) = (?c + k) mod 2 ^ 36 div 512"
      unfolding region_page_def by (simp add: unsigned_drop_bit_eq drop_bit_eq_div unat_vpage_add unat_div del: of_nat_mult)
    moreover have "(?c + k) mod (512 * 2 ^ 27) div 512 = ?j mod 2 ^ 27" by (subst mod_mult2_eq) simp
    moreover have "unat (drop_bit 9 (vpage (page ?j))) = (?j mod 2 ^ 27 * 512) mod 2 ^ 36 div 512"
      using unat_vpage_add [of 0 "?j mod 2 ^ 27 * 512"] by (simp add: page_def unsigned_drop_bit_eq drop_bit_eq_div unat_div del: of_nat_mult)
    moreover have "?j mod 2 ^ 27 * 512 < 2 ^ 36" using mod_less_divisor [of "2 ^ 27" ?j] by simp
    ultimately have "drop_bit 9 (vpage (region_page r k)) = drop_bit 9 (vpage (page ?j))" by (simp add: word_unat_eq_iff)
    then have "prefixes_of (region_page r k) = prefixes_of (page ?j)" by (simp add: prefixes_of_block)
    moreover have "?j \<in> ?J" using that by (simp add: div_le_mono)
    ultimately show ?thesis by blast
  qed
  then have "tables_for [r] \<subseteq> (\<Union>j \<in> ?J. prefixes_of (page j))" by (auto simp: tables_for_def)
  then have "card (tables_for [r]) \<le> card (\<Union>j \<in> ?J. prefixes_of (page j))"
    by (intro card_mono) (simp_all add: prefixes_of_def)
  also have "\<dots> \<le> (\<Sum>j \<in> ?J. card (prefixes_of (page j)))" by (rule card_UN_le) simp
  also have "\<dots> \<le> (\<Sum>j \<in> ?J. 3)" by (intro sum_mono card_prefixes_of)
  also have "\<dots> = 3 * card ?J" by simp
  also have "card ?J \<le> ?n div 512 + 2"
  proof -
    have "(x + y) div 512 \<le> x div 512 + y div 512 + 1" for x y :: nat
    proof -
      have "x + y < (x div 512 + y div 512 + 2) * 512"
        using div_mult_mod_eq [of x 512] div_mult_mod_eq [of y 512] mod_less_divisor [of 512 x] mod_less_divisor [of 512 y]
        unfolding add_mult_distrib by linarith
      from less_mult_imp_div_less [OF this] show ?thesis by simp
    qed
    then have "(?c + ?n) div 512 \<le> ?c div 512 + ?n div 512 + 1" .
    then show ?thesis unfolding card_atLeastAtMost by (simp add: le_diff_conv)
  qed
  finally show ?thesis by simp
qed

lemma tables_for_Cons: "card (tables_for (r # rs)) \<le> card (tables_for [r]) + card (tables_for rs)"
proof -
  have "tables_for (r # rs) = tables_for [r] \<union> tables_for rs" by (auto simp: tables_for_def)
  then show ?thesis using card_Un_le by metis
qed

lemma tables_for_bound: "card (tables_for rs) \<le> (\<Sum>r \<leftarrow> rs. 3 * (region_count r div 512 + 2))"
proof (induction rs)
  case (Cons r rs)
  then show ?case using tables_for_Cons [of r rs] tables_for_region [of r] by simp
qed (simp add: tables_for_def)

text \<open>A loader image of at most 2 MiB and a kernel that fits the heap need at most 36 tables.\<close>

lemma handover_tables:
  assumes "unat (PAGE_ROUND_UP (awd_phys_end env) - 1 - awd_phys_start env) \<le> 0x200000" and "n < 0x40000"
  shows "card (tables_for (handover_regions env base v0 n)) \<le> 36"
proof -
  have "region_count (handover_regions env base v0 n ! 1) \<le> 512"
    using assms(1) by (simp add: handover_regions_def region_count_def page_count_def)
  then have "region_count (handover_regions env base v0 n ! 1) div 512 \<le> 1" by linarith
  moreover have "page_count (of_nat n) div 512 = 0" using assms(2) by (simp add: page_count_def unat_of_nat)
  ultimately have "(\<Sum>r \<leftarrow> handover_regions env base v0 n. 3 * (region_count r div 512 + 2)) \<le> 36"
    by (simp add: handover_regions_def region_count_def) (simp add: page_count_def AWD_ALLOC_SIZE_def)
  then show ?thesis using tables_for_bound [of "handover_regions env base v0 n"] by linarith
qed

section \<open>Properties\<close>

text \<open>C2. The loader starts the kernel: with a boot loader's structure whose first tagged module is an ELF
  executable above the screen, segments that fit the extent computed for them, a page-aligned lowest
  address, a zero heap behind the module, and room in it for the image and the tables of the mapped
  regions, \<open>awd_main\<close> returns with the new tables loaded and the entry point of the header, and every
  byte of the contents of every LOAD segment is what the processor's walk of these tables reads at its
  virtual address, where that address is canonical: no entry on the way is missing or not present.\<close>

theorem awd_main_loads_kernel:
  fixes m :: "32 bytes" and a e :: u32
  defines "v0 \<equiv> kernel_base m a" and "n \<equiv> kernel_bytes m a" and "base \<equiv> round_page (unat e)"
  assumes "mb_magic = 0x2BADB002" and "check_cpuid env \<noteq> 0" and "check_longmode env \<noteq> 0"
    and "multiboot_says (kernel_tag_name env) m mb a e"
    and "elf_check (read_elf64_header m a)" and "elf_inside m a len" and "unat a + len \<le> unat e" and "0xB9000 \<le> unat a"
    and "segments_fit m a v0 n" and "page_aligned v0" and "linked_at env base"
    and "base + 0x40000 \<le> 2 ^ 32" and "\<forall>x. base \<le> unat x \<and> unat x < base + 0x40000 \<longrightarrow> m x = 0"
    and "n + 4096 * card (tables_for (handover_regions env base v0 n)) < 0x40000"
  shows "\<exists>st' awd. awd_main env mb_magic mb (start_state m) = Inr (st', awd, e_entry (read_elf64_header m a)) \<and>
    paging_cr3 st' = Some (paging_pml4 env) \<and>
    (\<forall>i k. loads_at m a 0 i k \<and> canonical (p_vaddr (prog_header m a i) + of_nat k) \<longrightarrow>
       awd_read (amem st') (paging_pml4 env) (p_vaddr (prog_header m a i) + of_nat k) =
         Some (m (seg_source a (prog_header m a i) k)))"
  using awd_main_result [OF assms(4-11) assms(12-16) [unfolded v0_def n_def base_def], of 0] assms(17)
  unfolding v0_def n_def base_def by auto

definition sample_memory :: "32 bytes" where
  "sample_memory = sample_elf(0x514 := 1, 0x519 := 6, 0x541 := 7, 0x602 := 0x10, 0x604 := 0x79, 0x606 := 0x10, 0x609 := 8,
     0x800 := 0x6B, 0x900 := 0x6B)"

definition sample_awd :: awd_env where
  "sample_awd = \<lparr>awd_phys_start = 0xD0000, awd_phys_end = 0xD1000, paging_pml4 = 0xC0000, kernel_tag_name = 0x900,
     check_cpuid = 1, check_longmode = 1, stack_garbage = sample_region\<rparr>"

lemma sample_memory_file:
  assumes "in_range x 0x100000 121"
  shows "sample_memory x = sample_elf x"
proof -
  have "0x100000 \<le> unat x" using assms by (simp add: in_range_unat)
  then show ?thesis by (auto simp: sample_memory_def)
qed

lemma sample_multiboot: "multiboot_says 0x900 sample_memory 0x500 0x100000 0x100079"
  unfolding multiboot_says_def Let_def
proof (intro allI impI conjI)
  fix m' assume off: "same_off_screen 0xB8000 sample_memory m'"
  have e: "m' x = sample_memory x" if "unat x < 0xB8000" for x
    using that off in_range_unat [of "0xB8000 :: u32" 4000 x] by (simp add: same_off_screen_def)
  have b: "m' 0x514 = 1" "m' 0x515 = 0" "m' 0x516 = 0" "m' 0x517 = 0" "m' 0x518 = 0" "m' 0x519 = 6" "m' 0x51A = 0" "m' 0x51B = 0"
    "m' 0x540 = 0" "m' 0x541 = 7" "m' 0x542 = 0" "m' 0x543 = 0" "m' 0x600 = 0" "m' 0x601 = 0" "m' 0x602 = 0x10" "m' 0x603 = 0"
    "m' 0x604 = 0x79" "m' 0x605 = 0" "m' 0x606 = 0x10" "m' 0x607 = 0" "m' 0x608 = 0" "m' 0x609 = 8" "m' 0x60A = 0" "m' 0x60B = 0"
    "m' 0x700 = 0" "m' 0x800 = 0x6B" "m' 0x801 = 0" "m' 0x900 = 0x6B" "m' 0x901 = 0"
    by (simp_all add: e) (simp_all add: sample_memory_def sample_elf_def)
  have info: "mods_count (read_multiboot_info m' 0x500) = 1" "mods_addr (read_multiboot_info m' 0x500) = 0x600"
    "boot_loader_name (read_multiboot_info m' 0x500) = 0x700" "mod_start (read_module m' 0x600) = 0x100000"
    "mod_end (read_module m' 0x600) = 0x100079" "mod_cmdline (read_module m' 0x600) = 0x800"
    by (simp_all add: read_multiboot_info_def read_module_def load_le_numeral b push_bit_eq_mult)
  have strings: "c_string m' 0x700 []" "c_string m' 0x800 [0x6B]" "c_string m' 0x900 [0x6B]" by (simp_all add: b)
  show "\<exists>name. string_at m' (boot_loader_name (read_multiboot_info m' 0x500)) = Inr name \<and> length name < 2 ^ 31"
    using strlen_c_string [OF strings(1)] by (simp add: info string_at_def awd_strlen_def)
  have "find_module m' 0x900 0x600 1 0 = Inr (Some 0x600)"
    using strcmp_c_string [OF strings(2,3)] by (subst find_module.simps) (simp add: info awd_strcmp_def)
  then show "\<exists>md. find_module m' 0x900 (mods_addr (read_multiboot_info m' 0x500)) (mods_count (read_multiboot_info m' 0x500)) 0
      = Inr (Some md) \<and> mod_start (read_module m' md) = 0x100000 \<and> mod_end (read_module m' md) = 0x100079"
    by (simp add: info)
qed

lemma sample_boot:
  "elf_check (read_elf64_header sample_memory 0x100000)" "elf_inside sample_memory 0x100000 121"
  "segments_fit sample_memory 0x100000 0x1000 0x1000" "kernel_bytes sample_memory 0x100000 = 0x1000"
  "kernel_base sample_memory 0x100000 = 0x1000" "round_page (unat (0x100079 :: u32)) = 0x101000" "page_aligned 0x1000"
  "e_entry (read_elf64_header sample_memory 0x100000) = 0x1000" "loads_at sample_memory 0x100000 0 0 0"
  "prog_header sample_memory 0x100000 0 = prog_header sample_elf 0x100000 0"
proof -
  have inside0: "elf_inside sample_elf 0x100000 121"
    by (simp add: elf_inside_def sample_elf_header sample_elf_pheader header_offset_def)
  have fit0: "segments_fit sample_elf 0x100000 0x1000 0x1000"
    by (simp add: segments_fit_def sample_elf_header sample_elf_pheader seg_offset_def)
  have at0: "loads_at sample_elf 0x100000 0 0 0" by (simp add: loads_at_def sample_elf_header sample_elf_pheader)
  note same = elf_file_same [OF inside0 sample_memory_file]
  show "elf_inside sample_memory 0x100000 121" "segments_fit sample_memory 0x100000 0x1000 0x1000"
    "loads_at sample_memory 0x100000 0 0 0"
    using same fit0 at0 by blast+
  have hd: "read_elf64_header sample_memory 0x100000 = read_elf64_header sample_elf 0x100000"
    and lh: "load_headers sample_memory 0x100000 = load_headers sample_elf 0x100000" using same by blast+
  show "prog_header sample_memory 0x100000 0 = prog_header sample_elf 0x100000 0"
    using elf_inside_same(2) [OF inside0 sample_memory_file, of 0] by (simp add: sample_elf_header)
  show "kernel_bytes sample_memory 0x100000 = 0x1000" "kernel_base sample_memory 0x100000 = 0x1000"
    using sample_kernel_extent lh by (simp_all add: kernel_bytes_def kernel_base_def)
  show "elf_check (read_elf64_header sample_memory 0x100000)" "e_entry (read_elf64_header sample_memory 0x100000) = 0x1000"
    by (simp_all add: hd sample_elf_header)
qed (simp_all add: round_page_def page_aligned_def)

lemma sample_surroundings:
  "kernel_tag_name sample_awd = 0x900" "paging_pml4 sample_awd = 0xC0000" "check_cpuid sample_awd \<noteq> 0"
  "check_longmode sample_awd \<noteq> 0" "linked_at sample_awd 0x101000"
  "\<forall>x. 0x101000 \<le> unat x \<and> unat x < 0x101000 + 0x40000 \<longrightarrow> sample_memory x = 0"
  "0x1000 + 4096 * card (tables_for (handover_regions sample_awd 0x101000 0x1000 0x1000)) + 0x3000 < 0x40000"
proof -
  have "unat (PAGE_ROUND_UP (awd_phys_end sample_awd) - 1 - awd_phys_start sample_awd) \<le> 0x200000"
    by (simp add: sample_awd_def PAGE_ROUND_UP_def)
  from handover_tables [OF this, of "0x1000" "0x101000" "0x1000"]
  show "0x1000 + 4096 * card (tables_for (handover_regions sample_awd 0x101000 0x1000 0x1000)) + 0x3000 < 0x40000" by simp
  show "\<forall>x. 0x101000 \<le> unat x \<and> unat x < 0x101000 + 0x40000 \<longrightarrow> sample_memory x = 0"
    by (auto simp: sample_memory_def sample_elf_def)
qed (simp_all add: sample_awd_def linked_at_def)

theorem awd_main_loads_kernel_witness:
  "\<exists>st' awd. awd_main sample_awd 0x2BADB002 0x500 (start_state sample_memory) = Inr (st', awd, 0x1000) \<and>
     awd_read (amem st') 0xC0000 0x1000 = Some 0xAB"
proof -
  obtain st' awd where run: "awd_main sample_awd 0x2BADB002 0x500 (start_state sample_memory) = Inr (st', awd, 0x1000)"
    "\<forall>i k. loads_at sample_memory 0x100000 0 i k \<and> canonical (p_vaddr (prog_header sample_memory 0x100000 i) + of_nat k) \<longrightarrow>
       awd_read (amem st') 0xC0000 (p_vaddr (prog_header sample_memory 0x100000 i) + of_nat k) =
       Some (sample_memory (seg_source 0x100000 (prog_header sample_memory 0x100000 i) k))"
    using awd_main_loads_kernel [of "0x2BADB002" sample_awd sample_memory "0x500" "0x100000" "0x100079" 121,
        unfolded sample_boot(4-6,8) sample_surroundings(1,2), OF refl sample_surroundings(3,4) sample_multiboot sample_boot(1,2) _ _
          sample_boot(3,7) sample_surroundings(5) _ sample_surroundings(6)] sample_surroundings(7)
    by auto
  have "awd_read (amem st') 0xC0000 0x1000 = Some (sample_memory 0x100078)"
    using run(2) [rule_format, of 0 0] sample_boot(9) by (simp add: sample_boot(10) sample_elf_pheader seg_source_def canonical_def)
  moreover have "sample_memory 0x100078 = 0xAB" by (simp add: sample_memory_def sample_elf_def)
  ultimately show ?thesis using run(1) by simp
qed






end
