(* ===== verification/Spec2Isabelle.thy ===== *)
theory Spec2Isabelle
  imports Libc_Printf Page_Tables Debugger Boot_Assembly Kernel_Early Loader_Main
begin

text \<open>
  CanidaeOS: a loader (AWD, src/awd, C for 32-bit protected mode) that builds page tables and starts a
  kernel (Lobo, src/lobo, C++ for x86_64), and a freestanding C library (src/libc) of which both have a copy.
  The theories of this directory are a shallow embedding of this code, one group of definitions per
  component in the order of the source, each operation with all its branches; this theory joins the two programs.

  \<^bold>\<open>How the program works.\<close>  A multiboot loader starts \<open>awd_main\<close>.  It sets up the text console, checks magic
  number and processor, records the memory regions, finds the tagged module, reads its ELF headers, starts a
  heap behind the modules, copies the segments of the kernel into it, queues the regions to map, builds
  four-level tables for them and jumps to the entry point of the kernel with the address of \<open>awd_info\<close>.
  \<open>kernel_early\<close> starts the bump allocator at the loader's heap, the consoles and the log on them, the
  interrupt table, the page directory and the page bitmap, registers the drivers and calls \<open>kernel_main\<close>,
  which creates threads and turns scheduling on; from then on the timer interrupt calls \<open>Schedule\<close>, the
  keyboard interrupt fills the queue that \<open>getchar_async\<close> reads, and the tilde key enters the debugger.

  \<^bold>\<open>Common ground.\<close>  \<open>Prelude\<close>: machine integers are words of their width, memory is a function from addresses
  to bytes with little-endian loads and stores, a fallible operation returns \<open>error + value\<close> (\<open>bind_r\<close> chains
  them), ranges of addresses and their disjointness.  \<open>Kernel_Base\<close> has the ways a kernel routine stops:
  panic, failed assertion (the Makefile builds with DEBUG), divide error, access out of an array, null pointer,
  code that is not mapped, not ending.  \<open>Kernel_State\<close> is the state of the memory side of the kernel with the calls of the log as a trace;
  \<open>Loader_State\<close> that of the loader.  C++ objects with one instance are fields of these records, typed objects
  that the code reaches by pointer (threads, tasks, drivers) are functions of the address, everything else is bytes.

  \<^bold>\<open>Interfaces.\<close>  Where several components share a contract it is a locale with its clients' lemmas, and every
  locale is interpreted on the model's definitions: \<open>bit_array\<close> (Bitset: the bitset class, Kernel_State: the page
  bitmap), \<open>bump_allocator\<close> (Bump_Allocator: \<open>kmalloc_aligned\<close> in Kheap, \<open>malloc_aligned\<close> in Loader_Heap),
  \<open>run_allocator\<close> (Pmm), \<open>page_tree\<close> (Page_Tree: the tables of the kernel in Page_Tables, those of the loader in
  Loader_Paging), \<open>sequence\<close> (Linked_List), \<open>byte_queue\<close> (Keyboard), \<open>formatter\<close> (Libc_Printf: both copies of the
  formatted output), \<open>console\<close> (Text_Screen: Vga_Console, Loader_Console).

  \<^bold>\<open>The C library.\<close>  Libc_String (string/*.c): copying and comparing over byte memory.  Libc_Stdlib
  (stdlib/*.c): number conversion within its buffers, and back.  Libc_Printf (stdio/vprintf.c and
  awd/console/printf.c): a format is the list of items it writes, and prints the concatenation of their texts.

  \<^bold>\<open>The loader.\<close>  Loader_Console (console/console.c) refines an abstract terminal.  Loader_State (logging.c, panic.c,
  version.c, requirements.c).  Loader_Heap (memory/alloc.c, memory.c).  Loader_Kernel (multiboot.c, kernel/kernel.c
  with the layouts of multiboot.h and elf64.h): the memory image of the kernel holds every LOAD segment at its place.
  Loader_Paging (memory/paging.c): the tables translate as the queue of regions says.  Loader_Main (main.c): the
  composition; the processor's walk of the tables reads, at a virtual address of the kernel, the byte of its
  file; and what is refused.

  \<^bold>\<open>The memory of the kernel.\<close>  Bitset (common/bitset.h), Kheap (mem/heap.cpp): blocks are aligned and disjoint.
  Pmm (mem/pmm.cpp): first fit, runs that never overlap, the statistics.  Vmm (arch/x86_64/vmm.cpp, mem/vmm.cpp,
  kernel/mem/memmap.h) has the code, Page_Tables its meaning: \<open>pte\<close> reads the entry of an address through the
  tree, \<open>map_pages\<close> refines an update of that function, the invariant \<open>vm_inv\<close> holds throughout;
  \<open>processor_translate\<close> is what the processor makes of an address, present bits included.  Boot_Memory
  (\<open>init_memory\<close>): exactly the free regions above 4 MiB are free afterwards.

  \<^bold>\<open>Threads, interrupts, devices.\<close>  Linked_List (common/single_linked_list.h).  Thread_Switch (switch_thread.s), the
  instructions of the switch.  Scheduler (task/scheduler.cpp) has the code, Scheduling the step relation of its
  operations, the invariant of the reachable states, equivalence with round robin, fairness, and that parked
  threads stay parked.  Interrupts (interrupts.cpp) with the gate table and the acknowledgements; Interrupt_Entry
  (interrupt_asm.s): an interrupt changes no register of the code it interrupts.  Keyboard (hal/keyboard.cpp,
  ps2_keyboard.cpp), Debugger (debug/kernel_debugger.cpp), Drivers (driver registry), Vga_Console, Uart, Klog (the
  log and its lines on both devices), Kernel_Early (\<open>kernel_early\<close> with the fetch after the page directory is
  loaded, \<open>kernel_main\<close> and the turns of its threads), Boot_Assembly (the checks, the
  switch to long mode, both segment tables, the jump from the loader to \<open>kernel_early\<close>, and util/gdt_util.c).

  \<^bold>\<open>Loops, fuel, bounds.\<close>  Loops whose counter grows or shrinks are \<open>fun\<close> or \<open>function\<close> with a measure.  Loops
  with a wrapping counter take fuel, and running out is the value for a loop that does not end: \<open>counter_period\<close> (2^32) for
  the 32-bit page counters of the page manager, \<open>page_period\<close> (2^52) for loops over pages of the address space; after
  that many rounds the counter is back at its start, so enough fuel is no restriction, and each theorem says
  that the loop ends within it.  Walks over lists in memory that need not end (the memory map, the
  loop over a region of the loader) are \<open>partial_function (option)\<close>, and that they return is proved.  The
  serial line and the keyboard are the sequence of the bytes that reads return; a loop that waits when the
  sequence is used up has not returned.  Theorems about the page manager that mention \<open>pmm_below_4g\<close> are for
  less than 4 GiB, since the code multiplies page numbers in 32 bits.

  \<^bold>\<open>Parameters and what is assumed of them.\<close>  Addresses that the linker assigns, the results of CPUID, port reads,
  return addresses, the content of uninitialised variables and the static constructors (\<open>_init\<close>) are parameters.  Theorems on the loader
  assume that the boot loader's structures are in memory where its protocol says, that the segments fit the
  extent computed from them, and that the heap area is zero (the loader does not clear the tables it allocates).
  Theorems on the kernel's tables assume a heap that does not reach the end of the address space nor the page bitmap.

  \<^bold>\<open>Not modelled.\<close>  The multiboot header, the stack and first instructions of the loader, and the two routines that
  halt: they compute nothing.  \<open>abort\<close> and the stack guard: no code calls them.  liballoc.h declares an allocator that is not in the
  tree.  Accesses to memory do not walk the tables one by one: the bytes of the kernel are those it sees at its
  virtual addresses, and \<open>processor_translate\<close> is applied where it decides what happens, to the bytes of the loaded
  kernel and to the fetch after \<open>kernel_early\<close> has loaded its empty directory.  The theorems on \<open>init_memory\<close>,
  \<open>kernel_main\<close> and what follows are about this code from the states it is written for.  Caches, timing and more than one
  processor are left out, as the code runs on one and uses no memory ordering.  Virtual calls are case
  distinctions on the classes that exist.  Build files and texts have no model.
\<close>

section \<open>The loader and the kernel together\<close>

lemma ptr_malloc_current_cursor:
  "loader_cursor st < 2 ^ 32 \<Longrightarrow> unat (ucast (heap_phys_current st) :: u32) = loader_cursor st"
  by (simp add: unat_ucast_mod)

text \<open>C5. What the two programs do together.  Under the conditions of C2, with the loader's heap in the first
  2 MiB, which is what the kernel has mapped, and two pages of it left, the loader starts the kernel with its
  tables loaded.  Every kernel, at whatever addresses it is linked, that finds the loader's structure where it
  is told and has its page managers in their initial state then stops in the same way: \<open>kernel_early\<close> loads
  the page directory that \<open>vmm::init\<close> leaves empty, and the next instruction cannot be fetched.\<close>

theorem boot_faults_on_empty_directory:
  fixes m :: "32 bytes" and a e :: u32
  defines "v0 \<equiv> kernel_base m a" and "n \<equiv> kernel_bytes m a" and "base \<equiv> round_page (unat e)"
  assumes "mb_magic = 0x2BADB002" and "check_cpuid lenv \<noteq> 0" and "check_longmode lenv \<noteq> 0"
    and "multiboot_says (kernel_tag_name lenv) m mb a e"
    and "elf_check (read_elf64_header m a)" and "elf_inside m a len" and "unat a + len \<le> unat e" and "0xB9000 \<le> unat a"
    and "segments_fit m a v0 n" and "page_aligned v0" and "linked_at lenv base"
    and low: "base + 0x40000 \<le> 0x200000" and "\<forall>x. base \<le> unat x \<and> unat x < base + 0x40000 \<longrightarrow> m x = 0"
    and "n + 4096 * card (tables_for (handover_regions lenv base v0 n)) + 0x2000 < 0x40000"
  shows "\<exists>st' awd. awd_main lenv mb_magic mb (start_state m) = Inr (st', awd, e_entry (read_elf64_header m a)) \<and>
    paging_cr3 st' = Some (paging_pml4 lenv) \<and>
    (\<forall>env awd_ptr b. read_awd_info (kmem (boot_sys b)) awd_ptr = awd \<and> kernel_pmm (boot_sys b) = pmm_initial \<and>
       kernel_vmm (boot_sys b) = vmm_initial \<longrightarrow> kernel_early env awd_ptr b = Inl Unmapped_fetch)"
proof -
  have "base + 0x40000 \<le> 2 ^ 32" using low by simp
  from awd_main_result [OF assms(4-11) assms(12-14) [unfolded v0_def n_def base_def] this [unfolded base_def]
      assms(16,17) [unfolded v0_def n_def base_def]]
  obtain st' awd where run: "awd_main lenv mb_magic mb (start_state m) = Inr (st', awd, e_entry (read_elf64_header m a))"
      "paging_cr3 st' = Some (paging_pml4 lenv)"
    and awd: "awd = awd_info_initial\<lparr>log_cursor_y := con_y (console_data st'), multiboot_struct := mb,
      ptr_malloc_current := ucast (heap_phys_current st'), ptr_malloc_limit := of_nat (base + 0x40000)\<rparr>"
    and room: "loader_cursor st' + 0x2000 < base + 0x40000"
    unfolding v0_def n_def base_def by blast
  have "unat (ptr_malloc_current awd) = loader_cursor st'" using ptr_malloc_current_cursor [of st'] room low by (simp add: awd)
  moreover have "unat (ptr_malloc_limit awd) = base + 0x40000"
    using low by (simp add: awd unat_of_nat del: of_nat_add)
  ultimately have "unat (ptr_malloc_current awd) + 0x2000 \<le> unat (ptr_malloc_limit awd)"
    "unat (ptr_malloc_limit awd) + 0x2000 \<le> 2 ^ 31" using room low by simp_all
  then show ?thesis using run kernel_early_faults by blast
qed

text \<open>A kernel whose memory shows a structure at 0x100.\<close>

definition structure_bytes :: "awd_info \<Rightarrow> u64 \<Rightarrow> u8" where
  "structure_bytes awd a =
     (let k = unat (a AND 0xFF);
          fields = [kernel_phstart awd, kernel_phsize awd, multiboot_struct awd, numCPUs awd, ptr_phys_mem_map awd,
                    ptr_malloc_current awd, ptr_malloc_limit awd, log_cursor_y awd]
      in if k < 32 then ucast (drop_bit (8 * (k mod 4)) (fields ! (k div 4))) else 0)"

definition kernel_given :: "awd_info \<Rightarrow> boot_state" where
  "kernel_given awd = sample_kernel\<lparr>ints := (ints sample_kernel)\<lparr>kern := (kern (ints sample_kernel))\<lparr>sys :=
     (sys (kern (ints sample_kernel)))\<lparr>kmem := structure_bytes awd\<rparr>\<rparr>\<rparr>\<rparr>"

lemma word_of_its_bytes:
  fixes w :: u32
  assumes "m a = ucast w" "m (a + 1) = ucast (drop_bit 8 w)" "m (a + 2) = ucast (drop_bit 16 w)" "m (a + 3) = ucast (drop_bit 24 w)"
  shows "load32 m a = w"
proof (rule bit_word_eqI)
  fix n assume "n < LENGTH(32)"
  then have "n < 8 \<or> (\<exists>k < 8. n = 8 + k) \<or> (\<exists>k < 8. n = 16 + k) \<or> (\<exists>k < 8. n = 24 + k)" by simp presburger
  then show "bit (load32 m a) n \<longleftrightarrow> bit w n"
    by (elim disjE exE conjE) (auto simp: load32_bytes assms bit_simps)
qed

lemma structure_fields:
  assumes "a = 0x100"
  shows "load32 (structure_bytes awd) a = kernel_phstart awd" "load32 (structure_bytes awd) (a + 4) = kernel_phsize awd"
    "load32 (structure_bytes awd) (a + 8) = multiboot_struct awd" "load32 (structure_bytes awd) (a + 12) = numCPUs awd"
    "load32 (structure_bytes awd) (a + 16) = ptr_phys_mem_map awd" "load32 (structure_bytes awd) (a + 20) = ptr_malloc_current awd"
    "load32 (structure_bytes awd) (a + 24) = ptr_malloc_limit awd" "load32 (structure_bytes awd) (a + 28) = log_cursor_y awd"
  by (rule word_of_its_bytes; use assms in \<open>simp add: structure_bytes_def\<close>)+

lemma structure_read: "read_awd_info (structure_bytes awd) 0x100 = awd"
  by (simp add: read_awd_info_def structure_fields [OF refl, simplified])

theorem boot_faults_on_empty_directory_witness:
  "\<exists>st' awd. awd_main sample_awd 0x2BADB002 0x500 (start_state sample_memory) = Inr (st', awd, 0x1000) \<and>
     kernel_early sample_env 0x100 (kernel_given awd) = Inl Unmapped_fetch"
proof -
  have low: "(0x101000 :: nat) + 0x40000 \<le> 0x200000"
    "0x1000 + 4096 * card (tables_for (handover_regions sample_awd 0x101000 0x1000 0x1000)) + 0x2000 < 0x40000"
    using sample_surroundings(7) by simp_all
  obtain st' awd where run: "awd_main sample_awd 0x2BADB002 0x500 (start_state sample_memory) = Inr (st', awd, 0x1000)"
    and stops: "\<forall>env awd_ptr b. read_awd_info (kmem (boot_sys b)) awd_ptr = awd \<and> kernel_pmm (boot_sys b) = pmm_initial \<and>
       kernel_vmm (boot_sys b) = vmm_initial \<longrightarrow> kernel_early env awd_ptr b = Inl Unmapped_fetch"
    using boot_faults_on_empty_directory [of "0x2BADB002" sample_awd sample_memory "0x500" "0x100000" "0x100079" 121,
        unfolded sample_boot(4-6,8) sample_surroundings(1,2), OF refl sample_surroundings(3,4) sample_multiboot sample_boot(1,2) _ _
          sample_boot(3,7) sample_surroundings(5) low(1) sample_surroundings(6) low(2)]
    by auto
  have "kmem (boot_sys (kernel_given awd)) = structure_bytes awd" "kernel_pmm (boot_sys (kernel_given awd)) = pmm_initial"
    "kernel_vmm (boot_sys (kernel_given awd)) = vmm_initial"
    by (simp_all add: kernel_given_def sample_kernel_def sample_sched_def sample_heap_def)
  then show ?thesis using run stops structure_read by metis
qed

end
